(* ===== verification/Phantom_Prelude.thy ===== *)
theory Phantom_Prelude
  imports Main "HOL-Library.Word" "HOL-Library.Multiset"
begin

unbundle bit_operations_syntax

text \<open>
  Shared vocabulary of the development: the widths of the machine integers, the
  error values that stand for the panics, failed assertions and wild memory
  accesses of the C code, the state-and-error computations in which the stateful
  code is written, and the generic lemmas on words, lists and computations that
  the component theories use.
\<close>

section \<open>Machine types\<close>

text \<open>
  The port that is modelled is ia32: \<^verbatim>\<open>int\<close>, \<^verbatim>\<open>unsigned\<close>, \<^verbatim>\<open>long\<close> and pointers have
  32 bits. Values on which the program computes bitwise or with wrap-around are words.
  Addresses and sizes are naturals; where the C code adds or multiplies
  \<^verbatim>\<open>unsigned int\<close> values that may exceed the width, the reduction is written out
  with \<open>u32\<close>.
\<close>

type_synonym u8 = "8 word"
type_synonym i32 = "32 word"
type_synonym i64 = "64 word"
type_synonym addr = nat

definition u32 :: "nat \<Rightarrow> nat" where
  "u32 n = n mod 2 ^ 32"

definition u32_sub :: "nat \<Rightarrow> nat \<Rightarrow> nat" where
  "u32_sub a b = u32 (a + (2 ^ 32 - u32 b))"

definition INT_MAX :: int where
  "INT_MAX = 2 ^ 31 - 1"

section \<open>Errors and computations\<close>

text \<open>
  \<open>Assert_failed\<close> is a failed \<^verbatim>\<open>assert\<close>, \<open>Panic\<close> a call of \<^verbatim>\<open>panic\<close>,
  \<open>Exec_panic\<close> a call of \<^verbatim>\<open>pvm_exec_panic\<close> (the virtual machine thread dies),
  \<open>Fault p\<close> a read or write through a pointer \<open>p\<close> at which there is no object,
  \<open>Bad_data_area\<close> the use of a data area as the structure of another class,
  \<open>Out_of_bounds\<close> an access outside a C array, \<open>Div_error\<close> the hardware's division
  trap, \<open>Java_exception c m\<close> an exception of class \<open>c\<close> with message \<open>m\<close> thrown by the
  compiler, and \<open>Diverges\<close> the exhaustion of a loop's or recursion's fuel.
\<close>

datatype vm_error =
    Assert_failed string
  | Panic string
  | Exec_panic string
  | Fault addr
  | Bad_data_area
  | Out_of_bounds
  | Div_error
  | Java_exception string string
  | Diverges

type_synonym ('s, 'a) comp = "'s \<Rightarrow> vm_error + 'a \<times> 's"

definition ret :: "'a \<Rightarrow> ('s, 'a) comp" where
  "ret x = (\<lambda>s. Inr (x, s))"

definition raise :: "vm_error \<Rightarrow> ('s, 'a) comp" where
  "raise e = (\<lambda>s. Inl e)"

definition bindE :: "('s, 'a) comp \<Rightarrow> ('a \<Rightarrow> ('s, 'b) comp) \<Rightarrow> ('s, 'b) comp" where
  "bindE m f = (\<lambda>s. case m s of Inl e \<Rightarrow> Inl e | Inr (x, s') \<Rightarrow> f x s')"

definition thenE :: "('s, 'a) comp \<Rightarrow> ('s, 'b) comp \<Rightarrow> ('s, 'b) comp" where
  "thenE m n = bindE m (\<lambda>_. n)"

definition assertE :: "string \<Rightarrow> bool \<Rightarrow> ('s, unit) comp" where
  "assertE msg b = (if b then ret () else raise (Assert_failed msg))"

definition gets :: "('s \<Rightarrow> 'a) \<Rightarrow> ('s, 'a) comp" where
  "gets f = (\<lambda>s. Inr (f s, s))"

definition modify :: "('s \<Rightarrow> 's) \<Rightarrow> ('s, unit) comp" where
  "modify f = (\<lambda>s. Inr ((), f s))"

definition whenE :: "bool \<Rightarrow> ('s, unit) comp \<Rightarrow> ('s, unit) comp" where
  "whenE b m = (if b then m else ret ())"

fun iterE :: "('a \<Rightarrow> ('s, unit) comp) \<Rightarrow> 'a list \<Rightarrow> ('s, unit) comp" where
  "iterE f [] = ret ()"
| "iterE f (x # xs) = thenE (f x) (iterE f xs)"

named_theorems comp_simps \<open>evaluation rules of the computation combinators\<close>

lemma ret_apply [comp_simps, simp]: "ret x s = Inr (x, s)"
  by (simp add: ret_def)

lemma raise_apply [comp_simps, simp]: "raise e s = Inl e"
  by (simp add: raise_def)

lemma gets_apply [comp_simps, simp]: "gets f s = Inr (f s, s)"
  by (simp add: gets_def)

lemma modify_apply [comp_simps, simp]: "modify f s = Inr ((), f s)"
  by (simp add: modify_def)

lemma bindE_apply [comp_simps]:
  "bindE m f s = (case m s of Inl e \<Rightarrow> Inl e | Inr (x, s') \<Rightarrow> f x s')"
  by (simp add: bindE_def)

lemma thenE_apply [comp_simps]:
  "thenE m n s = (case m s of Inl e \<Rightarrow> Inl e | Inr (x, s') \<Rightarrow> n s')"
  by (simp add: thenE_def bindE_def)

lemma assertE_apply [comp_simps]:
  "assertE msg b s = (if b then Inr ((), s) else Inl (Assert_failed msg))"
  by (simp add: assertE_def)

lemma whenE_apply [comp_simps]: "whenE b m s = (if b then m s else Inr ((), s))"
  by (simp add: whenE_def)

lemma bindE_InrE:
  assumes "bindE m f s = Inr r"
  obtains x s' where "m s = Inr (x, s')" and "f x s' = Inr r"
  using assms by (auto simp: bindE_def split: sum.splits)

lemma thenE_InrE:
  assumes "thenE m n s = Inr r"
  obtains x s' where "m s = Inr (x, s')" and "n s' = Inr r"
  using assms by (auto simp: thenE_apply split: sum.splits)

lemma bindE_Inr: "m s = Inr (x, s') \<Longrightarrow> bindE m f s = f x s'"
  by (simp add: bindE_def)

lemma thenE_Inr: "m s = Inr (x, s') \<Longrightarrow> thenE m n s = n s'"
  by (simp add: thenE_apply)

lemma bindE_Inl: "m s = Inl e \<Longrightarrow> bindE m f s = Inl e"
  by (simp add: bindE_def)

lemma bindE_assoc: "bindE (bindE m f) g = bindE m (\<lambda>x. bindE (f x) g)"
  by (rule ext) (simp add: bindE_def split: sum.splits)

lemma bindE_ret [simp]: "bindE (ret x) f = f x"
  by (rule ext) (simp add: bindE_def)

lemma bindE_ret_right: "bindE m ret = m"
  by (rule ext) (simp add: bindE_def split: sum.splits)

text \<open>Iteration over a list keeps an invariant that every single call keeps.\<close>

lemma iterE_append: "iterE f (xs @ ys) = thenE (iterE f xs) (iterE f ys)"
  by (induction xs) (auto simp: thenE_apply fun_eq_iff split: sum.splits)

lemma iterE_rule:
  assumes "\<And>x s. x \<in> set xs \<Longrightarrow> I s \<Longrightarrow> \<exists>s'. f x s = Inr ((), s') \<and> I s'"
    and "I s"
  shows "\<exists>s'. iterE f xs s = Inr ((), s') \<and> I s'"
  using assms
proof (induction xs arbitrary: s)
  case Nil
  then show ?case by simp
next
  case (Cons x xs)
  then obtain s1 where s1: "f x s = Inr ((), s1)" "I s1"
    by (meson list.set_intros(1))
  from Cons obtain s2 where "iterE f xs s1 = Inr ((), s2)" "I s2"
    using s1(2) by (meson list.set_intros(2))
  with s1 show ?case by (auto simp: thenE_apply)
qed

section \<open>Words\<close>

lemma u32_less [simp]: "u32 n < 2 ^ 32"
  by (simp add: u32_def)

lemma u32_small: "n < 2 ^ 32 \<Longrightarrow> u32 n = n"
  by (simp add: u32_def)

lemma u32_sub_le:
  assumes "b \<le> a" "a < 2 ^ 32"
  shows "u32_sub a b = a - b"
proof -
  have "u32 b = b" using assms by (intro u32_small) simp
  moreover have "a + (2 ^ 32 - b) = 2 ^ 32 + (a - b)" using assms by linarith
  ultimately have "u32_sub a b = (2 ^ 32 + (a - b)) mod 2 ^ 32"
    by (simp only: u32_sub_def u32_def)
  also have "\<dots> = (a - b) mod 2 ^ 32" by (rule mod_add_self1)
  also have "\<dots> = a - b" using assms by (intro mod_less) linarith
  finally show ?thesis .
qed

lemma word_and_1_iff: "(w AND 1 \<noteq> 0) = bit w 0" for w :: "'a::len word"
  by (simp add: and_one_eq odd_iff_mod_2_eq_one bit_0)

section \<open>Lists\<close>

lemma count_list_mset: "count (mset xs) x = count_list xs x"
  by (simp add: count_mset)

lemma nth_update_frame: "j \<noteq> i \<Longrightarrow> xs[i := v] ! j = xs ! j"
  by simp

end
