(* ===== verification/Object_Model.thy ===== *)
theory Object_Model
  imports Phantom_Prelude
begin

text \<open>
  The object memory of the Phantom virtual machine: object references
  (\<^verbatim>\<open>struct pvm_object\<close>), object headers (\<^verbatim>\<open>struct pvm_object_storage\<close>), the data
  areas of the internal classes (\<^verbatim>\<open>include/vm/internal_da.h\<close>), the object flags
  and the state of the memory manager. Memory is a map from addresses to object
  headers: an address that holds no object has no entry, and an access through it
  is a \<open>Fault\<close>. A data area is a tagged union; memory cleared with \<^verbatim>\<open>memset\<close>
  (\<open>DA_zero\<close>) reads as the all-zero structure of whatever class it is used as.
  Pointers to a data area (\<^verbatim>\<open>&(o.data->da)\<close>) are represented by the address of the
  object they point into.
\<close>

section \<open>References and object flags\<close>

record pvm_object =
  ob_data :: addr
  ob_interface :: addr

definition null_ref :: pvm_object where
  "null_ref = \<lparr>ob_data = 0, ob_interface = 0\<rparr>"

definition PVM_OBJECT_START_MARKER :: "32 word" where
  "PVM_OBJECT_START_MARKER = 0x7FAA7F55"

text \<open>Allocator flags (\<^verbatim>\<open>include/vm/alloc.h\<close>).\<close>

definition AF_FREE :: u8 where "AF_FREE = 0x00"
definition AF_ALLOCATED :: u8 where "AF_ALLOCATED = 0x01"
definition AF_REFZERO :: u8 where "AF_REFZERO = 0x02"
definition AF_WENT_DOWN :: u8 where "AF_WENT_DOWN = 0x04"
definition AF_IN_BUFFER :: u8 where "AF_IN_BUFFER = 0x08"

text \<open>Object storage flags (\<^verbatim>\<open>include/vm/object_flags.h\<close>).\<close>

definition IS_FINALIZER :: "32 word" where "IS_FINALIZER = 0x1000"
definition IS_CHILDFREE :: "32 word" where "IS_CHILDFREE = 0x800"
definition IS_THREAD :: "32 word" where "IS_THREAD = 0x400"
definition IS_STACK_FRAME :: "32 word" where "IS_STACK_FRAME = 0x200"
definition IS_CALL_FRAME :: "32 word" where "IS_CALL_FRAME = 0x100"
definition IS_INTERNAL :: "32 word" where "IS_INTERNAL = 0x80"
definition IS_RESIZEABLE :: "32 word" where "IS_RESIZEABLE = 0x40"
definition IS_STRING :: "32 word" where "IS_STRING = 0x20"
definition IS_INT :: "32 word" where "IS_INT = 0x10"
definition IS_DECOMPOSEABLE :: "32 word" where "IS_DECOMPOSEABLE = 0x08"
definition IS_CLASS :: "32 word" where "IS_CLASS = 0x04"
definition IS_INTERFACE :: "32 word" where "IS_INTERFACE = 0x02"
definition IS_CODE :: "32 word" where "IS_CODE = 0x01"
definition HAS_WEAKREF :: "32 word" where "HAS_WEAKREF = 0x100000"

lemmas object_flag_defs =
  IS_FINALIZER_def IS_CHILDFREE_def IS_THREAD_def IS_STACK_FRAME_def IS_CALL_FRAME_def
  IS_INTERNAL_def IS_RESIZEABLE_def IS_STRING_def IS_INT_def IS_DECOMPOSEABLE_def
  IS_CLASS_def IS_INTERFACE_def IS_CODE_def HAS_WEAKREF_def

lemmas alloc_flag_defs =
  AF_FREE_def AF_ALLOCATED_def AF_REFZERO_def AF_WENT_DOWN_def AF_IN_BUFFER_def

definition has_flag :: "'a::len word \<Rightarrow> 'a word \<Rightarrow> bool" where
  "has_flag w f \<longleftrightarrow> w AND f \<noteq> 0"

section \<open>Data areas of the internal classes\<close>

record data_area_4_array =
  arr_page :: pvm_object
  arr_page_size :: nat
  arr_used_slots :: nat

record data_area_4_call_frame =
  cf_istack :: pvm_object
  cf_ostack :: pvm_object
  cf_estack :: pvm_object
  cf_IP_max :: nat
  cf_code :: addr
  cf_IP :: nat
  cf_this_object :: pvm_object
  cf_prev :: pvm_object
  cf_ordinal :: nat

record data_area_4_class =
  cl_object_flags :: "32 word"
  cl_object_data_area_size :: nat
  cl_object_default_interface :: pvm_object
  cl_sys_table_id :: nat
  cl_class_name :: pvm_object
  cl_class_parent :: pvm_object
  cl_static_vars :: pvm_object
  cl_ip2line_maps :: pvm_object
  cl_method_names :: pvm_object
  cl_field_names :: pvm_object

record data_area_4_thread =
  th_code :: addr
  th_IP :: nat
  th_IP_max :: nat
  th_call_frame :: pvm_object
  th_owner :: pvm_object
  th_environment :: pvm_object
  th_this_object :: pvm_object
  th_istack :: addr
  th_ostack :: addr
  th_estack :: addr
  th_stack_depth :: int

text \<open>
  A page of one of the three paged stacks: \<^verbatim>\<open>struct pvm_stack_da_common\<close>, the
  shortcut \<^verbatim>\<open>curr_da\<close> and the cells.
\<close>

record 'a stack_page =
  sp_root :: pvm_object
  sp_curr :: pvm_object
  sp_prev :: pvm_object
  sp_next :: pvm_object
  sp_free_cell_ptr :: nat
  sp_sSize :: nat
  sp_curr_da :: addr
  sp_stack :: "'a list"

record pvm_exception_handler =
  eh_object :: pvm_object
  eh_jump :: nat

record data_area_4_lock =
  lk_owner_thread :: addr
  lk_waiting_threads_array :: pvm_object
  lk_nwaiting :: nat
  lk_sem_value :: int

record data_area_4_directory =
  dir_elSize :: nat
  dir_capacity :: nat
  dir_nEntries :: nat
  dir_container :: pvm_object

record data_area_4_connection =
  cn_owner :: addr
  cn_callback :: pvm_object
  cn_p_kernel_state_object :: pvm_object

datatype data_area =
    DA_zero
  | DA_slots "pvm_object list"
  | DA_int i32
  | DA_long i64
  | DA_string nat "u8 list"
  | DA_code nat "u8 list"
  | DA_binary nat "u8 list"
  | DA_array data_area_4_array
  | DA_class data_area_4_class
  | DA_thread data_area_4_thread
  | DA_call_frame data_area_4_call_frame
  | DA_istack "i32 stack_page"
  | DA_ostack "pvm_object stack_page"
  | DA_estack "pvm_exception_handler stack_page"
  | DA_lock data_area_4_lock
  | DA_bitmap pvm_object
  | DA_closure pvm_object nat
  | DA_window pvm_object
  | DA_directory data_area_4_directory
  | DA_connection data_area_4_connection

section \<open>Object storage\<close>

record pvm_object_storage =
  object_start_marker :: "32 word"
  refCount :: int
  alloc_flags :: u8
  gc_flags :: u8
  exact_size :: nat
  o_class :: pvm_object
  o_satellites :: pvm_object
  o_flags :: "32 word"
  o_da_size :: nat
  o_da :: data_area

text \<open>
  Sizes of the structures on ia32: the allocation header takes 16 bytes, a
  reference 8, so the object header takes 40.
\<close>

definition sizeof_pvm_object :: nat where
  "sizeof_pvm_object = 8"

definition sizeof_pvm_object_storage :: nat where
  "sizeof_pvm_object_storage = 40"

definition da_po_limit :: "pvm_object_storage \<Rightarrow> nat" where
  "da_po_limit ob = o_da_size ob div sizeof_pvm_object"

section \<open>Typed views of a data area\<close>

definition zero_array :: data_area_4_array where
  "zero_array = \<lparr>arr_page = null_ref, arr_page_size = 0, arr_used_slots = 0\<rparr>"

definition zero_call_frame :: data_area_4_call_frame where
  "zero_call_frame = \<lparr>cf_istack = null_ref, cf_ostack = null_ref, cf_estack = null_ref,
     cf_IP_max = 0, cf_code = 0, cf_IP = 0, cf_this_object = null_ref, cf_prev = null_ref,
     cf_ordinal = 0\<rparr>"

definition zero_class :: data_area_4_class where
  "zero_class = \<lparr>cl_object_flags = 0, cl_object_data_area_size = 0,
     cl_object_default_interface = null_ref, cl_sys_table_id = 0, cl_class_name = null_ref,
     cl_class_parent = null_ref, cl_static_vars = null_ref, cl_ip2line_maps = null_ref,
     cl_method_names = null_ref, cl_field_names = null_ref\<rparr>"

definition zero_thread :: data_area_4_thread where
  "zero_thread = \<lparr>th_code = 0, th_IP = 0, th_IP_max = 0, th_call_frame = null_ref,
     th_owner = null_ref, th_environment = null_ref, th_this_object = null_ref,
     th_istack = 0, th_ostack = 0, th_estack = 0, th_stack_depth = 0\<rparr>"

definition zero_page :: "nat \<Rightarrow> 'a \<Rightarrow> 'a stack_page" where
  "zero_page n z = \<lparr>sp_root = null_ref, sp_curr = null_ref, sp_prev = null_ref,
     sp_next = null_ref, sp_free_cell_ptr = 0, sp_sSize = 0, sp_curr_da = 0,
     sp_stack = replicate n z\<rparr>"

definition zero_handler :: pvm_exception_handler where
  "zero_handler = \<lparr>eh_object = null_ref, eh_jump = 0\<rparr>"

definition zero_lock :: data_area_4_lock where
  "zero_lock = \<lparr>lk_owner_thread = 0, lk_waiting_threads_array = null_ref,
     lk_nwaiting = 0, lk_sem_value = 0\<rparr>"

definition zero_directory :: data_area_4_directory where
  "zero_directory = \<lparr>dir_elSize = 0, dir_capacity = 0, dir_nEntries = 0,
     dir_container = null_ref\<rparr>"

definition zero_connection :: data_area_4_connection where
  "zero_connection = \<lparr>cn_owner = 0, cn_callback = null_ref,
     cn_p_kernel_state_object = null_ref\<rparr>"

definition PVM_INTEGER_STACK_SIZE :: nat where "PVM_INTEGER_STACK_SIZE = 64"
definition PVM_OBJECT_STACK_SIZE :: nat where "PVM_OBJECT_STACK_SIZE = 64"
definition PVM_EXCEPTION_STACK_SIZE :: nat where "PVM_EXCEPTION_STACK_SIZE = 64"

fun as_slots :: "nat \<Rightarrow> data_area \<Rightarrow> pvm_object list option" where
  "as_slots n (DA_slots xs) = Some xs"
| "as_slots n DA_zero = Some (replicate n null_ref)"
| "as_slots n _ = None"

fun as_int :: "data_area \<Rightarrow> i32 option" where
  "as_int (DA_int v) = Some v"
| "as_int DA_zero = Some 0"
| "as_int _ = None"

fun as_long :: "data_area \<Rightarrow> i64 option" where
  "as_long (DA_long v) = Some v"
| "as_long DA_zero = Some 0"
| "as_long _ = None"

fun as_string :: "data_area \<Rightarrow> (nat \<times> u8 list) option" where
  "as_string (DA_string n bs) = Some (n, bs)"
| "as_string DA_zero = Some (0, [])"
| "as_string _ = None"

fun as_code :: "data_area \<Rightarrow> (nat \<times> u8 list) option" where
  "as_code (DA_code n bs) = Some (n, bs)"
| "as_code DA_zero = Some (0, [])"
| "as_code _ = None"

fun as_binary :: "data_area \<Rightarrow> (nat \<times> u8 list) option" where
  "as_binary (DA_binary n bs) = Some (n, bs)"
| "as_binary DA_zero = Some (0, [])"
| "as_binary _ = None"

fun as_array :: "data_area \<Rightarrow> data_area_4_array option" where
  "as_array (DA_array a) = Some a"
| "as_array DA_zero = Some zero_array"
| "as_array _ = None"

fun as_class :: "data_area \<Rightarrow> data_area_4_class option" where
  "as_class (DA_class c) = Some c"
| "as_class DA_zero = Some zero_class"
| "as_class _ = None"

fun as_thread :: "data_area \<Rightarrow> data_area_4_thread option" where
  "as_thread (DA_thread t) = Some t"
| "as_thread DA_zero = Some zero_thread"
| "as_thread _ = None"

fun as_call_frame :: "data_area \<Rightarrow> data_area_4_call_frame option" where
  "as_call_frame (DA_call_frame c) = Some c"
| "as_call_frame DA_zero = Some zero_call_frame"
| "as_call_frame _ = None"

fun as_istack :: "data_area \<Rightarrow> i32 stack_page option" where
  "as_istack (DA_istack p) = Some p"
| "as_istack DA_zero = Some (zero_page PVM_INTEGER_STACK_SIZE 0)"
| "as_istack _ = None"

fun as_ostack :: "data_area \<Rightarrow> pvm_object stack_page option" where
  "as_ostack (DA_ostack p) = Some p"
| "as_ostack DA_zero = Some (zero_page PVM_OBJECT_STACK_SIZE null_ref)"
| "as_ostack _ = None"

fun as_estack :: "data_area \<Rightarrow> pvm_exception_handler stack_page option" where
  "as_estack (DA_estack p) = Some p"
| "as_estack DA_zero = Some (zero_page PVM_EXCEPTION_STACK_SIZE zero_handler)"
| "as_estack _ = None"

fun as_lock :: "data_area \<Rightarrow> data_area_4_lock option" where
  "as_lock (DA_lock l) = Some l"
| "as_lock DA_zero = Some zero_lock"
| "as_lock _ = None"

fun as_bitmap :: "data_area \<Rightarrow> pvm_object option" where
  "as_bitmap (DA_bitmap i) = Some i"
| "as_bitmap DA_zero = Some null_ref"
| "as_bitmap _ = None"

fun as_closure :: "data_area \<Rightarrow> (pvm_object \<times> nat) option" where
  "as_closure (DA_closure r n) = Some (r, n)"
| "as_closure DA_zero = Some (null_ref, 0)"
| "as_closure _ = None"

fun as_window :: "data_area \<Rightarrow> pvm_object option" where
  "as_window (DA_window r) = Some r"
| "as_window DA_zero = Some null_ref"
| "as_window _ = None"

fun as_directory :: "data_area \<Rightarrow> data_area_4_directory option" where
  "as_directory (DA_directory d) = Some d"
| "as_directory DA_zero = Some zero_directory"
| "as_directory _ = None"

fun as_connection :: "data_area \<Rightarrow> data_area_4_connection option" where
  "as_connection (DA_connection c) = Some c"
| "as_connection DA_zero = Some zero_connection"
| "as_connection _ = None"

end
