(* ===== verification/Object_Memory.thy ===== *)
theory Object_Memory
  imports Object_Model
begin

text \<open>
  The state of the virtual machine's memory, the table of internal classes
  (\<^verbatim>\<open>phantom/vm/internal.c\<close>), the root object table (\<^verbatim>\<open>include/vm/root.h\<close>) and the
  per-class reference iterators (\<^verbatim>\<open>pvm_gc_iter_*\<close> of \<^verbatim>\<open>phantom/vm/create.c\<close> and
  \<^verbatim>\<open>phantom/vm/stacks.c\<close>). The lemmas describe reads and writes of object headers and
  show that the references an iterator delivers depend on object contents only, never
  on the allocator's header fields.
\<close>

section \<open>Root slots\<close>

text \<open>The fields of \<^verbatim>\<open>struct pvm_root_t\<close> that the modelled code uses.\<close>

datatype root_slot =
    R_null_class | R_class_class | R_interface_class | R_code_class | R_int_class
  | R_long_class | R_string_class | R_array_class | R_page_class | R_thread_class
  | R_call_frame_class | R_istack_class | R_ostack_class | R_estack_class | R_boot_class
  | R_binary_class | R_bitmap_class | R_world_class | R_closure_class | R_window_class
  | R_directory_class | R_connection_class | R_mutex_class | R_cond_class | R_sema_class
  | R_null_object | R_sys_interface_object | R_class_loader | R_threads_list
  | R_restart_list | R_users_list | R_kernel_environment | R_os_entry | R_root_dir
  | R_kernel_stats

section \<open>Internal classes\<close>

text \<open>
  \<open>iclass\<close> names the functions of one internal class, as the suffix \<^verbatim>\<open>cn\<close> of
  \<^verbatim>\<open>syscall_table_4_cn\<close>, \<^verbatim>\<open>pvm_internal_init_cn\<close> and \<^verbatim>\<open>pvm_gc_iter_cn\<close> does. The
  structure sizes are those of the compiled kernel (\<open>szof\<close>); an absent function is
  \<open>None\<close>, the null pointer of the table.
\<close>

datatype iclass =
    C_void | C_class | C_interface | C_code | C_int | C_long | C_string | C_array | C_page
  | C_thread | C_call_frame | C_istack | C_ostack | C_estack | C_boot | C_tty | C_mutex
  | C_cond | C_sema | C_binary | C_bitmap | C_closure | C_world | C_window | C_directory
  | C_connection

record internal_class =
  ic_name :: string
  ic_root_index :: nat
  ic_fns :: iclass
  ic_iter :: "iclass option"
  ic_finalizer :: "iclass option"
  ic_restart :: "iclass option"
  ic_da_size :: nat
  ic_flags :: "32 word"

definition internal_class_rec ::
    "string \<Rightarrow> nat \<Rightarrow> iclass \<Rightarrow> bool \<Rightarrow> bool \<Rightarrow> bool \<Rightarrow> nat \<Rightarrow> 32 word \<Rightarrow> internal_class" where
  "internal_class_rec nm ri cn it fin rst sz fl =
     \<lparr>ic_name = nm, ic_root_index = ri, ic_fns = cn,
      ic_iter = (if it then Some cn else None),
      ic_finalizer = (if fin then Some cn else None),
      ic_restart = (if rst then Some cn else None),
      ic_da_size = sz, ic_flags = fl\<rparr>"

definition pvm_internal_classes_basic :: "(iclass \<Rightarrow> nat) \<Rightarrow> internal_class list" where
  "pvm_internal_classes_basic szof =
    [internal_class_rec ''.internal.void'' 0 C_void False False False 0 IS_CHILDFREE,
     internal_class_rec ''.internal.class'' 1 C_class True False False (szof C_class)
       (IS_INTERNAL OR IS_CLASS),
     internal_class_rec ''.internal.interface'' 2 C_interface True False False 0 IS_INTERFACE,
     internal_class_rec ''.internal.code'' 3 C_code False False False 0
       (IS_INTERNAL OR IS_CODE OR IS_CHILDFREE),
     internal_class_rec ''.internal.int'' 4 C_int False False False (szof C_int)
       (IS_INTERNAL OR IS_INT OR IS_CHILDFREE),
     internal_class_rec ''.internal.long'' 13 C_long False False False (szof C_long)
       (IS_INTERNAL OR IS_CHILDFREE),
     internal_class_rec ''.internal.string'' 5 C_string False False False (szof C_string)
       (IS_INTERNAL OR IS_STRING OR IS_CHILDFREE),
     internal_class_rec ''.internal.container.array'' 6 C_array True False False (szof C_array)
       (IS_INTERNAL OR IS_DECOMPOSEABLE OR IS_RESIZEABLE),
     internal_class_rec ''.internal.container.page'' 7 C_page True False False 0 0]"

definition pvm_internal_classes_exec :: "(iclass \<Rightarrow> nat) \<Rightarrow> internal_class list" where
  "pvm_internal_classes_exec szof =
    [internal_class_rec ''.internal.thread'' 8 C_thread True False False (szof C_thread)
       (IS_INTERNAL OR IS_THREAD),
     internal_class_rec ''.internal.call_frame'' 9 C_call_frame True False False
       (szof C_call_frame) (IS_INTERNAL OR IS_CALL_FRAME),
     internal_class_rec ''.internal.istack'' 10 C_istack True False False (szof C_istack)
       (IS_INTERNAL OR IS_STACK_FRAME),
     internal_class_rec ''.internal.ostack'' 11 C_ostack True False False (szof C_ostack)
       (IS_INTERNAL OR IS_STACK_FRAME),
     internal_class_rec ''.internal.estack'' 12 C_estack True False False (szof C_estack)
       (IS_INTERNAL OR IS_STACK_FRAME),
     internal_class_rec ''.internal.boot'' 16 C_boot False False False (szof C_boot)
       (IS_INTERNAL OR IS_CHILDFREE),
     internal_class_rec ''.internal.io.tty'' 17 C_tty False True True (szof C_tty)
       (IS_INTERNAL OR IS_CHILDFREE)]"

definition pvm_internal_classes_lib :: "(iclass \<Rightarrow> nat) \<Rightarrow> internal_class list" where
  "pvm_internal_classes_lib szof =
    [internal_class_rec ''.internal.mutex'' 20 C_mutex False False False (szof C_mutex)
       (IS_INTERNAL OR IS_CHILDFREE),
     internal_class_rec ''.internal.cond'' 21 C_cond False False False (szof C_cond)
       (IS_INTERNAL OR IS_CHILDFREE),
     internal_class_rec ''.internal.sema'' 32 C_sema False False False (szof C_sema)
       (IS_INTERNAL OR IS_CHILDFREE),
     internal_class_rec ''.internal.binary'' 22 C_binary False False False (szof C_binary)
       (IS_INTERNAL OR IS_CHILDFREE),
     internal_class_rec ''.internal.bitmap'' 23 C_bitmap True False False (szof C_bitmap)
       IS_INTERNAL,
     internal_class_rec ''.internal.closure'' 25 C_closure True False False (szof C_closure)
       IS_INTERNAL,
     internal_class_rec ''.internal.world'' 24 C_world False False False (szof C_world)
       (IS_INTERNAL OR IS_CHILDFREE),
     internal_class_rec ''.internal.window'' 29 C_window True True True (szof C_window)
       IS_INTERNAL,
     internal_class_rec ''.internal.directory'' 30 C_directory True True True
       (szof C_directory) IS_INTERNAL,
     internal_class_rec ''.internal.connection'' 31 C_connection True True True
       (szof C_connection) (IS_INTERNAL OR IS_FINALIZER)]"

definition pvm_internal_classes :: "(iclass \<Rightarrow> nat) \<Rightarrow> internal_class list" where
  "pvm_internal_classes szof =
     pvm_internal_classes_basic szof @ pvm_internal_classes_exec szof @
     pvm_internal_classes_lib szof"

definition pvm_n_internal_classes :: nat where
  "pvm_n_internal_classes = length (pvm_internal_classes (\<lambda>_. 0))"

section \<open>Machine state\<close>

text \<open>
  \<open>raw_mem\<close> is what an address that was never formatted as an object holds when it is
  looked at as one; \<open>iclass_object\<close> is the \<^verbatim>\<open>class_object\<close> column of the class table;
  \<open>finalized\<close> records the finalizer calls the collector makes.
\<close>

record vm_state =
  heap :: "addr \<rightharpoonup> pvm_object_storage"
  raw_mem :: "addr \<Rightarrow> pvm_object_storage"
  space_start :: addr
  space_end :: addr
  start_a :: "addr list"
  end_a :: "addr list"
  curr_a :: "addr list"
  gc_n_run :: nat
  gc_flags_last_generation :: u8
  pvm_root :: "root_slot \<Rightarrow> pvm_object"
  iclass_object :: "nat \<Rightarrow> pvm_object"
  sizeof_da :: "iclass \<Rightarrow> nat"
  finalized :: "addr list"

type_synonym 'a vm = "(vm_state, 'a) comp"

definition load :: "addr \<Rightarrow> pvm_object_storage vm" where
  "load p = (\<lambda>s. case heap s p of None \<Rightarrow> Inl (Fault p) | Some ob \<Rightarrow> Inr (ob, s))"

definition put_ob :: "addr \<Rightarrow> pvm_object_storage \<Rightarrow> vm_state \<Rightarrow> vm_state" where
  "put_ob p ob s = s\<lparr>heap := (heap s)(p \<mapsto> ob)\<rparr>"

definition store :: "addr \<Rightarrow> pvm_object_storage \<Rightarrow> unit vm" where
  "store p ob = modify (put_ob p ob)"

text \<open>Read-modify-write of a header through a pointer.\<close>

definition update_ob :: "addr \<Rightarrow> (pvm_object_storage \<Rightarrow> pvm_object_storage) \<Rightarrow> unit vm" where
  "update_ob p f = bindE (load p) (\<lambda>ob. store p (f ob))"

definition storage_at :: "vm_state \<Rightarrow> addr \<Rightarrow> pvm_object_storage" where
  "storage_at s p = (case heap s p of Some ob \<Rightarrow> ob | None \<Rightarrow> raw_mem s p)"

definition of_view :: "'a option \<Rightarrow> 'a vm" where
  "of_view v = (case v of None \<Rightarrow> raise Bad_data_area | Some x \<Rightarrow> ret x)"

text \<open>The data area of the object at \<open>p\<close>, viewed through \<open>vw\<close>.\<close>

definition load_da :: "(data_area \<Rightarrow> 'a option) \<Rightarrow> addr \<Rightarrow> 'a vm" where
  "load_da vw p = bindE (load p) (\<lambda>ob. of_view (vw (o_da ob)))"

definition store_da :: "addr \<Rightarrow> data_area \<Rightarrow> unit vm" where
  "store_da p d = update_ob p (\<lambda>ob. ob\<lparr>o_da := d\<rparr>)"

definition root :: "root_slot \<Rightarrow> pvm_object vm" where
  "root r = gets (\<lambda>s. pvm_root s r)"

definition pvm_is_null :: "vm_state \<Rightarrow> pvm_object \<Rightarrow> bool" where
  "pvm_is_null s r \<longleftrightarrow> ob_data r = 0 \<or> ob_data r = ob_data (pvm_root s R_null_object)"

section \<open>Reference iterators of the internal classes\<close>

text \<open>The \<^verbatim>\<open>da_po_limit\<close> reference slots of an object, as \<^verbatim>\<open>da_po_ptr\<close> sees them.\<close>

definition slots_of :: "pvm_object_storage \<Rightarrow> pvm_object list vm" where
  "slots_of os = bindE (of_view (as_slots (da_po_limit os) (o_da os))) (\<lambda>xs.
     if length xs < da_po_limit os then raise Out_of_bounds
     else ret (take (da_po_limit os) xs))"

definition pvm_gc_iter_page :: "pvm_object_storage \<Rightarrow> pvm_object list vm" where
  "pvm_gc_iter_page os = slots_of os"

definition pvm_gc_iter_call_frame :: "pvm_object_storage \<Rightarrow> pvm_object list vm" where
  "pvm_gc_iter_call_frame os = bindE (of_view (as_call_frame (o_da os))) (\<lambda>da.
     ret [cf_this_object da, cf_prev da, cf_istack da, cf_ostack da, cf_estack da])"

definition pvm_gc_iter_interface :: "pvm_object_storage \<Rightarrow> pvm_object list vm" where
  "pvm_gc_iter_interface os = raise (Panic ''Interface GC iterator called'')"

definition pvm_gc_iter_class :: "pvm_object_storage \<Rightarrow> pvm_object list vm" where
  "pvm_gc_iter_class os = bindE (of_view (as_class (o_da os))) (\<lambda>da.
     ret [cl_object_default_interface da, cl_class_name da, cl_class_parent da,
          cl_static_vars da, cl_ip2line_maps da, cl_method_names da, cl_field_names da])"

definition pvm_gc_iter_thread :: "pvm_object_storage \<Rightarrow> pvm_object list vm" where
  "pvm_gc_iter_thread os = bindE (of_view (as_thread (o_da os))) (\<lambda>da.
     ret [th_call_frame da, th_owner da, th_environment da])"

definition pvm_gc_iter_array :: "pvm_object_storage \<Rightarrow> pvm_object list vm" where
  "pvm_gc_iter_array os = bindE (of_view (as_array (o_da os))) (\<lambda>da.
     ret (if ob_data (arr_page da) \<noteq> 0 then [arr_page da] else []))"

definition pvm_gc_iter_bitmap :: "pvm_object_storage \<Rightarrow> pvm_object list vm" where
  "pvm_gc_iter_bitmap os = bindE (of_view (as_bitmap (o_da os))) (\<lambda>image.
     ret (if ob_data image \<noteq> 0 then [image] else []))"

definition pvm_gc_iter_closure :: "pvm_object_storage \<Rightarrow> pvm_object list vm" where
  "pvm_gc_iter_closure os = bindE (of_view (as_closure (o_da os))) (\<lambda>(obj, ordinal). ret [obj])"

definition pvm_gc_iter_window :: "pvm_object_storage \<Rightarrow> pvm_object list vm" where
  "pvm_gc_iter_window os = bindE (of_view (as_window (o_da os))) (\<lambda>connector. ret [connector])"

text \<open>A reference kept in raw bytes: two little-endian 32-bit pointers.\<close>

definition le32 :: "u8 list \<Rightarrow> nat" where
  "le32 bs = unat (bs ! 0) + 256 * unat (bs ! 1) + 65536 * unat (bs ! 2) + 16777216 * unat (bs ! 3)"

definition ref_of_bytes :: "u8 list \<Rightarrow> pvm_object" where
  "ref_of_bytes bs = \<lparr>ob_data = le32 bs, ob_interface = le32 (drop 4 bs)\<rparr>"

definition pvm_gc_iter_directory :: "pvm_object_storage \<Rightarrow> pvm_object list vm" where
  "pvm_gc_iter_directory os = bindE (of_view (as_directory (o_da os))) (\<lambda>da.
     bindE (load_da as_binary (ob_data (dir_container da))) (\<lambda>(data_size, bytes).
       let offs = map (\<lambda>i. i * dir_elSize da) [0..<dir_nEntries da]
       in if \<exists>off \<in> set offs. length bytes < off + 8 then raise Out_of_bounds
          else ret (map (\<lambda>off. ref_of_bytes (drop off bytes)) offs @ [dir_container da])))"

text \<open>
  The connection's owner is a pointer to a thread's data area, 40 bytes into the
  thread object; the iterator computes the object's address from it and delivers a
  reference with a null interface.
\<close>

definition pvm_gc_iter_connection :: "pvm_object_storage \<Rightarrow> pvm_object list vm" where
  "pvm_gc_iter_connection os = bindE (of_view (as_connection (o_da os))) (\<lambda>da.
     ret [\<lparr>ob_data = (if cn_owner da = 0 then u32_sub 0 sizeof_pvm_object_storage
                     else cn_owner da), ob_interface = 0\<rparr>,
          cn_p_kernel_state_object da, cn_callback da])"

definition pvm_gc_iter_ostack :: "pvm_object_storage \<Rightarrow> pvm_object list vm" where
  "pvm_gc_iter_ostack os = bindE (of_view (as_ostack (o_da os))) (\<lambda>da.
     if length (sp_stack da) < sp_free_cell_ptr da then raise Out_of_bounds
     else ret (take (sp_free_cell_ptr da) (sp_stack da) @
               (if ob_data (sp_next da) \<noteq> 0 then [sp_next da] else [])))"

definition pvm_gc_iter_istack :: "pvm_object_storage \<Rightarrow> pvm_object list vm" where
  "pvm_gc_iter_istack os = bindE (of_view (as_istack (o_da os))) (\<lambda>da.
     ret (if ob_data (sp_next da) \<noteq> 0 then [sp_next da] else []))"

definition pvm_gc_iter_estack :: "pvm_object_storage \<Rightarrow> pvm_object list vm" where
  "pvm_gc_iter_estack os = bindE (of_view (as_estack (o_da os))) (\<lambda>da.
     if length (sp_stack da) < sp_free_cell_ptr da then raise Out_of_bounds
     else ret (map eh_object (take (sp_free_cell_ptr da) (sp_stack da)) @
               (if ob_data (sp_next da) \<noteq> 0 then [sp_next da] else [])))"

text \<open>The dispatch through the class table; a null entry is a call through a null pointer.\<close>

definition run_iter :: "iclass option \<Rightarrow> pvm_object_storage \<Rightarrow> pvm_object list vm" where
  "run_iter f os = (case f of
       None \<Rightarrow> raise (Fault 0)
     | Some C_class \<Rightarrow> pvm_gc_iter_class os
     | Some C_interface \<Rightarrow> pvm_gc_iter_interface os
     | Some C_array \<Rightarrow> pvm_gc_iter_array os
     | Some C_page \<Rightarrow> pvm_gc_iter_page os
     | Some C_thread \<Rightarrow> pvm_gc_iter_thread os
     | Some C_call_frame \<Rightarrow> pvm_gc_iter_call_frame os
     | Some C_istack \<Rightarrow> pvm_gc_iter_istack os
     | Some C_ostack \<Rightarrow> pvm_gc_iter_ostack os
     | Some C_estack \<Rightarrow> pvm_gc_iter_estack os
     | Some C_bitmap \<Rightarrow> pvm_gc_iter_bitmap os
     | Some C_closure \<Rightarrow> pvm_gc_iter_closure os
     | Some C_window \<Rightarrow> pvm_gc_iter_window os
     | Some C_directory \<Rightarrow> pvm_gc_iter_directory os
     | Some C_connection \<Rightarrow> pvm_gc_iter_connection os
     | Some _ \<Rightarrow> ret [])"

text \<open>The table entry of an object's class: \<^verbatim>\<open>pvm_internal_classes[da(p->_class)->sys_table_id]\<close>.\<close>

definition class_rec_of :: "pvm_object_storage \<Rightarrow> internal_class vm" where
  "class_rec_of os = bindE (load_da as_class (ob_data (o_class os))) (\<lambda>cda.
     bindE (gets sizeof_da) (\<lambda>szof.
       if cl_sys_table_id cda < length (pvm_internal_classes szof)
       then ret (pvm_internal_classes szof ! cl_sys_table_id cda)
       else raise Out_of_bounds))"

section \<open>Reads, writes and object bodies\<close>

lemma load_Some [simp]: "heap s p = Some ob \<Longrightarrow> load p s = Inr (ob, s)"
  by (simp add: load_def)

lemma load_None [simp]: "heap s p = None \<Longrightarrow> load p s = Inl (Fault p)"
  by (simp add: load_def)

lemma load_InrD: "load p s = Inr (ob, s') \<Longrightarrow> heap s p = Some ob \<and> s' = s"
  by (auto simp: load_def split: option.splits)

lemma heap_put_ob [simp]: "heap (put_ob p ob s) = (heap s)(p \<mapsto> ob)"
  by (simp add: put_ob_def)

lemma store_apply [comp_simps, simp]: "store p ob s = Inr ((), put_ob p ob s)"
  by (simp add: store_def)

lemma update_ob_Some [simp]:
  "heap s p = Some ob \<Longrightarrow> update_ob p f s = Inr ((), put_ob p (f ob) s)"
  by (simp add: update_ob_def bindE_apply)

lemma put_ob_put_ob [simp]: "put_ob p ob (put_ob p ob' s) = put_ob p ob s"
  by (simp add: put_ob_def)

lemma of_view_Some [simp]: "of_view (Some x) s = Inr (x, s)"
  by (simp add: of_view_def)

lemma of_view_None [simp]: "of_view None s = Inl Bad_data_area"
  by (simp add: of_view_def)

text \<open>
  The body of an object is what the program stores in it; the allocation header
  around it belongs to the allocator and the collectors.
\<close>

definition body :: "pvm_object_storage \<Rightarrow> pvm_object \<times> 32 word \<times> nat \<times> data_area" where
  "body ob = (o_class ob, o_flags ob, o_da_size ob, o_da ob)"

definition body_eq :: "vm_state \<Rightarrow> vm_state \<Rightarrow> bool" where
  "body_eq s t \<longleftrightarrow> sizeof_da s = sizeof_da t \<and>
     (\<forall>p. map_option body (heap s p) = map_option body (heap t p))"

text \<open>A computation that only reads: its result depends on bodies alone.\<close>

definition body_reader :: "'a vm \<Rightarrow> bool" where
  "body_reader m \<longleftrightarrow>
     (\<forall>s x s'. m s = Inr (x, s') \<longrightarrow> s' = s) \<and>
     (\<forall>s t x. body_eq s t \<longrightarrow> m s = Inr (x, s) \<longrightarrow> m t = Inr (x, t))"

lemma body_readerI:
  assumes "\<And>s x s'. m s = Inr (x, s') \<Longrightarrow> s' = s"
    and "\<And>s t x. body_eq s t \<Longrightarrow> m s = Inr (x, s) \<Longrightarrow> m t = Inr (x, t)"
  shows "body_reader m"
  using assms unfolding body_reader_def by blast

lemma body_reader_state: "body_reader m \<Longrightarrow> m s = Inr (x, s') \<Longrightarrow> s' = s"
  unfolding body_reader_def by blast

lemma body_reader_cong:
  "body_reader m \<Longrightarrow> body_eq s t \<Longrightarrow> m s = Inr (x, s) \<Longrightarrow> m t = Inr (x, t)"
  unfolding body_reader_def by blast

lemma body_eq_refl [simp]: "body_eq s s"
  by (simp add: body_eq_def)

lemma body_eq_sym: "body_eq s t \<Longrightarrow> body_eq t s"
  by (simp add: body_eq_def)

lemma body_eq_trans: "body_eq s t \<Longrightarrow> body_eq t u \<Longrightarrow> body_eq s u"
  by (simp add: body_eq_def)

named_theorems readers \<open>computations that only read object bodies\<close>

lemma reader_ret [readers]: "body_reader (ret x)"
  by (rule body_readerI) auto

lemma reader_raise [readers]: "body_reader (raise e)"
  by (rule body_readerI) auto

lemma reader_bind [readers]:
  assumes m: "body_reader m" and f: "\<And>x. body_reader (f x)"
  shows "body_reader (bindE m f)"
proof (rule body_readerI)
  fix s x s'
  assume "bindE m f s = Inr (x, s')"
  then show "s' = s"
    by (auto elim!: bindE_InrE dest: body_reader_state [OF m] body_reader_state [OF f])
next
  fix s t x
  assume eq: "body_eq s t" and r: "bindE m f s = Inr (x, s)"
  from r obtain y s1 where y: "m s = Inr (y, s1)" and fy: "f y s1 = Inr (x, s)"
    by (rule bindE_InrE)
  from y have s1: "s1 = s" by (rule body_reader_state [OF m])
  with y eq have "m t = Inr (y, t)" by (auto intro: body_reader_cong [OF m])
  moreover from fy s1 eq have "f y t = Inr (x, t)" by (auto intro: body_reader_cong [OF f])
  ultimately show "bindE m f t = Inr (x, t)" by (simp add: bindE_apply)
qed

lemma reader_if [readers]: "body_reader m \<Longrightarrow> body_reader n \<Longrightarrow> body_reader (if b then m else n)"
  by simp

lemma reader_of_view [readers]: "body_reader (of_view v)"
  by (cases v) (auto simp: of_view_def intro: readers)

lemma reader_sizeof [readers]: "body_reader (gets sizeof_da)"
  by (rule body_readerI) (auto simp: body_eq_def)

lemma reader_load_da [readers]: "body_reader (load_da vw p)"
proof (rule body_readerI)
  fix s x s'
  assume "load_da vw p s = Inr (x, s')"
  then show "s' = s"
    by (auto simp: load_da_def of_view_def elim!: bindE_InrE dest!: load_InrD
        split: option.splits)
next
  fix s t x
  assume "body_eq s t" and "load_da vw p s = Inr (x, s)"
  moreover from this obtain ob where ob: "heap s p = Some ob" "vw (o_da ob) = Some x"
    by (auto simp: load_da_def of_view_def elim!: bindE_InrE dest!: load_InrD
        split: option.splits)
  ultimately have "map_option body (heap t p) = Some (body ob)"
    by (metis body_eq_def option.simps(9))
  then obtain ob' where "heap t p = Some ob'" "body ob' = body ob" by auto
  with ob show "load_da vw p t = Inr (x, t)"
    by (simp add: load_da_def bindE_apply body_def)
qed

lemma reader_slots [readers]: "body_reader (slots_of os)"
  unfolding slots_of_def by (intro readers)

lemma reader_iters [readers]:
  "body_reader (pvm_gc_iter_page os)" "body_reader (pvm_gc_iter_call_frame os)"
  "body_reader (pvm_gc_iter_interface os)" "body_reader (pvm_gc_iter_class os)"
  "body_reader (pvm_gc_iter_thread os)" "body_reader (pvm_gc_iter_array os)"
  "body_reader (pvm_gc_iter_bitmap os)" "body_reader (pvm_gc_iter_closure os)"
  "body_reader (pvm_gc_iter_window os)" "body_reader (pvm_gc_iter_directory os)"
  "body_reader (pvm_gc_iter_connection os)" "body_reader (pvm_gc_iter_ostack os)"
  "body_reader (pvm_gc_iter_istack os)" "body_reader (pvm_gc_iter_estack os)"
  unfolding pvm_gc_iter_page_def pvm_gc_iter_call_frame_def pvm_gc_iter_interface_def
    pvm_gc_iter_class_def pvm_gc_iter_thread_def pvm_gc_iter_array_def pvm_gc_iter_bitmap_def
    pvm_gc_iter_closure_def pvm_gc_iter_window_def pvm_gc_iter_directory_def
    pvm_gc_iter_connection_def pvm_gc_iter_ostack_def pvm_gc_iter_istack_def
    pvm_gc_iter_estack_def Let_def
  by (auto intro!: readers split: prod.splits)

lemma reader_run_iter [readers]: "body_reader (run_iter f os)"
  by (cases f) (auto simp: run_iter_def intro!: readers split: iclass.splits)

lemma reader_class_rec_of [readers]: "body_reader (class_rec_of os)"
  unfolding class_rec_of_def by (intro readers)

end
