(* ===== verification/Ref_Count.thy ===== *)
theory Ref_Count
  imports Object_Memory
begin

text \<open>
  Reference counting (\<^verbatim>\<open>phantom/vm/gc.c\<close>, lines 226 to 517): \<^verbatim>\<open>ref_inc_p\<close>,
  \<^verbatim>\<open>ref_saturate_p\<close>, \<^verbatim>\<open>do_ref_dec_p\<close> and the processing of an object whose count
  reached zero, whose children are decremented recursively. The recursion of the C
  code is unbounded; the model gives it fuel, and the main lemma shows that the number
  of live objects is always enough. The lemmas state the contract of the counter: as
  long as every count is at least the number of counted references, giving up one
  reference succeeds, frees no object that is still referenced and leaves the counts
  consistent.
\<close>

section \<open>Definitions\<close>

text \<open>
  With \<^verbatim>\<open>VM_UNMAP_UNUSED_OBJECTS\<close> and \<^verbatim>\<open>COMPILE_WEAKREF\<close> switched off
  (\<^verbatim>\<open>include/kernel/config.h\<close>) the next two functions have empty bodies. The cycle
  candidate buffer is not implemented in the source.
\<close>

definition pvm_collapse_free :: "addr \<Rightarrow> unit vm" where
  "pvm_collapse_free op = ret ()"

definition gc_clear_weakrefs :: "addr \<Rightarrow> unit vm" where
  "gc_clear_weakrefs p = ret ()"

definition cycle_root_buffer_add_candidate :: "addr \<Rightarrow> unit vm" where
  "cycle_root_buffer_add_candidate p = ret ()"

definition cycle_root_buffer_rm_candidate :: "addr \<Rightarrow> unit vm" where
  "cycle_root_buffer_rm_candidate p = ret ()"

text \<open>The call of a class finalizer, recorded in the state's log.\<close>

definition run_finalizer :: "pvm_object_storage \<Rightarrow> addr \<Rightarrow> unit vm" where
  "run_finalizer ob p = bindE (class_rec_of ob) (\<lambda>c.
     whenE (ic_finalizer c \<noteq> None) (modify (\<lambda>s. s\<lparr>finalized := finalized s @ [p]\<rparr>)))"

text \<open>The references a dying object gives up, in the order the C code visits them.\<close>

definition refzero_children :: "pvm_object_storage \<Rightarrow> pvm_object list vm" where
  "refzero_children ob =
     (if \<not> has_flag (o_flags ob) IS_INTERNAL then slots_of ob
      else if has_flag (o_flags ob) IS_CLASS \<or> has_flag (o_flags ob) IS_INTERFACE
              \<or> has_flag (o_flags ob) IS_CODE then ret []
      else bindE (class_rec_of ob) (\<lambda>c. run_iter (ic_iter c) ob))"

text \<open>\<open>rd\<close> is the recursive \<^verbatim>\<open>ref_dec_p\<close>.\<close>

definition do_refzero_process_children :: "(addr \<Rightarrow> unit vm) \<Rightarrow> addr \<Rightarrow> unit vm" where
  "do_refzero_process_children rd p = bindE (load p) (\<lambda>ob.
     bindE (refzero_children ob) (\<lambda>cs. iterE (\<lambda>o'. rd (ob_data o')) cs))"

definition refzero_process_children :: "(addr \<Rightarrow> unit vm) \<Rightarrow> addr \<Rightarrow> unit vm" where
  "refzero_process_children rd p = bindE (load p) (\<lambda>ob.
     thenE (assertE ''alloc_flags != FREE'' (alloc_flags ob \<noteq> AF_FREE))
    (thenE (assertE ''refCount == 0'' (refCount ob = 0))
    (thenE (do_refzero_process_children rd p)
    (bindE (load p) (\<lambda>ob'.
     thenE (whenE (has_flag (alloc_flags ob') AF_IN_BUFFER) (cycle_root_buffer_rm_candidate p))
     (update_ob p (\<lambda>o'. o'\<lparr>alloc_flags := AF_FREE\<rparr>)))))))"

definition ref_dec_proccess_zero :: "(addr \<Rightarrow> unit vm) \<Rightarrow> addr \<Rightarrow> unit vm" where
  "ref_dec_proccess_zero rd p = bindE (load p) (\<lambda>ob.
     thenE (assertE ''alloc_flags != FREE'' (alloc_flags ob \<noteq> AF_FREE))
    (thenE (assertE ''refCount == 0'' (refCount ob = 0))
    (thenE (assertE ''not CHILDFREE'' (\<not> has_flag (o_flags ob) IS_CHILDFREE))
           (refzero_process_children rd p))))"

text \<open>The label \<^verbatim>\<open>nonzero\<close>: a decremented but surviving object is a cycle candidate.\<close>

definition ref_dec_nonzero :: "addr \<Rightarrow> unit vm" where
  "ref_dec_nonzero p = bindE (load p) (\<lambda>ob.
     whenE (\<not> has_flag (o_flags ob) IS_INTERNAL)
      (thenE (whenE (\<not> has_flag (alloc_flags ob) AF_IN_BUFFER)
               (thenE (cycle_root_buffer_add_candidate p)
                 (update_ob p (\<lambda>o'. o'\<lparr>alloc_flags := alloc_flags o' OR AF_IN_BUFFER\<rparr>))))
             (update_ob p (\<lambda>o'. o'\<lparr>alloc_flags := alloc_flags o' OR AF_WENT_DOWN\<rparr>))))"

definition ref_dec_zero :: "(addr \<Rightarrow> unit vm) \<Rightarrow> addr \<Rightarrow> unit vm" where
  "ref_dec_zero rd p = bindE (load p) (\<lambda>ob.
     if has_flag (o_flags ob) IS_CHILDFREE
     then thenE (whenE (has_flag (o_flags ob) IS_FINALIZER) (run_finalizer ob p))
         (thenE (update_ob p (\<lambda>o'. o'\<lparr>alloc_flags := AF_FREE\<rparr>)) (pvm_collapse_free p))
     else ref_dec_proccess_zero rd p)"

definition do_ref_dec_p_step :: "(addr \<Rightarrow> unit vm) \<Rightarrow> addr \<Rightarrow> unit vm" where
  "do_ref_dec_p_step rd p =
     (if p = 0 then ret ()
      else bindE (load p) (\<lambda>ob.
        thenE (assertE ''object_start_marker'' (object_start_marker ob = PVM_OBJECT_START_MARKER))
       (thenE (assertE ''ALLOCATED'' (has_flag (alloc_flags ob) AF_ALLOCATED))
       (thenE (assertE ''refCount > 0'' (0 < refCount ob))
       (if refCount ob < INT_MAX
        then thenE (store p (ob\<lparr>refCount := refCount ob - 1\<rparr>))
         (if refCount ob - 1 = 0
          then thenE (whenE (has_flag (o_flags ob) HAS_WEAKREF) (gc_clear_weakrefs p))
              (bindE (load p) (\<lambda>ob'.
                 if refCount ob' \<noteq> 0 then ref_dec_nonzero p else ref_dec_zero rd p))
          else ref_dec_nonzero p)
        else ret ())))))"

primrec do_ref_dec_p :: "nat \<Rightarrow> addr \<Rightarrow> unit vm" where
  "do_ref_dec_p 0 = (\<lambda>p. raise Diverges)"
| "do_ref_dec_p (Suc n) = (\<lambda>p. do_ref_dec_p_step (do_ref_dec_p n) p)"

text \<open>
  The depth of the recursion is bounded by the number of objects, and that by the
  size of the object space.
\<close>

definition ref_dec_fuel :: "vm_state \<Rightarrow> nat" where
  "ref_dec_fuel s = Suc (space_end s - space_start s)"

definition ref_dec_p :: "addr \<Rightarrow> unit vm" where
  "ref_dec_p p = (\<lambda>s. do_ref_dec_p (ref_dec_fuel s) p s)"

definition ref_dec_o :: "pvm_object \<Rightarrow> unit vm" where
  "ref_dec_o r = ref_dec_p (ob_data r)"

definition ref_inc_p :: "addr \<Rightarrow> unit vm" where
  "ref_inc_p p =
     (if p = 0 then ret ()
      else bindE (load p) (\<lambda>ob.
        thenE (assertE ''object_start_marker'' (object_start_marker ob = PVM_OBJECT_START_MARKER))
       (thenE (assertE ''ALLOCATED'' (has_flag (alloc_flags ob) AF_ALLOCATED))
       (thenE (assertE ''refCount > 0'' (0 < refCount ob))
       (whenE (refCount ob < INT_MAX)
         (thenE (store p (ob\<lparr>refCount := refCount ob + 1\<rparr>))
           (whenE (has_flag (alloc_flags ob) AF_IN_BUFFER)
             (update_ob p (\<lambda>o'. o'\<lparr>alloc_flags := alloc_flags o' AND NOT AF_WENT_DOWN\<rparr>)))))))))"

definition ref_inc_o :: "pvm_object \<Rightarrow> pvm_object vm" where
  "ref_inc_o r = thenE (ref_inc_p (ob_data r)) (ret r)"

definition ref_saturate_p :: "addr \<Rightarrow> unit vm" where
  "ref_saturate_p p = bindE (load p) (\<lambda>ob0.
     thenE (whenE (has_flag (alloc_flags ob0) AF_IN_BUFFER)
             (thenE (cycle_root_buffer_rm_candidate p)
               (update_ob p (\<lambda>o'. o'\<lparr>alloc_flags :=
                  (alloc_flags o' AND NOT AF_IN_BUFFER) AND NOT AF_WENT_DOWN\<rparr>))))
     (bindE (load p) (\<lambda>ob.
       thenE (assertE ''object_start_marker'' (object_start_marker ob = PVM_OBJECT_START_MARKER))
      (thenE (assertE ''ALLOCATED'' (alloc_flags ob = AF_ALLOCATED))
      (thenE (assertE ''refCount > 0'' (0 < refCount ob))
        (store p (ob\<lparr>refCount := INT_MAX\<rparr>)))))))"

definition ref_saturate_o :: "pvm_object \<Rightarrow> unit vm" where
  "ref_saturate_o r = (if ob_data r = 0 then ret () else ref_saturate_p (ob_data r))"

section \<open>Live objects, counted references and the counting invariant\<close>

definition ob_live :: "pvm_object_storage \<Rightarrow> bool" where
  "ob_live ob \<longleftrightarrow> object_start_marker ob = PVM_OBJECT_START_MARKER \<and>
     has_flag (alloc_flags ob) AF_ALLOCATED"

definition live :: "vm_state \<Rightarrow> addr set" where
  "live s = {p. \<exists>ob. heap s p = Some ob \<and> ob_live ob}"

text \<open>The addresses an object's death decrements.\<close>

definition kids :: "vm_state \<Rightarrow> addr \<Rightarrow> addr list" where
  "kids s p = (case heap s p of None \<Rightarrow> []
     | Some ob \<Rightarrow> if has_flag (o_flags ob) IS_CHILDFREE then []
        else case refzero_children ob s of Inl e \<Rightarrow> []
             | Inr (cs, s') \<Rightarrow> filter (\<lambda>a. a \<noteq> 0) (map ob_data cs))"

text \<open>The reads the death of an object makes are defined.\<close>

definition kids_ok :: "vm_state \<Rightarrow> addr \<Rightarrow> bool" where
  "kids_ok s p \<longleftrightarrow> (\<exists>ob. heap s p = Some ob \<and>
     (if has_flag (o_flags ob) IS_CHILDFREE
      then has_flag (o_flags ob) IS_FINALIZER \<longrightarrow> (\<exists>c. class_rec_of ob s = Inr (c, s))
      else \<exists>cs. refzero_children ob s = Inr (cs, s)))"

definition rc :: "vm_state \<Rightarrow> addr \<Rightarrow> int" where
  "rc s p = (case heap s p of None \<Rightarrow> 0 | Some ob \<Rightarrow> refCount ob)"

text \<open>
  References to \<open>q\<close>: from the live objects outside \<open>D\<close>, as the edge function \<open>K\<close> gives
  them, and from the multiset \<open>R\<close> of references held outside the heap.
\<close>

definition in_refs :: "vm_state \<Rightarrow> (addr \<Rightarrow> addr list) \<Rightarrow> addr set \<Rightarrow> addr multiset \<Rightarrow> addr \<Rightarrow> nat"
  where "in_refs s K D R q = (\<Sum>p \<in> live s - D. count_list (K p) q) + count R q"

text \<open>
  A count agrees with the number \<open>n\<close> of references when it is saturated or at least \<open>n\<close>
  (exactly \<open>n\<close> in the strict reading \<open>E\<close>, under which nothing is leaked).
  \<open>D\<close> holds the objects that are being taken apart or were leaked: nothing counted
  refers to them any more and their own references do not count.
\<close>

definition rc_ok :: "bool \<Rightarrow> nat \<Rightarrow> int \<Rightarrow> bool" where
  "rc_ok E n r \<longleftrightarrow> 0 < r \<and> (r = INT_MAX \<or> (if E then r = int n else int n \<le> r))"

definition rc_inv ::
    "bool \<Rightarrow> vm_state \<Rightarrow> (addr \<Rightarrow> addr list) \<Rightarrow> addr set \<Rightarrow> addr multiset \<Rightarrow> bool" where
  "rc_inv E s K D R \<longleftrightarrow> finite (live s) \<and> heap s 0 = None \<and> set_mset R \<subseteq> live s - D \<and>
     (\<forall>q \<in> live s - D. kids_ok s q \<and> set (K q) \<subseteq> live s - D \<and>
        rc_ok E (in_refs s K D R q) (rc s q) \<and> rc s q \<le> INT_MAX)"

definition rc_consistent :: "bool \<Rightarrow> vm_state \<Rightarrow> addr set \<Rightarrow> addr multiset \<Rightarrow> bool" where
  "rc_consistent E s D R \<longleftrightarrow> rc_inv E s (kids s) D R"

text \<open>What the counter may change: the count and the allocator's flags of live objects.\<close>

definition hdr_rel :: "pvm_object_storage \<Rightarrow> pvm_object_storage \<Rightarrow> bool" where
  "hdr_rel ob ob' \<longleftrightarrow> ob' = ob\<lparr>refCount := refCount ob', alloc_flags := alloc_flags ob'\<rparr>"

definition rc_frame :: "vm_state \<Rightarrow> vm_state \<Rightarrow> addr set \<Rightarrow> bool" where
  "rc_frame s s' D \<longleftrightarrow>
     s' = s\<lparr>heap := heap s', finalized := finalized s'\<rparr> \<and>
     (\<forall>p. rel_option hdr_rel (heap s p) (heap s' p)) \<and>
     (\<forall>p. p \<notin> live s \<or> p \<in> D \<longrightarrow> heap s' p = heap s p) \<and>
     (\<forall>p ob'. heap s' p = Some ob' \<longrightarrow> p \<in> live s \<longrightarrow>
        ob_live ob' \<or> alloc_flags ob' = AF_FREE \<and> refCount ob' = 0)"

section \<open>Headers, bodies and frames\<close>

lemma slots_of_cong: "body ob = body ob' \<Longrightarrow> slots_of ob = slots_of ob'"
  by (simp add: body_def slots_of_def da_po_limit_def cong: if_cong)

lemma run_iter_cong:
  assumes "body ob = body ob'"
  shows "run_iter f ob = run_iter f ob'"
proof -
  have "o_da ob = o_da ob'" using assms by (simp add: body_def)
  then show ?thesis
    by (simp only: slots_of_cong [OF assms] run_iter_def pvm_gc_iter_page_def
      pvm_gc_iter_call_frame_def pvm_gc_iter_interface_def pvm_gc_iter_class_def
      pvm_gc_iter_thread_def pvm_gc_iter_array_def pvm_gc_iter_bitmap_def
      pvm_gc_iter_closure_def pvm_gc_iter_window_def pvm_gc_iter_directory_def
      pvm_gc_iter_connection_def pvm_gc_iter_ostack_def pvm_gc_iter_istack_def
      pvm_gc_iter_estack_def)
qed

lemma class_rec_of_cong: "body ob = body ob' \<Longrightarrow> class_rec_of ob = class_rec_of ob'"
  by (simp add: body_def class_rec_of_def)

lemma refzero_children_cong:
  assumes "body ob = body ob'"
  shows "refzero_children ob = refzero_children ob'"
proof -
  have "o_flags ob = o_flags ob'" using assms by (simp add: body_def)
  then show ?thesis
    unfolding refzero_children_def slots_of_cong [OF assms] class_rec_of_cong [OF assms]
      run_iter_cong [OF assms] by simp
qed

lemma reader_refzero [readers]: "body_reader (refzero_children ob)"
  unfolding refzero_children_def by (intro readers)

lemma body_eq_Some:
  assumes "body_eq s t" "heap s p = Some ob"
  obtains ob' where "heap t p = Some ob'" "body ob' = body ob"
proof -
  from assms have "map_option body (heap t p) = Some (body ob)"
    by (metis body_eq_def option.simps(9))
  then show thesis using that by auto
qed

lemma kids_ok_body_eq:
  assumes eq: "body_eq s t" and ok: "kids_ok s p"
  shows "kids_ok t p"
proof -
  from ok obtain ob where ob: "heap s p = Some ob"
    and c: "if has_flag (o_flags ob) IS_CHILDFREE
      then has_flag (o_flags ob) IS_FINALIZER \<longrightarrow> (\<exists>c. class_rec_of ob s = Inr (c, s))
      else \<exists>cs. refzero_children ob s = Inr (cs, s)"
    by (auto simp: kids_ok_def)
  from body_eq_Some [OF eq ob] obtain ob' where ob': "heap t p = Some ob'" "body ob' = body ob" .
  then have fl: "o_flags ob' = o_flags ob" by (simp add: body_def)
  from c show ?thesis
    using body_reader_cong [OF reader_class_rec_of eq, of ob]
      body_reader_cong [OF reader_refzero eq, of ob]
    by (auto simp: kids_ok_def ob' fl class_rec_of_cong [OF ob'(2)]
        refzero_children_cong [OF ob'(2)] split: if_splits)
qed

lemma kids_body_eq:
  assumes eq: "body_eq s t" and ok: "kids_ok s p"
  shows "kids t p = kids s p"
proof -
  from ok obtain ob where ob: "heap s p = Some ob" by (auto simp: kids_ok_def)
  from body_eq_Some [OF eq ob] obtain ob' where ob': "heap t p = Some ob'" "body ob' = body ob" .
  then have fl: "o_flags ob' = o_flags ob" by (simp add: body_def)
  show ?thesis
    using ok body_reader_cong [OF reader_refzero eq, of ob]
    by (auto simp: kids_def kids_ok_def ob ob' fl refzero_children_cong [OF ob'(2)]
        split: if_splits)
qed

lemma hdr_rel_refl [simp]: "hdr_rel ob ob"
  by (simp add: hdr_rel_def)

lemma hdr_rel_body: "hdr_rel ob ob' \<Longrightarrow> body ob' = body ob"
  by (cases ob; cases ob') (simp add: hdr_rel_def body_def)

lemma hdr_rel_trans: "hdr_rel a b \<Longrightarrow> hdr_rel b c \<Longrightarrow> hdr_rel a c"
  by (cases a; cases b; cases c) (simp add: hdr_rel_def)

lemma rc_frame_refl [simp]: "rc_frame s s D"
  by (auto simp: rc_frame_def live_def intro: option.rel_refl)

lemma rc_frame_body_eq: "rc_frame s s' D \<Longrightarrow> body_eq s s'"
  unfolding rc_frame_def body_eq_def
proof (intro conjI allI; elim conjE)
  assume "s' = s\<lparr>heap := heap s', finalized := finalized s'\<rparr>"
  then show "sizeof_da s = sizeof_da s'" by (cases s; cases s') simp
next
  fix p
  assume "\<forall>p. rel_option hdr_rel (heap s p) (heap s' p)"
  then have "rel_option hdr_rel (heap s p) (heap s' p)" by blast
  then show "map_option body (heap s p) = map_option body (heap s' p)"
    by (cases rule: option.rel_cases) (auto dest: hdr_rel_body)
qed

lemma rc_frame_live: "rc_frame s s' D \<Longrightarrow> live s' \<subseteq> live s"
  by (fastforce simp: rc_frame_def live_def)

lemma rc_frame_mono: "rc_frame s s' D' \<Longrightarrow> D \<subseteq> D' \<Longrightarrow> rc_frame s s' D"
  by (auto simp: rc_frame_def)

lemma rc_frame_trans:
  assumes 1: "rc_frame s t D" and 2: "rc_frame t u D"
  shows "rc_frame s u D"
  unfolding rc_frame_def
proof (intro conjI allI impI)
  show "u = s\<lparr>heap := heap u, finalized := finalized u\<rparr>"
    using 1 2 unfolding rc_frame_def by (cases s; cases t; cases u) simp
next
  fix p
  have "rel_option hdr_rel (heap s p) (heap t p)" "rel_option hdr_rel (heap t p) (heap u p)"
    using 1 2 unfolding rc_frame_def by blast+
  then show "rel_option hdr_rel (heap s p) (heap u p)"
    by (auto simp: option_rel_Some1 option_rel_Some2 elim!: option.rel_cases
        intro: hdr_rel_trans)
next
  fix p assume "p \<notin> live s \<or> p \<in> D"
  with rc_frame_live [OF 1] show "heap u p = heap s p"
    using 1 2 unfolding rc_frame_def by (metis subsetD)
next
  fix p ob' assume u: "heap u p = Some ob'" and p: "p \<in> live s"
  show "ob_live ob' \<or> alloc_flags ob' = AF_FREE \<and> refCount ob' = 0"
  proof (cases "p \<in> live t")
    case True
    then show ?thesis using 2 u unfolding rc_frame_def by blast
  next
    case False
    then have "heap t p = Some ob'" using 2 u unfolding rc_frame_def by metis
    then show ?thesis using 1 p unfolding rc_frame_def by blast
  qed
qed

section \<open>Updates of one object\<close>

lemma not_live_free [simp]: "alloc_flags ob = AF_FREE \<Longrightarrow> \<not> ob_live ob"
  by (simp add: ob_live_def has_flag_def alloc_flag_defs)

lemma liveE:
  assumes "p \<in> live s"
  obtains ob where "heap s p = Some ob" "ob_live ob"
  using assms by (auto simp: live_def)

lemma live_put_ob:
  "live (put_ob p ob s) = (if ob_live ob then insert p (live s) else live s - {p})"
  by (auto simp: live_def)

lemma rc_put_ob: "rc (put_ob p ob s) q = (if q = p then refCount ob else rc s q)"
  by (simp add: rc_def)

lemma live_finalized [simp]: "live (s\<lparr>finalized := xs\<rparr>) = live s"
  by (simp add: live_def)

lemma rc_finalized [simp]: "rc (s\<lparr>finalized := xs\<rparr>) q = rc s q"
  by (simp add: rc_def)

lemma rc_frame_finalized: "rc_frame s (s\<lparr>finalized := xs\<rparr>) D"
  by (auto simp: rc_frame_def live_def intro: option.rel_refl)

lemma rc_frame_put_ob:
  assumes "heap s p = Some ob" "p \<in> live s" "p \<notin> D" "hdr_rel ob ob'"
    and "ob_live ob' \<or> alloc_flags ob' = AF_FREE \<and> refCount ob' = 0"
  shows "rc_frame s (put_ob p ob' s) D"
  using assms by (auto simp: rc_frame_def put_ob_def live_def intro: option.rel_refl)

lemma in_refs_cong:
  "live t - D' = live s - D \<Longrightarrow> in_refs t K D' R q = in_refs s K D R q"
  by (simp add: in_refs_def)

lemma in_refs_add_mset:
  "in_refs s K D (add_mset p R) q = in_refs s K D R q + (if q = p then 1 else 0)"
  by (simp add: in_refs_def)

lemma in_refs_dead:
  assumes "finite (live s)" "p \<in> live s - D"
  shows "in_refs s K (insert p D) (R + mset (K p)) q = in_refs s K D R q"
proof -
  have "live s - D - {p} = live s - insert p D" by auto
  then have "(\<Sum>r \<in> live s - D. count_list (K r) q) =
      count_list (K p) q + (\<Sum>r \<in> live s - insert p D. count_list (K r) q)"
    using assms sum.remove [of "live s - D" p "\<lambda>r. count_list (K r) q"] by simp
  then show ?thesis by (simp add: in_refs_def count_list_mset)
qed

lemma in_refs_0D:
  assumes "finite (live s)" "in_refs s K D R p = 0"
  shows "p \<notin># R" "q \<in> live s - D \<Longrightarrow> p \<notin> set (K q)"
  using assms by (auto simp: in_refs_def count_list_0_iff not_in_iff)

lemma rc_invD:
  assumes "rc_inv E s K D R"
  shows "finite (live s)" "heap s 0 = None" "set_mset R \<subseteq> live s - D"
    and "q \<in> live s - D \<Longrightarrow> kids_ok s q"
    and "q \<in> live s - D \<Longrightarrow> set (K q) \<subseteq> live s - D"
    and "q \<in> live s - D \<Longrightarrow> rc_ok E (in_refs s K D R q) (rc s q)"
    and "q \<in> live s - D \<Longrightarrow> rc s q \<le> INT_MAX"
  using assms unfolding rc_inv_def by blast+

lemma rc_inv_shift:
  assumes inv: "rc_inv E s K D R" and eq: "body_eq s t" and fin: "finite (live t)"
    and sub: "live t - D' \<subseteq> live s - D" and R': "set_mset R' \<subseteq> live t - D'"
    and K: "\<And>q. q \<in> live t - D' \<Longrightarrow> set (K q) \<subseteq> live t - D'"
    and ok: "\<And>q. q \<in> live t - D' \<Longrightarrow> rc_ok E (in_refs t K D' R' q) (rc t q)"
    and le: "\<And>q. q \<in> live t - D' \<Longrightarrow> rc t q \<le> INT_MAX"
  shows "rc_inv E t K D' R'"
proof -
  have "heap t 0 = None"
    using rc_invD(2) [OF inv] eq unfolding body_eq_def by (metis option.map_disc_iff)
  moreover have "\<And>q. q \<in> live t - D' \<Longrightarrow> kids_ok t q"
    using rc_invD(4) [OF inv] sub kids_ok_body_eq [OF eq] by blast
  ultimately show ?thesis using fin R' K ok le unfolding rc_inv_def by blast
qed

lemma rc_okD: "rc_ok E n r \<Longrightarrow> r \<noteq> INT_MAX \<Longrightarrow> int n \<le> r"
  by (auto simp: rc_ok_def split: if_splits)

lemma rc_ok_dec: "rc_ok E (Suc n) r \<Longrightarrow> r < INT_MAX \<Longrightarrow> 1 < r \<Longrightarrow> rc_ok E n (r - 1)"
  by (auto simp: rc_ok_def split: if_splits)

lemma rc_ok_sat: "rc_ok E n INT_MAX"
  by (simp add: rc_ok_def INT_MAX_def)

text \<open>A reference to an object that survives is given up.\<close>

lemma rc_inv_drop:
  assumes inv: "rc_inv E s K D (add_mset p R)" and eq: "body_eq s t" and live: "live t = live s"
    and rc: "\<And>q. q \<noteq> p \<Longrightarrow> rc t q = rc s q"
    and rcp: "rc s p = INT_MAX \<and> rc t p = INT_MAX \<or>
              rc s p < INT_MAX \<and> 1 < rc s p \<and> rc t p = rc s p - 1"
  shows "rc_inv E t K D R"
proof (rule rc_inv_shift [OF inv eq])
  fix q assume "q \<in> live t - D"
  then have q: "q \<in> live s - D" by (simp add: live)
  have n: "in_refs t K D R r = in_refs s K D R r" for r
    by (rule in_refs_cong) (simp add: live)
  note ok = rc_invD(6) [OF inv q]
  show "rc_ok E (in_refs t K D R q) (rc t q)"
  proof (cases "q = p")
    case True
    with ok rcp show ?thesis by (auto simp: n in_refs_add_mset rc_ok_sat intro: rc_ok_dec)
  next
    case False
    with ok show ?thesis by (simp add: n rc in_refs_add_mset)
  qed
  show "rc t q \<le> INT_MAX" using rc_invD(7) [OF inv q] rcp rc by (cases "q = p") auto
qed (use rc_invD(1,3,5) [OF inv] live in auto)

text \<open>The last reference to \<open>p\<close> is given up: \<open>p\<close> is dead, its references are held by nobody.\<close>

lemma last_ref:
  assumes inv: "rc_inv E s K D (add_mset p R)" and rc1: "rc s p = 1"
  shows "in_refs s K D R p = 0"
proof -
  have "p \<in> live s - D" using rc_invD(3) [OF inv] by auto
  from rc_invD(6) [OF inv this] have "rc_ok E (in_refs s K D R p + 1) 1"
    by (simp add: in_refs_add_mset rc1)
  from rc_okD [OF this] show ?thesis by (simp add: INT_MAX_def)
qed

lemma rc_inv_die:
  assumes inv: "rc_inv E s K D (add_mset p R)" and rc1: "rc s p = 1"
    and eq: "body_eq s t" and live: "live t = live s" and rc: "\<And>q. q \<noteq> p \<Longrightarrow> rc t q = rc s q"
  shows "rc_inv E t K (insert p D) (R + mset (K p))"
proof -
  note fin = rc_invD(1) [OF inv]
  have p: "p \<in> live s - D" using rc_invD(3) [OF inv] by auto
  note no = in_refs_0D [OF fin last_ref [OF inv rc1]]
  show ?thesis
  proof (rule rc_inv_shift [OF inv eq])
    show "set_mset (R + mset (K p)) \<subseteq> live t - insert p D"
      using rc_invD(3) [OF inv] no(1) no(2) [OF p] rc_invD(5) [OF inv p] by (auto simp: live)
  next
    fix q assume q: "q \<in> live t - insert p D"
    then have q': "q \<in> live s - D" "q \<noteq> p" by (auto simp: live)
    have "in_refs t K (insert p D) (R + mset (K p)) q = in_refs s K D R q"
      using in_refs_dead [OF fin p, of K R q] in_refs_cong [of t "insert p D" s "insert p D"]
      by (simp add: live)
    then show "rc_ok E (in_refs t K (insert p D) (R + mset (K p)) q) (rc t q)"
      using rc_invD(6) [OF inv q'(1)] q'(2) by (simp add: rc in_refs_add_mset)
    show "set (K q) \<subseteq> live t - insert p D"
      using rc_invD(5) [OF inv q'(1)] no(2) [OF q'(1)] by (auto simp: live)
    show "rc t q \<le> INT_MAX" using rc_invD(7) [OF inv q'(1)] rc [OF q'(2)] by simp
  qed (use fin live in auto)
qed

text \<open>The storage of a dead object becomes free.\<close>

lemma rc_inv_free:
  assumes inv: "rc_inv E s K (insert p D) R" and eq: "body_eq s t"
    and live: "live t = live s - {p}" and rc: "\<And>q. q \<noteq> p \<Longrightarrow> rc t q = rc s q"
  shows "rc_inv E t K D R"
proof -
  have L: "live t - D = live s - insert p D" by (auto simp: live)
  show ?thesis
  proof (rule rc_inv_shift [OF inv eq])
    fix q assume q: "q \<in> live t - D"
    then have q': "q \<in> live s - insert p D" "q \<noteq> p" by (auto simp: L)
    then show "set (K q) \<subseteq> live t - D" "rc t q \<le> INT_MAX"
      "rc_ok E (in_refs t K D R q) (rc t q)"
      using rc_invD(5,6,7) [OF inv q'(1)] by (simp_all add: L rc in_refs_cong [OF L])
  qed (use rc_invD(1,3) [OF inv] in \<open>auto simp: live\<close>)
qed

section \<open>Giving up one reference\<close>

lemma put_ob_same: "heap s p = Some ob \<Longrightarrow> put_ob p ob s = s"
  by (simp add: put_ob_def fun_upd_idem)

lemma allocated_or [simp]:
  "has_flag (w OR AF_IN_BUFFER) AF_ALLOCATED = has_flag w AF_ALLOCATED"
  "has_flag (w OR AF_WENT_DOWN) AF_ALLOCATED = has_flag w AF_ALLOCATED"
  by (simp_all add: has_flag_def alloc_flag_defs word_and_1_iff bit_simps)

lemma allocated_and_not [simp]:
  "has_flag (w AND NOT AF_IN_BUFFER) AF_ALLOCATED = has_flag w AF_ALLOCATED"
  "has_flag (w AND NOT AF_WENT_DOWN) AF_ALLOCATED = has_flag w AF_ALLOCATED"
  by (simp_all add: has_flag_def alloc_flag_defs word_and_1_iff bit_simps)

lemma ref_dec_nonzero_spec:
  assumes "heap s p = Some ob"
  obtains fl where "ref_dec_nonzero p s = Inr ((), put_ob p (ob\<lparr>alloc_flags := fl\<rparr>) s)"
    and "has_flag fl AF_ALLOCATED = has_flag (alloc_flags ob) AF_ALLOCATED"
proof -
  have "\<exists>fl. ref_dec_nonzero p s = Inr ((), put_ob p (ob\<lparr>alloc_flags := fl\<rparr>) s) \<and>
      has_flag fl AF_ALLOCATED = has_flag (alloc_flags ob) AF_ALLOCATED"
  proof (cases "has_flag (o_flags ob) IS_INTERNAL")
    case True
    then have "ref_dec_nonzero p s = Inr ((), put_ob p (ob\<lparr>alloc_flags := alloc_flags ob\<rparr>) s)"
      using assms by (simp add: ref_dec_nonzero_def comp_simps put_ob_same)
    then show ?thesis by blast
  next
    case False
    let ?fl = "(if has_flag (alloc_flags ob) AF_IN_BUFFER then alloc_flags ob
      else alloc_flags ob OR AF_IN_BUFFER) OR AF_WENT_DOWN"
    from False have "ref_dec_nonzero p s = Inr ((), put_ob p (ob\<lparr>alloc_flags := ?fl\<rparr>) s)"
      using assms
      by (simp add: ref_dec_nonzero_def comp_simps cycle_root_buffer_add_candidate_def)
    moreover have "has_flag ?fl AF_ALLOCATED = has_flag (alloc_flags ob) AF_ALLOCATED" by simp
    ultimately show ?thesis by blast
  qed
  then show thesis using that by blast
qed

lemma run_finalizer_spec:
  assumes "class_rec_of ob s = Inr (c, s)"
  obtains xs where "run_finalizer ob p s = Inr ((), s\<lparr>finalized := xs\<rparr>)"
proof (cases "ic_finalizer c")
  case None
  then have "run_finalizer ob p s = Inr ((), s\<lparr>finalized := finalized s\<rparr>)"
    using assms by (simp add: run_finalizer_def comp_simps)
  then show thesis by (rule that)
next
  case (Some f)
  then have "run_finalizer ob p s = Inr ((), s\<lparr>finalized := finalized s @ [p]\<rparr>)"
    using assms by (simp add: run_finalizer_def comp_simps)
  then show thesis by (rule that)
qed

lemma do_ref_dec_p_step_null [simp]: "do_ref_dec_p_step rd 0 s = Inr ((), s)"
  by (simp add: do_ref_dec_p_step_def)

text \<open>The three ways a decrement can go.\<close>

lemma ref_dec_step_saturated:
  assumes "heap s p = Some ob" "ob_live ob" "refCount ob = INT_MAX" "p \<noteq> 0"
  shows "do_ref_dec_p_step rd p s = Inr ((), s)"
  using assms by (simp add: do_ref_dec_p_step_def comp_simps ob_live_def INT_MAX_def)

lemma ref_dec_step_survives:
  assumes "heap s p = Some ob" "ob_live ob" "refCount ob < INT_MAX" "1 < refCount ob" "p \<noteq> 0"
  shows "do_ref_dec_p_step rd p s =
    ref_dec_nonzero p (put_ob p (ob\<lparr>refCount := refCount ob - 1\<rparr>) s)"
  using assms by (simp add: do_ref_dec_p_step_def comp_simps ob_live_def)

lemma ref_dec_step_dies:
  assumes "heap s p = Some ob" "ob_live ob" "refCount ob = 1" "p \<noteq> 0"
  shows "do_ref_dec_p_step rd p s = ref_dec_zero rd p (put_ob p (ob\<lparr>refCount := 0\<rparr>) s)"
  using assms
  by (simp add: do_ref_dec_p_step_def comp_simps ob_live_def INT_MAX_def gc_clear_weakrefs_def)

text \<open>
  The references \<open>K q\<close> of an object are those its body holds, except for objects held
  from outside, which the program may be changing.
\<close>

definition kids_agree :: "vm_state \<Rightarrow> (addr \<Rightarrow> addr list) \<Rightarrow> addr set \<Rightarrow> addr multiset \<Rightarrow> bool" where
  "kids_agree s K D R \<longleftrightarrow> (\<forall>q \<in> live s - D. q \<notin># R \<longrightarrow> K q = kids s q)"

lemma kids_agree_shift:
  assumes ag: "kids_agree s K D R" and inv: "rc_inv E s K D R0"
    and eq: "body_eq s t" and sub: "live t - D' \<subseteq> live s - D" and R: "set_mset R \<subseteq> set_mset R'"
  shows "kids_agree t K D' R'"
  unfolding kids_agree_def
proof (intro ballI impI)
  fix q assume q: "q \<in> live t - D'" "q \<notin># R'"
  with sub R have "K q = kids s q" "kids_ok s q"
    using ag rc_invD(4) [OF inv] unfolding kids_agree_def by blast+
  then show "K q = kids t q" using kids_body_eq [OF eq] by simp
qed

text \<open>What a decrement of \<open>p\<close> achieves, when one of the counted references is given up.\<close>

definition ref_dec_spec :: "bool \<Rightarrow> (addr \<Rightarrow> addr list) \<Rightarrow> nat \<Rightarrow> (addr \<Rightarrow> unit vm) \<Rightarrow> bool" where
  "ref_dec_spec E K n rd \<longleftrightarrow> (\<forall>s D p R. rc_inv E s K D (add_mset p R) \<longrightarrow> kids_agree s K D R \<longrightarrow>
     card (live s - D) < n \<longrightarrow>
     (\<exists>s'. rd p s = Inr ((), s') \<and> rc_inv E s' K D R \<and> rc_frame s s' D \<and>
        (rc s p = 1 \<longrightarrow> p \<notin> live s') \<and> (rc s p \<noteq> 1 \<longrightarrow> live s' = live s)))"

lemma ref_dec_specD:
  assumes "ref_dec_spec E K n rd" "rc_inv E s K D (add_mset p R)" "kids_agree s K D R"
    and "card (live s - D) < n"
  obtains s' where "rd p s = Inr ((), s')" "rc_inv E s' K D R" "rc_frame s s' D"
    "rc s p = 1 \<Longrightarrow> p \<notin> live s'" "rc s p \<noteq> 1 \<Longrightarrow> live s' = live s"
  using assms unfolding ref_dec_spec_def by metis

lemma card_live_mono:
  assumes "rc_frame s s' D" "finite (live s)"
  shows "card (live s' - D) \<le> card (live s - D)"
  using rc_frame_live [OF assms(1)] assms(2) by (intro card_mono) auto

lemma ref_dec_iter:
  assumes rd: "ref_dec_spec E K n rd" and null: "\<And>s. rd 0 s = Inr ((), s)"
  shows "rc_inv E s K D (R + mset (filter (\<lambda>a. a \<noteq> 0) (map ob_data cs))) \<Longrightarrow>
    kids_agree s K D R \<Longrightarrow> card (live s - D) < n \<Longrightarrow>
    \<exists>s'. iterE (\<lambda>r. rd (ob_data r)) cs s = Inr ((), s') \<and> rc_inv E s' K D R \<and> rc_frame s s' D"
proof (induction cs arbitrary: s)
  case Nil
  then show ?case by simp
next
  case (Cons c cs)
  let ?R = "R + mset (filter (\<lambda>a. a \<noteq> 0) (map ob_data cs))"
  show ?case
  proof (cases "ob_data c = 0")
    case True
    with Cons show ?thesis by (simp add: thenE_apply null)
  next
    case False
    then have inv: "rc_inv E s K D (add_mset (ob_data c) ?R)" using Cons.prems(1) by simp
    have "kids_agree s K D ?R" using Cons.prems(2) by (auto simp: kids_agree_def)
    from ref_dec_specD [OF rd inv this Cons.prems(3)] obtain s1
      where s1: "rd (ob_data c) s = Inr ((), s1)" "rc_inv E s1 K D ?R" and fr: "rc_frame s s1 D"
      by metis
    have "card (live s1 - D) < n"
      using card_live_mono [OF fr rc_invD(1) [OF inv]] Cons.prems(3) by simp
    moreover have "kids_agree s1 K D R"
      by (rule kids_agree_shift [OF Cons.prems(2) inv rc_frame_body_eq [OF fr]])
        (use rc_frame_live [OF fr] in auto)
    ultimately obtain s2 where "iterE (\<lambda>r. rd (ob_data r)) cs s1 = Inr ((), s2)"
      "rc_inv E s2 K D R" "rc_frame s1 s2 D"
      using Cons.IH [OF s1(2)] by blast
    with s1 fr show ?thesis by (auto simp: thenE_apply intro: rc_frame_trans)
  qed
qed

text \<open>Dismantling a dead object with children, and freeing it.\<close>

lemma free_dead:
  assumes inv: "rc_inv E s K (insert p D) R" and ob: "heap s p = Some ob" "ob_live ob"
    and z: "refCount ob = 0" and D: "p \<notin> D"
  defines "t \<equiv> put_ob p (ob\<lparr>alloc_flags := AF_FREE\<rparr>) s"
  shows "rc_inv E t K D R \<and> rc_frame s t D \<and> p \<notin> live t"
proof (intro conjI)
  have p: "p \<in> live s" using ob by (auto simp: live_def)
  show fr: "rc_frame s t D"
    unfolding t_def by (rule rc_frame_put_ob [OF ob(1) p D]) (simp_all add: hdr_rel_def z)
  show "p \<notin> live t" by (simp add: t_def live_put_ob)
  show "rc_inv E t K D R"
    by (rule rc_inv_free [OF inv rc_frame_body_eq [OF fr]])
      (simp_all add: t_def live_put_ob rc_put_ob)
qed

lemma ref_dec_zero_children:
  assumes rd: "ref_dec_spec E K n rd" and null: "\<And>s. rd 0 s = Inr ((), s)"
    and inv: "rc_inv E s K (insert p D) (R + mset (kids s p))"
    and ag: "kids_agree s K (insert p D) R" and n: "card (live s - insert p D) < n"
    and ob: "heap s p = Some ob" "ob_live ob" "refCount ob = 0" "p \<notin> D"
    and ch: "\<not> has_flag (o_flags ob) IS_CHILDFREE" and ok: "kids_ok s p"
  obtains s' where "ref_dec_zero rd p s = Inr ((), s')" "rc_inv E s' K D R" "rc_frame s s' D"
    "p \<notin> live s'"
proof -
  from ok ch ob obtain cs where cs: "refzero_children ob s = Inr (cs, s)"
    by (auto simp: kids_ok_def)
  then have "kids s p = filter (\<lambda>a. a \<noteq> 0) (map ob_data cs)"
    using ch by (simp add: kids_def ob)
  with inv ref_dec_iter [OF rd null _ ag n, of cs] obtain s1
    where s1: "iterE (\<lambda>r. rd (ob_data r)) cs s = Inr ((), s1)"
      "rc_inv E s1 K (insert p D) R" "rc_frame s s1 (insert p D)" by auto
  have h: "heap s1 p = Some ob" using s1(3) ob(1) unfolding rc_frame_def by auto
  let ?t = "put_ob p (ob\<lparr>alloc_flags := AF_FREE\<rparr>) s1"
  have af: "alloc_flags ob \<noteq> AF_FREE" using ob(2) not_live_free by blast
  have "ref_dec_zero rd p s = Inr ((), ?t)"
    using ob(1,3) ch cs s1(1) h af
    by (simp add: ref_dec_zero_def ref_dec_proccess_zero_def refzero_process_children_def
        do_refzero_process_children_def comp_simps cycle_root_buffer_rm_candidate_def)
  moreover note free_dead [OF s1(2) h ob(2,3,4)]
  moreover have "rc_frame s s1 D" using s1(3) by (rule rc_frame_mono) auto
  ultimately show thesis using that [of ?t] rc_frame_trans by blast
qed

lemma ref_dec_zero_childfree:
  assumes inv: "rc_inv E s K (insert p D) R"
    and ob: "heap s p = Some ob" "ob_live ob" "refCount ob = 0" "p \<notin> D"
    and ch: "has_flag (o_flags ob) IS_CHILDFREE" and ok: "kids_ok s p"
  obtains s' where "ref_dec_zero rd p s = Inr ((), s')" "rc_inv E s' K D R" "rc_frame s s' D"
    "p \<notin> live s'"
proof -
  obtain xs where fin: "whenE (has_flag (o_flags ob) IS_FINALIZER) (run_finalizer ob p) s =
      Inr ((), s\<lparr>finalized := xs\<rparr>)"
  proof (cases "has_flag (o_flags ob) IS_FINALIZER")
    case True
    with ok ch ob(1) obtain c where "class_rec_of ob s = Inr (c, s)" by (auto simp: kids_ok_def)
    with True show thesis
      using run_finalizer_spec [of ob s c p thesis] that by (simp add: whenE_def)
  next
    case False
    then show thesis using that [of "finalized s"] by (simp add: whenE_def)
  qed
  let ?s = "s\<lparr>finalized := xs\<rparr>"
  let ?t = "put_ob p (ob\<lparr>alloc_flags := AF_FREE\<rparr>) ?s"
  have fr: "rc_frame s ?s D'" for D' by (rule rc_frame_finalized)
  have "rc_inv E ?s K (insert p D) R"
    by (rule rc_inv_shift [OF inv rc_frame_body_eq [OF fr]])
      (use rc_invD [OF inv] in \<open>auto simp: in_refs_cong [of ?s _ s]\<close>)
  note free_dead [OF this _ ob(2,3,4)]
  moreover have "heap ?s p = Some ob" by (simp add: ob)
  ultimately have "rc_inv E ?t K D R" "rc_frame ?s ?t D" "p \<notin> live ?t" by blast+
  moreover have "ref_dec_zero rd p s = Inr ((), ?t)"
    using ob(1) ch fin by (simp add: ref_dec_zero_def comp_simps pvm_collapse_free_def)
  ultimately show thesis using that [of ?t] rc_frame_trans [OF fr] by blast
qed

lemma ref_dec_step_death:
  assumes rd: "ref_dec_spec E K n rd" and null: "0 < n \<Longrightarrow> \<forall>s. rd 0 s = Inr ((), s)"
    and inv: "rc_inv E s K D (add_mset p R)" and ag: "kids_agree s K D R"
    and n: "card (live s - D) < Suc n" and rc1: "rc s p = 1"
  obtains s' where "do_ref_dec_p_step rd p s = Inr ((), s')" "rc_inv E s' K D R"
    "rc_frame s s' D" "p \<notin> live s'"
proof -
  have p: "p \<in> live s - D" using rc_invD(3) [OF inv] by auto
  then obtain ob where ob: "heap s p = Some ob" "ob_live ob" by (auto elim: liveE)
  have p0: "p \<noteq> 0" using ob(1) rc_invD(2) [OF inv] by (metis option.distinct(1))
  have r1: "refCount ob = 1" using rc1 ob by (simp add: rc_def)
  let ?ob = "ob\<lparr>refCount := 0\<rparr>" and ?s = "put_ob p (ob\<lparr>refCount := 0\<rparr>) s"
  have l: "ob_live ?ob" using ob by (simp add: ob_live_def)
  have fr: "rc_frame s ?s D"
    by (rule rc_frame_put_ob [OF ob(1)]) (use p l in \<open>auto simp: hdr_rel_def\<close>)
  note eq = rc_frame_body_eq [OF fr]
  have live: "live ?s = live s" using p l by (auto simp: live_put_ob)
  have ok: "kids_ok s p" "kids_ok ?s p"
    using rc_invD(4) [OF inv p] kids_ok_body_eq [OF eq] by auto
  have "p \<notin># R" using in_refs_0D [OF rc_invD(1) [OF inv] last_ref [OF inv rc1]] by blast
  then have Kp: "K p = kids ?s p"
    using ag p kids_body_eq [OF eq ok(1)] by (simp add: kids_agree_def)
  have inv': "rc_inv E ?s K (insert p D) (R + mset (kids ?s p))"
    using rc_inv_die [OF inv rc1 eq live] by (simp add: rc_put_ob Kp)
  have ag': "kids_agree ?s K (insert p D) R"
    by (rule kids_agree_shift [OF ag inv eq]) (auto simp: live)
  have "card (live s - D) = Suc (card (live s - insert p D))"
    using p rc_invD(1) [OF inv]
    by (metis Diff_insert card_Suc_Diff1 finite_Diff)
  with n have n': "card (live ?s - insert p D) < n" by (simp add: live)
  have h: "heap ?s p = Some ?ob" and D: "p \<notin> D" using p by auto
  obtain s' where s': "ref_dec_zero rd p ?s = Inr ((), s')" "rc_inv E s' K D R"
      "rc_frame ?s s' D" "p \<notin> live s'"
  proof (cases "has_flag (o_flags ob) IS_CHILDFREE")
    case True
    then have "kids ?s p = []" by (simp add: kids_def)
    with inv' have "rc_inv E ?s K (insert p D) R" by simp
    from ref_dec_zero_childfree [OF this h l _ D _ ok(2)] True that show thesis by auto
  next
    case False
    have "\<And>s. rd 0 s = Inr ((), s)" using null n' by auto
    from ref_dec_zero_children [OF rd this inv' ag' n' h l _ D _ ok(2)] False that
    show thesis by auto
  qed
  moreover have "do_ref_dec_p_step rd p s = ref_dec_zero rd p ?s"
    by (rule ref_dec_step_dies [OF ob r1 p0])
  ultimately show thesis using that rc_frame_trans [OF fr] by simp
qed

lemma ref_dec_step_survival:
  assumes inv: "rc_inv E s K D (add_mset p R)" and rc1: "rc s p \<noteq> 1"
  obtains s' where "do_ref_dec_p_step rd p s = Inr ((), s')" "rc_inv E s' K D R"
    "rc_frame s s' D" "live s' = live s"
proof -
  have p: "p \<in> live s - D" using rc_invD(3) [OF inv] by auto
  then obtain ob where ob: "heap s p = Some ob" "ob_live ob" by (auto elim: liveE)
  have p0: "p \<noteq> 0" using ob(1) rc_invD(2) [OF inv] by (metis option.distinct(1))
  have r: "1 < refCount ob" "refCount ob \<le> INT_MAX" "rc s p = refCount ob"
    using rc1 ob rc_invD(6,7) [OF inv p] by (auto simp: rc_def rc_ok_def)
  show thesis
  proof (cases "refCount ob = INT_MAX")
    case True
    then have "rc_inv E s K D R" by (intro rc_inv_drop [OF inv]) (auto simp: r(3))
    with ref_dec_step_saturated [OF ob True p0] that show thesis by auto
  next
    case False
    let ?ob = "ob\<lparr>refCount := refCount ob - 1\<rparr>"
    obtain fl where fl: "ref_dec_nonzero p (put_ob p ?ob s) =
        Inr ((), put_ob p (?ob\<lparr>alloc_flags := fl\<rparr>) s)"
      and al: "has_flag fl AF_ALLOCATED = has_flag (alloc_flags ob) AF_ALLOCATED"
      using ref_dec_nonzero_spec [of "put_ob p ?ob s" p ?ob] by auto
    let ?t = "put_ob p (?ob\<lparr>alloc_flags := fl\<rparr>) s"
    have l: "ob_live (?ob\<lparr>alloc_flags := fl\<rparr>)" using ob al by (simp add: ob_live_def)
    have fr: "rc_frame s ?t D"
      by (rule rc_frame_put_ob [OF ob(1)]) (use p l in \<open>auto simp: hdr_rel_def\<close>)
    have live: "live ?t = live s" using p l by (auto simp: live_put_ob)
    have "rc_inv E ?t K D R"
      by (rule rc_inv_drop [OF inv rc_frame_body_eq [OF fr] live])
        (use r False in \<open>auto simp: rc_put_ob\<close>)
    moreover have "do_ref_dec_p_step rd p s = Inr ((), ?t)"
      using ref_dec_step_survives [OF ob _ r(1) p0] fl r False by simp
    ultimately show thesis using that fr live by blast
  qed
qed

theorem do_ref_dec_p_correct: "ref_dec_spec E K n (do_ref_dec_p n)"
proof (induction n)
  case 0
  then show ?case by (simp add: ref_dec_spec_def)
next
  case (Suc n)
  have null: "0 < n \<Longrightarrow> \<forall>s. do_ref_dec_p n 0 s = Inr ((), s)" by (cases n) auto
  show ?case
    unfolding ref_dec_spec_def
  proof (intro allI impI)
    fix s D p R
    assume A: "rc_inv E s K D (add_mset p R)" "kids_agree s K D R" "card (live s - D) < Suc n"
    show "\<exists>s'. do_ref_dec_p (Suc n) p s = Inr ((), s') \<and> rc_inv E s' K D R \<and> rc_frame s s' D \<and>
        (rc s p = 1 \<longrightarrow> p \<notin> live s') \<and> (rc s p \<noteq> 1 \<longrightarrow> live s' = live s)"
    proof (cases "rc s p = 1")
      case True
      from ref_dec_step_death [OF Suc.IH null A True] obtain s'
        where "do_ref_dec_p_step (do_ref_dec_p n) p s = Inr ((), s')" "rc_inv E s' K D R"
          "rc_frame s s' D" "p \<notin> live s'" .
      with True show ?thesis by auto
    next
      case False
      from ref_dec_step_survival [OF A(1) False] obtain s'
        where "do_ref_dec_p_step (do_ref_dec_p n) p s = Inr ((), s')" "rc_inv E s' K D R"
          "rc_frame s s' D" "live s' = live s" .
      with False show ?thesis by auto
    qed
  qed
qed

section \<open>Counted states\<close>

text \<open>
  \<open>counted E D s R\<close>: every live object outside \<open>D\<close> lies in the object space and its count
  covers the references to it from live objects and from the multiset \<open>R\<close> of references
  the running program holds.
\<close>

definition counted :: "bool \<Rightarrow> addr set \<Rightarrow> vm_state \<Rightarrow> addr multiset \<Rightarrow> bool" where
  "counted E D s R \<longleftrightarrow> rc_consistent E s D R \<and> live s \<subseteq> {space_start s..<space_end s}"

lemma rc_inv_kids_cong:
  assumes "\<And>q. q \<in> live s - D \<Longrightarrow> K q = K' q"
  shows "rc_inv E s K D R = rc_inv E s K' D R"
proof -
  have "in_refs s K D R q = in_refs s K' D R q" for q using assms by (simp add: in_refs_def)
  with assms show ?thesis by (simp add: rc_inv_def)
qed

lemma rc_consistent_frame:
  assumes inv: "rc_inv E s' (kids s) D R" and inv0: "rc_inv E s K D R0" and fr: "rc_frame s s' D"
  shows "rc_consistent E s' D R"
proof -
  have "kids s' q = kids s q" if "q \<in> live s' - D" for q
    using that rc_frame_live [OF fr] rc_invD(4) [OF inv0]
    by (intro kids_body_eq [OF rc_frame_body_eq [OF fr]]) auto
  then show ?thesis unfolding rc_consistent_def using inv rc_inv_kids_cong by metis
qed

lemma rc_frame_space:
  "rc_frame s s' D \<Longrightarrow> space_start s' = space_start s \<and> space_end s' = space_end s"
  unfolding rc_frame_def by (cases s; cases s') simp

lemma counted_fuel:
  assumes "counted E D s R"
  shows "card (live s - D) < ref_dec_fuel s"
proof -
  have "card (live s - D) \<le> card {space_start s..<space_end s}"
    using assms by (intro card_mono) (auto simp: counted_def)
  then show ?thesis by (simp add: ref_dec_fuel_def)
qed

lemma ref_dec_p_counted:
  assumes c: "counted E D s (add_mset p R)"
  obtains s' where "ref_dec_p p s = Inr ((), s')" "counted E D s' R" "rc_frame s s' D"
    "rc s p = 1 \<Longrightarrow> p \<notin> live s'" "rc s p \<noteq> 1 \<Longrightarrow> live s' = live s"
proof -
  from c have inv: "rc_inv E s (kids s) D (add_mset p R)"
    by (simp add: counted_def rc_consistent_def)
  have "kids_agree s (kids s) D R" by (simp add: kids_agree_def)
  from ref_dec_specD [OF do_ref_dec_p_correct inv this counted_fuel [OF c]]
  obtain s' where s': "do_ref_dec_p (ref_dec_fuel s) p s = Inr ((), s')"
    "rc_inv E s' (kids s) D R" "rc_frame s s' D"
    "rc s p = 1 \<Longrightarrow> p \<notin> live s'" "rc s p \<noteq> 1 \<Longrightarrow> live s' = live s" by metis
  have "counted E D s' R"
    using rc_consistent_frame [OF s'(2) inv s'(3)] rc_frame_live [OF s'(3)]
      rc_frame_space [OF s'(3)] c by (auto simp: counted_def)
  with s' that show thesis by (simp add: ref_dec_p_def)
qed

lemma ref_inc_p_eval:
  assumes "heap s p = Some ob" "ob_live ob" "0 < refCount ob" "p \<noteq> 0"
  obtains fl where "ref_inc_p p s = Inr ((), put_ob p (ob\<lparr>refCount :=
      (if refCount ob < INT_MAX then refCount ob + 1 else refCount ob), alloc_flags := fl\<rparr>) s)"
    and "has_flag fl AF_ALLOCATED"
proof -
  let ?fl = "if refCount ob < INT_MAX \<and> has_flag (alloc_flags ob) AF_IN_BUFFER
    then alloc_flags ob AND NOT AF_WENT_DOWN else alloc_flags ob"
  have "ref_inc_p p s = Inr ((), put_ob p (ob\<lparr>refCount :=
      (if refCount ob < INT_MAX then refCount ob + 1 else refCount ob), alloc_flags := ?fl\<rparr>) s)"
    using assms by (simp add: ref_inc_p_def comp_simps ob_live_def put_ob_same)
  moreover have "has_flag ?fl AF_ALLOCATED" using assms by (simp add: ob_live_def)
  ultimately show thesis by (rule that)
qed

lemma ref_inc_p_counted:
  assumes c: "counted E D s R" and p: "p \<in> live s - D"
  obtains s' where "ref_inc_p p s = Inr ((), s')" "counted E D s' (add_mset p R)"
    "rc_frame s s' D" "live s' = live s"
proof -
  from c have inv: "rc_inv E s (kids s) D R" by (simp add: counted_def rc_consistent_def)
  from p obtain ob where ob: "heap s p = Some ob" "ob_live ob" by (auto elim: liveE)
  have p0: "p \<noteq> 0" using ob(1) rc_invD(2) [OF inv] by (metis option.distinct(1))
  have r: "0 < refCount ob" "refCount ob \<le> INT_MAX" and rcp: "rc s p = refCount ob"
    using rc_invD(6,7) [OF inv p] ob by (auto simp: rc_def rc_ok_def)
  let ?r = "if refCount ob < INT_MAX then refCount ob + 1 else refCount ob"
  from ref_inc_p_eval [OF ob r(1) p0] obtain fl where
    s': "ref_inc_p p s = Inr ((), put_ob p (ob\<lparr>refCount := ?r, alloc_flags := fl\<rparr>) s)"
    and fl: "has_flag fl AF_ALLOCATED" .
  let ?ob = "ob\<lparr>refCount := ?r, alloc_flags := fl\<rparr>" and
      ?s = "put_ob p (ob\<lparr>refCount := ?r, alloc_flags := fl\<rparr>) s"
  have l: "ob_live ?ob" using ob fl by (simp add: ob_live_def)
  have fr: "rc_frame s ?s D"
    by (rule rc_frame_put_ob [OF ob(1)]) (use p l in \<open>auto simp: hdr_rel_def\<close>)
  have live: "live ?s = live s" using p l by (auto simp: live_put_ob)
  have n: "in_refs ?s K D R' q = in_refs s K D R' q" for K R' q
    by (rule in_refs_cong) (simp add: live)
  have "rc_inv E ?s (kids s) D (add_mset p R)"
  proof (rule rc_inv_shift [OF inv rc_frame_body_eq [OF fr]])
    fix q assume "q \<in> live ?s - D"
    then have q: "q \<in> live s - D" by (simp add: live)
    show "rc_ok E (in_refs ?s (kids s) D (add_mset p R) q) (rc ?s q)"
      using rc_invD(6) [OF inv q] r rcp
      by (auto simp: n rc_put_ob in_refs_add_mset rc_ok_def split: if_splits)
    show "rc ?s q \<le> INT_MAX" using rc_invD(7) [OF inv q] r by (auto simp: rc_put_ob)
  qed (use rc_invD(1,3,5) [OF inv] live p in auto)
  from rc_consistent_frame [OF this inv fr] have "counted E D ?s (add_mset p R)"
    using c live rc_frame_space [OF fr] by (simp add: counted_def)
  with s' fr live that show thesis by blast
qed

section \<open>The counter as an interface\<close>

text \<open>
  What the rest of the machine relies on: \<open>ok s R\<close> says that the counts of \<open>s\<close> cover the
  references \<open>R\<close> of the running code, \<open>held s\<close> are the objects a reference may be taken to.
\<close>

locale ref_counter =
  fixes ok :: "vm_state \<Rightarrow> addr multiset \<Rightarrow> bool"
    and held :: "vm_state \<Rightarrow> addr set"
    and inc :: "addr \<Rightarrow> unit vm"
    and dec :: "addr \<Rightarrow> unit vm"
  assumes held: "ok s R \<Longrightarrow> set_mset R \<subseteq> held s"
    and inc: "ok s R \<Longrightarrow> p \<in> held s \<Longrightarrow>
      \<exists>s'. inc p s = Inr ((), s') \<and> ok s' (add_mset p R) \<and> body_eq s s'"
    and dec: "ok s (add_mset p R) \<Longrightarrow> \<exists>s'. dec p s = Inr ((), s') \<and> ok s' R \<and> body_eq s s'"
begin

lemma dec_list:
  "ok s (mset ps + R) \<Longrightarrow> \<exists>s'. iterE dec ps s = Inr ((), s') \<and> ok s' R \<and> body_eq s s'"
proof (induction ps arbitrary: s)
  case (Cons p ps)
  then obtain s1 where s1: "dec p s = Inr ((), s1)" "ok s1 (mset ps + R)" "body_eq s s1"
    using dec [of s p "mset ps + R"] by auto
  with Cons.IH [of s1] show ?case by (auto simp: thenE_apply intro: body_eq_trans)
qed simp

text \<open>Overwriting a counted location: take the new reference, then give up the old one.\<close>

lemma inc_dec:
  assumes "ok s (add_mset a R)" "b \<in> held s"
  shows "\<exists>s'. thenE (inc b) (dec a) s = Inr ((), s') \<and> ok s' (add_mset b R) \<and> body_eq s s'"
proof -
  from inc [OF assms] obtain s1
    where s1: "inc b s = Inr ((), s1)" "ok s1 (add_mset a (add_mset b R))" "body_eq s s1"
    by (metis add_mset_commute)
  from dec [OF s1(2)] s1(1,3) show ?thesis by (auto simp: thenE_apply intro: body_eq_trans)
qed

text \<open>Duplicating a held reference and dropping the copy changes nothing that counts.\<close>

lemma dup_drop:
  assumes "ok s (add_mset a R)"
  shows "\<exists>s'. thenE (inc a) (dec a) s = Inr ((), s') \<and> ok s' (add_mset a R) \<and> body_eq s s'"
  using inc_dec [OF assms] held [OF assms] by auto

end

interpretation counter: ref_counter "counted E D" "\<lambda>s. live s - D" ref_inc_p ref_dec_p
proof
  show "set_mset R \<subseteq> live s - D" if "counted E D s R" for s R
    using that by (auto simp: counted_def rc_consistent_def dest: rc_invD(3))
  show "\<exists>s'. ref_inc_p p s = Inr ((), s') \<and> counted E D s' (add_mset p R) \<and> body_eq s s'"
    if "counted E D s R" "p \<in> live s - D" for s R p
    using ref_inc_p_counted [OF that] rc_frame_body_eq by metis
  show "\<exists>s'. ref_dec_p p s = Inr ((), s') \<and> counted E D s' R \<and> body_eq s s'"
    if "counted E D s (add_mset p R)" for s R p
    using ref_dec_p_counted [OF that] rc_frame_body_eq by metis
qed

section \<open>Reachability\<close>

definition kid_rel :: "vm_state \<Rightarrow> addr set \<Rightarrow> (addr \<times> addr) set" where
  "kid_rel s D = {(p, q). p \<in> live s - D \<and> q \<in> set (kids s p)}"

definition reach_from :: "vm_state \<Rightarrow> addr set \<Rightarrow> addr set \<Rightarrow> addr set" where
  "reach_from s D A = (kid_rel s D)\<^sup>* `` A"

lemma reach_live:
  assumes inv: "rc_consistent E s D R" and A: "A \<subseteq> live s - D"
  shows "reach_from s D A \<subseteq> live s - D"
proof
  fix q assume "q \<in> reach_from s D A"
  then obtain a where a: "a \<in> A" "(a, q) \<in> (kid_rel s D)\<^sup>*" by (auto simp: reach_from_def)
  from a(2) show "q \<in> live s - D"
  proof (induction rule: rtrancl_induct)
    case base
    then show ?case using a A by blast
  next
    case (step y z)
    then show ?case
      using rc_invD(5) [OF inv [unfolded rc_consistent_def]] by (auto simp: kid_rel_def)
  qed
qed

lemma reach_frame:
  assumes inv: "rc_consistent E s D R0" and inv': "rc_consistent E s' D R"
    and fr: "rc_frame s s' D"
  shows "reach_from s D (set_mset R) \<subseteq> live s' - D"
proof
  fix q assume "q \<in> reach_from s D (set_mset R)"
  then obtain a where a: "a \<in># R" "(a, q) \<in> (kid_rel s D)\<^sup>*" by (auto simp: reach_from_def)
  note I = inv [unfolded rc_consistent_def] and I' = inv' [unfolded rc_consistent_def]
  from a(2) show "q \<in> live s' - D"
  proof (induction rule: rtrancl_induct)
    case base
    then show ?case using a rc_invD(3) [OF I'] by blast
  next
    case (step y z)
    then have "kids s' y = kids s y"
      using rc_invD(4) [OF I] by (intro kids_body_eq [OF rc_frame_body_eq [OF fr]])
        (auto simp: kid_rel_def)
    with step rc_invD(5) [OF I', of y] show ?case by (auto simp: kid_rel_def)
  qed
qed

text \<open>
  With exact counts and no cycles nothing is leaked: whatever is live is reachable from
  the references in use or from a saturated object.
\<close>

lemma exact_reach:
  assumes inv: "rc_consistent True s D R" and ac: "acyclic (kid_rel s D)" and q: "q \<in> live s - D"
  shows "q \<in> reach_from s D (set_mset R \<union> {r \<in> live s - D. rc s r = INT_MAX})"
proof -
  note I = inv [unfolded rc_consistent_def]
  have "kid_rel s D \<subseteq> (live s - D) \<times> (live s - D)"
    using rc_invD(5) [OF I] by (auto simp: kid_rel_def)
  then have "finite (kid_rel s D)" using rc_invD(1) [OF I] by (meson finite_Diff finite_SigmaI finite_subset)
  from finite_acyclic_wf [OF this ac] have "wf (kid_rel s D)" .
  from this q show ?thesis
  proof (induction q rule: wf_induct_rule)
    case (less q)
    let ?A = "set_mset R \<union> {r \<in> live s - D. rc s r = INT_MAX}"
    show ?case
    proof (cases "q \<in> ?A")
      case True
      then show ?thesis by (auto simp: reach_from_def)
    next
      case False
      then have "0 < in_refs s (kids s) D R q" "count R q = 0"
        using rc_invD(6) [OF I less.prems] less.prems by (auto simp: rc_ok_def not_in_iff)
      then have "(\<Sum>p \<in> live s - D. count_list (kids s p) q) \<noteq> 0" by (simp add: in_refs_def)
      then obtain p where "p \<in> live s - D" "count_list (kids s p) q \<noteq> 0"
        by (meson sum.neutral)
      then have pq: "(p, q) \<in> kid_rel s D" "p \<in> live s - D"
        by (auto simp: kid_rel_def count_list_0_iff)
      from less.IH [OF this] pq(1) show ?thesis
        unfolding reach_from_def by (meson Image_iff rtrancl.rtrancl_into_rtrancl)
    qed
  qed
qed

section \<open>Saturated objects\<close>

text \<open>
  The allocator flags a live object carries between operations: being in the candidate
  buffer is noted before having gone down is.
\<close>

definition flags_settled :: "u8 \<Rightarrow> bool" where
  "flags_settled w \<longleftrightarrow> w \<in> {AF_ALLOCATED, AF_ALLOCATED OR AF_IN_BUFFER,
     (AF_ALLOCATED OR AF_IN_BUFFER) OR AF_WENT_DOWN}"

lemma flags_settled_cases:
  assumes "flags_settled w"
  shows "has_flag w AF_ALLOCATED" "w \<noteq> AF_FREE"
    and "has_flag w AF_IN_BUFFER \<Longrightarrow> (w AND NOT AF_IN_BUFFER) AND NOT AF_WENT_DOWN = AF_ALLOCATED"
    and "\<not> has_flag w AF_IN_BUFFER \<Longrightarrow> w = AF_ALLOCATED"
    and "flags_settled ((if has_flag w AF_IN_BUFFER then w else w OR AF_IN_BUFFER) OR AF_WENT_DOWN)"
    and "has_flag w AF_IN_BUFFER \<Longrightarrow> flags_settled (w AND NOT AF_WENT_DOWN)"
  using assms by (auto simp: flags_settled_def has_flag_def alloc_flag_defs)

lemma ref_saturate_p_eval:
  assumes "heap s p = Some ob" "object_start_marker ob = PVM_OBJECT_START_MARKER"
    "flags_settled (alloc_flags ob)" "0 < refCount ob"
  shows "ref_saturate_p p s =
    Inr ((), put_ob p (ob\<lparr>refCount := INT_MAX, alloc_flags := AF_ALLOCATED\<rparr>) s)"
proof (cases "has_flag (alloc_flags ob) AF_IN_BUFFER")
  case True
  with assms flags_settled_cases(3) [OF assms(3) True] show ?thesis
    by (cases ob) (simp add: ref_saturate_p_def comp_simps cycle_root_buffer_rm_candidate_def)
next
  case False
  with assms flags_settled_cases(4) [OF assms(3) False] show ?thesis
    by (cases ob) (simp add: ref_saturate_p_def comp_simps)
qed

lemma saturated_inc_dec:
  assumes "heap s p = Some ob" "ob_live ob" "refCount ob = INT_MAX" "p \<noteq> 0"
  shows "ref_dec_p p s = Inr ((), s)" "ref_inc_p p s = Inr ((), s)"
  using ref_dec_step_saturated [OF assms] assms
  by (simp_all add: ref_dec_p_def ref_dec_fuel_def ref_inc_p_def comp_simps ob_live_def INT_MAX_def)

section \<open>A small heap\<close>

definition plain_ob :: "int \<Rightarrow> pvm_object list \<Rightarrow> pvm_object_storage" where
  "plain_ob n xs = \<lparr>object_start_marker = PVM_OBJECT_START_MARKER, refCount = n,
     alloc_flags = AF_ALLOCATED, gc_flags = 0, exact_size = 44 + 8 * length xs,
     o_class = null_ref, o_satellites = null_ref, o_flags = 0, o_da_size = 8 * length xs,
     o_da = DA_slots xs\<rparr>"

definition small_state :: "(addr \<rightharpoonup> pvm_object_storage) \<Rightarrow> vm_state" where
  "small_state h = \<lparr>heap = h, raw_mem = (\<lambda>_. plain_ob 0 []), space_start = 16, space_end = 256,
     start_a = [], end_a = [], curr_a = [], gc_n_run = 0, gc_flags_last_generation = 0,
     pvm_root = (\<lambda>_. null_ref), iclass_object = (\<lambda>_. null_ref), sizeof_da = (\<lambda>_. 0),
     finalized = []\<rparr>"

text \<open>Object 40 refers to object 100, which somebody else holds too.\<close>

definition pair_state :: vm_state where
  "pair_state = small_state
     [40 \<mapsto> plain_ob 1 [\<lparr>ob_data = 100, ob_interface = 0\<rparr>], 100 \<mapsto> plain_ob 2 []]"

lemma small_state_simps [simp]: "heap (small_state h) = h" "space_start (small_state h) = 16"
  "space_end (small_state h) = 256"
  by (simp_all add: small_state_def)

lemma plain_ob_simps [simp]:
  "ob_live (plain_ob n xs)" "refCount (plain_ob n xs) = n" "o_flags (plain_ob n xs) = 0"
  "refzero_children (plain_ob n xs) = ret xs"
  by (simp_all add: plain_ob_def ob_live_def has_flag_def alloc_flag_defs refzero_children_def
      slots_of_def of_view_def da_po_limit_def sizeof_pvm_object_def ret_def bindE_def)

lemma live_pair [simp]: "live pair_state = {40, 100}"
  by (auto simp: live_def pair_state_def)

lemma kids_pair [simp]: "kids pair_state 40 = [100]" "kids pair_state 100 = []"
  by (simp_all add: kids_def pair_state_def has_flag_def)

lemma rc_pair [simp]: "rc pair_state 40 = 1" "rc pair_state 100 = 2"
  by (simp_all add: rc_def pair_state_def)

lemma kids_ok_pair: "kids_ok pair_state 40" "kids_ok pair_state 100"
  by (simp_all add: kids_ok_def pair_state_def has_flag_def)

lemma counted_pair: "counted E {} pair_state {#40, 100#}"
proof -
  have "in_refs pair_state (kids pair_state) {} {#40, 100#} 40 = 1"
    "in_refs pair_state (kids pair_state) {} {#40, 100#} 100 = 2"
    by (simp_all add: in_refs_def)
  moreover have "heap pair_state 0 = None" "space_start pair_state = 16" "space_end pair_state = 256"
    by (simp_all add: pair_state_def)
  ultimately show ?thesis
    by (simp add: counted_def rc_consistent_def rc_inv_def rc_ok_def INT_MAX_def kids_ok_pair)
qed

lemma kid_rel_pair: "kid_rel pair_state {} = {(40, 100)}"
  by (auto simp: kid_rel_def)

section \<open>Properties of the reference counter\<close>

text \<open>
  C2. Giving up a counted reference always succeeds (no assertion of the counter can
  fail, and the recursion ends), keeps the counts consistent, and no object that can
  still be reached from the references in use is freed or changed: it stays live and
  keeps its class, flags and contents. If it was the last reference, the object is freed.
\<close>

theorem ref_dec_p_safe:
  assumes "counted E D s (add_mset p R)"
  shows "\<exists>s'. ref_dec_p p s = Inr ((), s') \<and> counted E D s' R \<and>
    (\<forall>q. q \<in> reach_from s D (set_mset R) \<longrightarrow>
       q \<in> live s' \<and> map_option body (heap s' q) = map_option body (heap s q)) \<and>
    (rc s p = 1 \<longrightarrow> p \<notin> live s') \<and> (rc s p \<noteq> 1 \<longrightarrow> live s' = live s)"
proof -
  from ref_dec_p_counted [OF assms] obtain s' where s': "ref_dec_p p s = Inr ((), s')"
    "counted E D s' R" "rc_frame s s' D"
    "rc s p = 1 \<Longrightarrow> p \<notin> live s'" "rc s p \<noteq> 1 \<Longrightarrow> live s' = live s" by metis
  have "reach_from s D (set_mset R) \<subseteq> live s' - D"
    using reach_frame [OF _ _ s'(3)] assms s'(2) by (auto simp: counted_def)
  moreover have "map_option body (heap s' q) = map_option body (heap s q)" for q
    using rc_frame_body_eq [OF s'(3)] by (simp add: body_eq_def)
  ultimately show ?thesis using s' by auto
qed

theorem ref_dec_p_safe_witness:
  "counted True {} pair_state (add_mset 40 {#100#}) \<and> rc pair_state 40 = 1 \<and>
   (\<exists>s'. ref_dec_p 40 pair_state = Inr ((), s') \<and> 40 \<notin> live s' \<and> 100 \<in> live s')"
proof -
  have c: "counted True {} pair_state (add_mset 40 {#100#})" using counted_pair by simp
  have "100 \<in> reach_from pair_state {} {100}" by (simp add: reach_from_def)
  with ref_dec_p_safe [OF c] c show ?thesis by auto
qed

text \<open>
  C5. When the counts are exact and the objects form no cycle, giving up a reference
  leaks nothing: what is live afterwards is exactly what is reachable from the references
  still in use and from the saturated objects.
\<close>

theorem ref_dec_p_no_leak:
  assumes "counted True D s (add_mset p R)" and "acyclic (kid_rel s D)"
  shows "\<exists>s'. ref_dec_p p s = Inr ((), s') \<and>
    live s' - D = reach_from s' D (set_mset R \<union> {r \<in> live s' - D. rc s' r = INT_MAX})"
proof -
  from ref_dec_p_counted [OF assms(1)] obtain s' where s': "ref_dec_p p s = Inr ((), s')"
    "counted True D s' R" "rc_frame s s' D" by metis
  then have c: "rc_consistent True s' D R" by (simp add: counted_def)
  have "kids s' q = kids s q" if "q \<in> live s' - D" for q
    using that rc_frame_live [OF s'(3)] assms(1)
    by (intro kids_body_eq [OF rc_frame_body_eq [OF s'(3)]])
      (auto simp: counted_def rc_consistent_def intro: rc_invD(4))
  then have "kid_rel s' D \<subseteq> kid_rel s D"
    using rc_frame_live [OF s'(3)] by (auto simp: kid_rel_def)
  with assms(2) have ac: "acyclic (kid_rel s' D)" by (rule acyclic_subset)
  have "set_mset R \<union> {r \<in> live s' - D. rc s' r = INT_MAX} \<subseteq> live s' - D"
    using rc_invD(3) [OF c [unfolded rc_consistent_def]] by auto
  with exact_reach [OF c ac] reach_live [OF c] s'(1) show ?thesis by blast
qed

theorem ref_dec_p_no_leak_witness:
  "counted True {} pair_state (add_mset 100 {#40#}) \<and> acyclic (kid_rel pair_state {}) \<and>
   (\<exists>s'. ref_dec_p 100 pair_state = Inr ((), s') \<and>
     live s' = reach_from s' {} ({40} \<union> {r \<in> live s'. rc s' r = INT_MAX}))"
proof -
  have c: "counted True {} pair_state (add_mset 100 {#40#})"
    using counted_pair by (simp add: add_mset_commute)
  have a: "acyclic (kid_rel pair_state {})"
    unfolding kid_rel_pair acyclic_insert by (simp add: acyclic_def)
  show ?thesis using ref_dec_p_no_leak [OF c a] c a by simp
qed

text \<open>
  C8. Taking a reference to a live object succeeds, is covered by the counts
  afterwards, and changes no object's class, flags or contents.
\<close>

theorem ref_inc_o_counted:
  assumes "counted E D s R" and "ob_data r \<in> live s - D"
  shows "\<exists>s'. ref_inc_o r s = Inr (r, s') \<and> counted E D s' (add_mset (ob_data r) R) \<and>
    body_eq s s'"
  using counter.inc [OF assms] by (auto simp: ref_inc_o_def thenE_apply)

theorem ref_inc_o_counted_witness:
  "counted False {} pair_state {#40, 100#} \<and> (100::addr) \<in> live pair_state \<and>
   (\<exists>s'. ref_inc_o \<lparr>ob_data = 100, ob_interface = 7\<rparr> pair_state =
           Inr (\<lparr>ob_data = 100, ob_interface = 7\<rparr>, s') \<and>
         counted False {} s' {#100, 40, 100#})"
  using ref_inc_o_counted [OF counted_pair, of "\<lparr>ob_data = 100, ob_interface = 7\<rparr>" False]
    counted_pair [of False] by auto

text \<open>
  C9. Saturation succeeds on every live object between operations, and a saturated
  object is never freed by counting: increments and decrements leave the state as it is.
\<close>

theorem ref_saturate_p_permanent:
  assumes "heap s p = Some ob" and "p \<noteq> 0"
    and "object_start_marker ob = PVM_OBJECT_START_MARKER"
    and "flags_settled (alloc_flags ob)" and "0 < refCount ob"
  shows "\<exists>s'. ref_saturate_p p s = Inr ((), s') \<and> p \<in> live s' \<and> rc s' p = INT_MAX \<and>
    ref_dec_p p s' = Inr ((), s') \<and> ref_inc_p p s' = Inr ((), s')"
proof -
  let ?ob = "ob\<lparr>refCount := INT_MAX, alloc_flags := AF_ALLOCATED\<rparr>"
  have "ob_live ?ob" using assms(3) by (simp add: ob_live_def has_flag_def alloc_flag_defs)
  moreover from this have "ref_dec_p p (put_ob p ?ob s) = Inr ((), put_ob p ?ob s)"
    "ref_inc_p p (put_ob p ?ob s) = Inr ((), put_ob p ?ob s)"
    using saturated_inc_dec [of "put_ob p ?ob s" p ?ob] assms(2) by simp_all
  ultimately show ?thesis
    using ref_saturate_p_eval [OF assms(1,3,4,5)] by (auto simp: live_put_ob rc_put_ob)
qed

theorem ref_saturate_p_permanent_witness:
  "heap pair_state 100 = Some (plain_ob 2 []) \<and> flags_settled (alloc_flags (plain_ob 2 [])) \<and>
   (\<exists>s'. ref_saturate_p 100 pair_state = Inr ((), s') \<and> ref_dec_p 100 s' = Inr ((), s'))"
proof -
  have "heap pair_state 100 = Some (plain_ob 2 [])" "flags_settled (alloc_flags (plain_ob 2 []))"
    "object_start_marker (plain_ob 2 []) = PVM_OBJECT_START_MARKER"
    by (simp_all add: pair_state_def plain_ob_def flags_settled_def)
  with ref_saturate_p_permanent [of pair_state 100 "plain_ob 2 []"] show ?thesis by auto
qed

end
