(* ===== verification/Object_Alloc.thy ===== *)
theory Object_Alloc
  imports Ref_Count
begin

text \<open>
  The object allocator (\<^verbatim>\<open>phantom/vm/alloc.c\<close>): the division of the object space into
  arenas, the linear first-fit search with collapsing of free neighbours and splitting of
  large blocks, object allocation and the memory consistency check. The lemmas show that
  every arena is at all times tiled by blocks, that the search ends, finds a free block
  whenever a large enough one exists, hands out only free memory and leaves allocated
  objects alone, and that the consistency check passes.
\<close>

section \<open>Arenas\<close>

definition ARENAS :: nat where
  "ARENAS = 5"

definition percent_a :: "nat list" where
  "percent_a = [15, 15, 2, 28, 40]"

definition find_arena :: "nat \<Rightarrow> 32 word \<Rightarrow> bool \<Rightarrow> nat" where
  "find_arena sz flags saturated =
     (if has_flag flags (IS_CALL_FRAME OR IS_STACK_FRAME) then 1
      else if has_flag flags IS_INT then 2
      else if saturated then 0
      else if has_flag flags (IS_CODE OR IS_CLASS OR IS_INTERFACE) then 0
      else if sz < 1000 then 3
      else 4)"

primrec find_arena_from :: "addr \<Rightarrow> nat list \<Rightarrow> nat vm" where
  "find_arena_from memaddr [] = raise (Panic ''arena not found'')"
| "find_arena_from memaddr (i # is) = (\<lambda>s.
     if start_a s ! i \<le> memaddr \<and> memaddr < end_a s ! i then Inr (i, s)
     else find_arena_from memaddr is s)"

definition find_arena_by_address :: "addr \<Rightarrow> nat vm" where
  "find_arena_by_address memaddr = find_arena_from memaddr [0..<ARENAS]"

definition round_size :: "nat \<Rightarrow> nat \<Rightarrow> nat" where
  "round_size sz arena = u32 ((u32_sub sz 1 div 4 + 1) * 4)"

definition get_root_object_storage :: "addr vm" where
  "get_root_object_storage = gets space_start"

text \<open>The loop of \<^verbatim>\<open>init_arenas\<close>: start and end of each arena from \<open>cur\<close> on.\<close>

fun arena_bounds :: "nat \<Rightarrow> addr \<Rightarrow> nat list \<Rightarrow> (addr \<times> addr) list" where
  "arena_bounds sz cur [] = []"
| "arena_bounds sz cur (pc # pcs) =
     (let nxt = cur + (sz div 400) * pc * 4 in (cur, nxt) # arena_bounds sz nxt pcs)"

definition init_arenas :: "addr \<Rightarrow> nat \<Rightarrow> unit vm" where
  "init_arenas start sz =
     (let bs = arena_bounds sz start percent_a in
      thenE (modify (\<lambda>s. s\<lparr>space_start := start, space_end := start + sz,
                          start_a := map fst bs, curr_a := map fst bs, end_a := map snd bs\<rparr>))
     (thenE (assertE ''percent_100 == 100'' (sum_list percent_a = 100))
            (modify (\<lambda>s. s\<lparr>end_a := (end_a s)[ARENAS - 1 := space_start s + sz]\<rparr>))))"

section \<open>Object headers\<close>

definition init_object_header :: "addr \<Rightarrow> nat \<Rightarrow> unit vm" where
  "init_object_header op sz =
     thenE (assertE ''size >= sizeof(pvm_object_storage_t)'' (sizeof_pvm_object_storage \<le> sz))
      (modify (\<lambda>s. put_ob op ((storage_at s op)\<lparr>object_start_marker := PVM_OBJECT_START_MARKER,
         alloc_flags := AF_ALLOCATED, gc_flags := 0, refCount := 1, exact_size := sz\<rparr>) s))"

definition init_free_object_header :: "addr \<Rightarrow> nat \<Rightarrow> unit vm" where
  "init_free_object_header op sz =
     thenE (assertE ''size >= sizeof(pvm_object_storage_t)'' (sizeof_pvm_object_storage \<le> sz))
      (modify (\<lambda>s. put_ob op ((storage_at s op)\<lparr>object_start_marker := PVM_OBJECT_START_MARKER,
         alloc_flags := AF_FREE, gc_flags := 0, refCount := 0, exact_size := sz\<rparr>) s))"

definition pvm_alloc_clear_mem :: "unit vm" where
  "pvm_alloc_clear_mem = bindE (gets (\<lambda>s. s)) (\<lambda>s0.
     thenE (assertE ''pvm_object_space_start != 0'' (space_start s0 \<noteq> 0))
       (iterE (\<lambda>i. init_free_object_header (start_a s0 ! i) (end_a s0 ! i - start_a s0 ! i))
          [0..<ARENAS]))"

definition pvm_alloc_init :: "addr \<Rightarrow> nat \<Rightarrow> unit vm" where
  "pvm_alloc_init start sz =
     thenE (assertE ''_pvm_object_space_start != 0'' (start \<noteq> 0))
    (thenE (assertE ''size > 0'' (0 < sz)) (init_arenas start sz))"

section \<open>Splitting, collapsing and walking\<close>

definition PVM_MIN_FRAGMENT_SIZE :: nat where
  "PVM_MIN_FRAGMENT_SIZE = sizeof_pvm_object_storage + 4"

definition alloc_eat_some :: "addr \<Rightarrow> nat \<Rightarrow> addr vm" where
  "alloc_eat_some op sz = bindE (load op) (\<lambda>ob.
     thenE (assertE ''object_start_marker'' (object_start_marker ob = PVM_OBJECT_START_MARKER))
    (thenE (assertE ''FREE'' (alloc_flags ob = AF_FREE))
    (thenE (assertE ''exact_size >= size'' (sz \<le> exact_size ob))
    (let surplus = exact_size ob - sz in
     if surplus < PVM_MIN_FRAGMENT_SIZE
     then thenE (init_object_header op (exact_size ob)) (ret op)
     else thenE (init_object_header op sz)
         (thenE (init_free_object_header (op + sz) surplus) (ret op))))))"

text \<open>The scan of \<^verbatim>\<open>alloc_collapse_with_next_free\<close>: the sz of the run of free blocks.\<close>

primrec collapse_size :: "nat \<Rightarrow> addr \<Rightarrow> nat \<Rightarrow> addr \<Rightarrow> nat \<Rightarrow> nat vm" where
  "collapse_size 0 op need_size en sz = raise Diverges"
| "collapse_size (Suc n) op need_size en sz =
     (if op + sz < en
      then bindE (load (op + sz)) (\<lambda>opppa.
             if alloc_flags opppa = AF_FREE \<and> sz < u32 (need_size * 32)
             then collapse_size n op need_size en (u32 (sz + exact_size opppa))
             else ret sz)
      else ret sz)"

definition alloc_collapse_with_next_free :: "addr \<Rightarrow> nat \<Rightarrow> addr \<Rightarrow> nat \<Rightarrow> unit vm" where
  "alloc_collapse_with_next_free op need_size en arena = bindE (load op) (\<lambda>ob.
     thenE (assertE ''object_start_marker'' (object_start_marker ob = PVM_OBJECT_START_MARKER))
    (thenE (assertE ''FREE'' (alloc_flags ob = AF_FREE))
    (bindE (collapse_size (Suc (en - op)) op need_size en (exact_size ob)) (\<lambda>sz.
       whenE (exact_size ob < sz) (init_free_object_header op sz)))))"

definition alloc_wrap_to_next_object ::
    "addr \<Rightarrow> addr \<Rightarrow> addr \<Rightarrow> nat \<Rightarrow> nat \<Rightarrow> (addr \<times> nat) vm" where
  "alloc_wrap_to_next_object op start en wrap arena = bindE (load op) (\<lambda>ob.
     thenE (assertE ''object_start_marker'' (object_start_marker ob = PVM_OBJECT_START_MARKER))
    (let nxt = op + exact_size ob in
     if en \<le> nxt
     then thenE (assertE ''o <= end'' (nxt \<le> en)) (ret (start, wrap + 1))
     else ret (nxt, wrap)))"

definition pvm_alloc_is_object :: "pvm_object_storage \<Rightarrow> bool" where
  "pvm_alloc_is_object ob \<longleftrightarrow> object_start_marker ob = PVM_OBJECT_START_MARKER"

definition pvm_alloc_is_free_object :: "pvm_object_storage \<Rightarrow> bool" where
  "pvm_alloc_is_free_object ob \<longleftrightarrow> object_start_marker ob = PVM_OBJECT_START_MARKER \<and>
     alloc_flags ob = AF_FREE"

definition pvm_object_is_allocated_light :: "pvm_object_storage \<Rightarrow> bool" where
  "pvm_object_is_allocated_light ob \<longleftrightarrow> object_start_marker ob = PVM_OBJECT_START_MARKER \<and>
     has_flag (alloc_flags ob) AF_ALLOCATED"

definition pvm_object_is_allocated :: "vm_state \<Rightarrow> addr \<Rightarrow> pvm_object_storage \<Rightarrow> bool" where
  "pvm_object_is_allocated s p ob \<longleftrightarrow>
     object_start_marker ob = PVM_OBJECT_START_MARKER \<and>
     has_flag (alloc_flags ob) AF_ALLOCATED \<and>
     0 < refCount ob \<and>
     u32 (o_da_size ob + sizeof_pvm_object_storage) \<le> exact_size ob \<and>
     exact_size ob < u32 (o_da_size ob + sizeof_pvm_object_storage + PVM_MIN_FRAGMENT_SIZE) \<and>
     exact_size ob \<le> u32_sub (space_end s) p"

definition pvm_object_is_allocated_assert :: "addr \<Rightarrow> unit vm" where
  "pvm_object_is_allocated_assert p = bindE (load p) (\<lambda>ob. bindE (gets space_end) (\<lambda>en.
     thenE (assertE ''object_start_marker'' (object_start_marker ob = PVM_OBJECT_START_MARKER))
    (thenE (assertE ''ALLOCATED'' (has_flag (alloc_flags ob) AF_ALLOCATED))
    (thenE (assertE ''refCount > 0'' (0 < refCount ob))
    (thenE (assertE ''exact_size >=''
              (u32 (o_da_size ob + sizeof_pvm_object_storage) \<le> exact_size ob))
    (thenE (assertE ''exact_size <''
              (exact_size ob < u32 (o_da_size ob + sizeof_pvm_object_storage + PVM_MIN_FRAGMENT_SIZE)))
           (assertE ''exact_size <= space'' (exact_size ob \<le> u32_sub en p))))))))"

section \<open>Allocation\<close>

text \<open>
  One round of the search loop at \<open>cur\<close>: either the found object (\<open>Inr\<close>) or the next
  position and wrap count (\<open>Inl\<close>).
\<close>

definition pvm_find_step ::
    "nat \<Rightarrow> addr \<Rightarrow> addr \<Rightarrow> nat \<Rightarrow> addr \<Rightarrow> nat \<Rightarrow> ((addr \<times> nat) + addr) vm" where
  "pvm_find_step sz start en arena cur wrap = bindE (load cur) (\<lambda>ob.
     if has_flag (alloc_flags ob) AF_ALLOCATED
     then bindE (alloc_wrap_to_next_object cur start en wrap arena) (\<lambda>r. ret (Inl r))
     else thenE (whenE (alloc_flags ob \<noteq> AF_FREE) (refzero_process_children ref_dec_p cur))
         (bindE (load cur) (\<lambda>ob1.
          thenE (assertE ''FREE'' (alloc_flags ob1 = AF_FREE))
         (thenE (whenE (exact_size ob1 < sz) (alloc_collapse_with_next_free cur sz en arena))
         (bindE (load cur) (\<lambda>ob2.
          if exact_size ob2 < sz
          then bindE (alloc_wrap_to_next_object cur start en wrap arena) (\<lambda>r. ret (Inl r))
          else bindE (alloc_eat_some cur sz) (\<lambda>r. ret (Inr r))))))))"

primrec pvm_find_loop ::
    "nat \<Rightarrow> nat \<Rightarrow> addr \<Rightarrow> addr \<Rightarrow> nat \<Rightarrow> addr \<Rightarrow> nat \<Rightarrow> (addr \<times> nat) option vm" where
  "pvm_find_loop 0 sz start en arena cur wrap = raise Diverges"
| "pvm_find_loop (Suc n) sz start en arena cur wrap =
     (if 1 < wrap then ret None
      else bindE (pvm_find_step sz start en arena cur wrap) (\<lambda>r. case r of
             Inl (cur', wrap') \<Rightarrow> pvm_find_loop n sz start en arena cur' wrap'
           | Inr result \<Rightarrow> ret (Some (result, wrap))))"

definition pvm_find :: "nat \<Rightarrow> nat \<Rightarrow> addr vm" where
  "pvm_find sz arena = bindE (gets (\<lambda>s. s)) (\<lambda>s0.
     let start = start_a s0 ! arena; en = end_a s0 ! arena in
     bindE (pvm_find_loop (Suc (3 * (en - start))) sz start en arena (curr_a s0 ! arena) 0)
       (\<lambda>r. case r of
          None \<Rightarrow> ret 0
        | Some (result, wrap) \<Rightarrow>
            thenE (assertE ''result != 0'' (result \<noteq> 0))
           (bindE (alloc_wrap_to_next_object result start en wrap arena) (\<lambda>(pos, wrap').
            thenE (modify (\<lambda>s. s\<lparr>curr_a := (curr_a s)[arena := pos]\<rparr>)) (ret result)))))"

text \<open>The retry with garbage collection is compiled out; the loop body runs once.\<close>

definition pool_alloc :: "nat \<Rightarrow> nat \<Rightarrow> addr vm" where
  "pool_alloc sz arena = pvm_find sz arena"

text \<open>
  \<^verbatim>\<open>memset(data->da, 0, n)\<close>: the data area is zero, and what was an object header inside
  it is one no longer.
\<close>

definition clear_da :: "addr \<Rightarrow> nat \<Rightarrow> unit vm" where
  "clear_da p n = thenE
     (modify (\<lambda>s. s\<lparr>heap := (\<lambda>a. if p < a \<and> a < p + sizeof_pvm_object_storage + n then None
                              else heap s a)\<rparr>))
     (update_ob p (\<lambda>ob. ob\<lparr>o_da := DA_zero\<rparr>))"

definition pvm_object_alloc :: "nat \<Rightarrow> 32 word \<Rightarrow> bool \<Rightarrow> addr vm" where
  "pvm_object_alloc data_area_size flags saturated =
     (let sz0 = u32 (sizeof_pvm_object_storage + data_area_size);
          arena = find_arena sz0 flags saturated;
          sz = round_size sz0 arena in
      bindE (pool_alloc sz arena) (\<lambda>data.
        if data = 0 then raise (Panic ''out of persistent mem'')
        else thenE (update_ob data (\<lambda>ob. ob\<lparr>o_da_size := data_area_size, o_flags := flags\<rparr>))
            (thenE (whenE saturated (ref_saturate_p data))
            (thenE (clear_da data data_area_size) (ret data)))))"

section \<open>Memory check\<close>

definition pvm_next_object :: "addr \<Rightarrow> addr vm" where
  "pvm_next_object op = bindE (load op) (\<lambda>ob. ret (op + exact_size ob))"

text \<open>
  The walk of \<^verbatim>\<open>memcheck_one\<close>, without its statistics: the position at which it stops.
  Memory that was never formatted is looked at as an object too.
\<close>

primrec memcheck_walk :: "nat \<Rightarrow> addr \<Rightarrow> addr \<Rightarrow> addr vm" where
  "memcheck_walk 0 en cur = raise Diverges"
| "memcheck_walk (Suc n) en cur = (\<lambda>s.
     let ob = storage_at s cur in
     if cur < en
     then if \<not> pvm_alloc_is_object ob then Inr (cur, s)
          else if has_flag (alloc_flags ob) AF_ALLOCATED \<and> \<not> pvm_object_is_allocated s cur ob
          then Inr (cur, s)
          else memcheck_walk n en (cur + exact_size ob) s
     else Inr (cur, s))"

definition memcheck_one :: "nat \<Rightarrow> addr \<Rightarrow> addr \<Rightarrow> nat vm" where
  "memcheck_one i start en = bindE (memcheck_walk (Suc (en - start)) en start) (\<lambda>cur.
     ret (if cur = en then 0 else 1))"

definition pvm_memcheck :: "nat vm" where
  "pvm_memcheck = bindE (gets (\<lambda>s. s)) (\<lambda>s0.
     thenE (iterE (\<lambda>i. bindE (memcheck_one i (start_a s0 ! i) (end_a s0 ! i)) (\<lambda>_. ret ()))
              [0..<ARENAS])
           (ret 0))"

section \<open>Tilings\<close>

text \<open>
  \<open>tiles h a bs e\<close>: from \<open>a\<close> to \<open>e\<close> memory is divided into blocks that start at the
  addresses \<open>bs\<close> and follow each other without gaps.
\<close>

definition tile_ok :: "pvm_object_storage \<Rightarrow> bool" where
  "tile_ok ob \<longleftrightarrow> object_start_marker ob = PVM_OBJECT_START_MARKER \<and> 40 \<le> exact_size ob \<and>
     4 dvd exact_size ob \<and> (has_flag (alloc_flags ob) AF_ALLOCATED \<or> alloc_flags ob = AF_FREE)"

fun tiles :: "(addr \<rightharpoonup> pvm_object_storage) \<Rightarrow> addr \<Rightarrow> addr list \<Rightarrow> addr \<Rightarrow> bool" where
  "tiles h a [] e \<longleftrightarrow> a = e"
| "tiles h a (b # bs) e \<longleftrightarrow> b = a \<and> (case h a of None \<Rightarrow> False
     | Some ob \<Rightarrow> tile_ok ob \<and> tiles h (a + exact_size ob) bs e)"

lemma tiles_append: "tiles h a (xs @ ys) e \<longleftrightarrow> (\<exists>m. tiles h a xs m \<and> tiles h m ys e)"
  by (induction xs arbitrary: a) (auto split: option.splits)

lemma tiles_cong: "tiles h a bs e \<Longrightarrow> (\<And>b. b \<in> set bs \<Longrightarrow> h' b = h b) \<Longrightarrow> tiles h' a bs e"
  by (induction bs arbitrary: a) (auto split: option.splits)

lemma tiles_le: "tiles h a bs e \<Longrightarrow> a + 40 * length bs \<le> e"
proof (induction bs arbitrary: a)
  case (Cons b bs)
  then obtain ob where "tile_ok ob" "tiles h (a + exact_size ob) bs e" by (auto split: option.splits)
  with Cons.IH [of "a + exact_size ob"] show ?case by (simp add: tile_ok_def)
qed simp

lemma tiles_bounds: "tiles h a bs e \<Longrightarrow> b \<in> set bs \<Longrightarrow> a \<le> b \<and> b < e"
proof (induction bs arbitrary: a)
  case (Cons c bs)
  then obtain ob where ob: "tile_ok ob" "tiles h (a + exact_size ob) bs e" "c = a"
    by (auto split: option.splits)
  with tiles_le [OF ob(2)] Cons.IH [OF ob(2)] Cons.prems show ?case by (auto simp: tile_ok_def)
qed simp

lemma tiles_split:
  "tiles h a (xs @ p # ys) e \<longleftrightarrow> (\<exists>ob. h p = Some ob \<and> tile_ok ob \<and> tiles h a xs p \<and>
     tiles h (p + exact_size ob) ys e)"
  by (auto simp: tiles_append split: option.splits)

lemma tiles_apart:
  assumes "tiles h a (xs @ p # ys) e" "h p = Some ob" "q \<in> set (xs @ ys)"
  shows "q < p \<or> p + exact_size ob \<le> q"
proof -
  from assms(1,2) have "tiles h a xs p" "tiles h (p + exact_size ob) ys e"
    by (auto simp: tiles_split)
  with tiles_bounds [of h a xs p q] tiles_bounds [of h "p + exact_size ob" ys e q] assms(3)
  show ?thesis by auto
qed

lemma tiles_upd:
  assumes "tiles h a (xs @ p # ys) e" and "tile_ok ob'"
    and "tiles h (p + exact_size ob') zs e" and "p \<notin> set zs"
  shows "tiles (h(p \<mapsto> ob')) a (xs @ p # zs) e"
proof -
  from assms(1) have xs: "tiles h a xs p" by (auto simp: tiles_split)
  have ne: "b \<noteq> p" if "b \<in> set xs" for b using tiles_bounds [OF xs that] by simp
  from xs have "tiles (h(p \<mapsto> ob')) a xs p" by (rule tiles_cong) (simp add: ne)
  moreover from assms(3) have "tiles (h(p \<mapsto> ob')) (p + exact_size ob') zs e"
    by (rule tiles_cong) (use assms(4) in auto)
  ultimately show ?thesis using assms(2) by (simp add: tiles_split)
qed

lemma tiles_unique: "tiles h a bs e \<Longrightarrow> tiles h a cs e \<Longrightarrow> bs = cs"
proof (induction bs arbitrary: a cs)
  case Nil
  then show ?case using tiles_bounds [of h a cs e a] by (cases cs) auto
next
  case (Cons b bs)
  then have "a < e" using tiles_bounds [of h a "b # bs" e b] by auto
  then obtain c cs' where "cs = c # cs'" using Cons.prems(2) by (cases cs) auto
  then show ?case using Cons by (auto split: option.splits)
qed

lemma tiles_after:
  assumes "tiles h (p + k) zs e" "0 < k"
  shows "p \<notin> set zs"
  using tiles_bounds [OF assms(1), of p] assms(2) by auto

section \<open>Collapsing free neighbours\<close>

lemma collapse_size_spec:
  assumes "tiles (heap s) (op + sz) ys en" and "en < 2 ^ 32" and "length ys < n"
  shows "\<exists>zs ws sz'. collapse_size n op need en sz s = Inr (sz', s) \<and> ys = zs @ ws \<and> sz \<le> sz' \<and>
    4 dvd (sz' - sz) \<and>
    tiles (heap s) (op + sz) zs (op + sz') \<and> tiles (heap s) (op + sz') ws en \<and>
    (\<forall>b \<in> set zs. \<exists>ob. heap s b = Some ob \<and> alloc_flags ob = AF_FREE \<and> exact_size ob \<le> sz' - sz)"
  using assms
proof (induction ys arbitrary: n sz)
  case Nil
  then obtain m where "n = Suc m" by (cases n) auto
  with Nil show ?case by (intro exI [of _ "[]"] exI [of _ sz]) simp
next
  case (Cons y ys)
  then obtain m where n: "n = Suc m" by (cases n) auto
  from Cons.prems obtain ob where ob: "heap s (op + sz) = Some ob" "tile_ok ob" "y = op + sz"
    and t: "tiles (heap s) (op + (sz + exact_size ob)) ys en"
    by (auto split: option.splits simp: add.assoc)
  from tiles_le [OF t] have le: "op + (sz + exact_size ob) \<le> en" by simp
  with Cons.prems(2) have u: "u32 (sz + exact_size ob) = sz + exact_size ob"
    by (intro u32_small) linarith
  have lt: "op + sz < en" using le ob(2) by (simp add: tile_ok_def)
  show ?case
  proof (cases "alloc_flags ob = AF_FREE \<and> sz < u32 (need * 32)")
    case True
    from Cons.IH [OF t Cons.prems(2), of m] Cons.prems(3) n obtain zs ws sz' where
      IH: "collapse_size m op need en (sz + exact_size ob) s = Inr (sz', s)" "ys = zs @ ws"
        "sz + exact_size ob \<le> sz'" "4 dvd (sz' - (sz + exact_size ob))"
        "tiles (heap s) (op + (sz + exact_size ob)) zs (op + sz')"
        "tiles (heap s) (op + sz') ws en"
        "\<forall>b \<in> set zs. \<exists>ob'. heap s b = Some ob' \<and> alloc_flags ob' = AF_FREE \<and>
           exact_size ob' \<le> sz' - (sz + exact_size ob)"
      by auto
    have d: "4 dvd (sz' - sz)"
      using IH(3,4) ob(2) dvd_add [of 4 "sz' - (sz + exact_size ob)" "exact_size ob"]
      by (simp add: tile_ok_def)
    have z: "\<forall>b \<in> set (y # zs). \<exists>ob'. heap s b = Some ob' \<and> alloc_flags ob' = AF_FREE \<and>
        exact_size ob' \<le> sz' - sz"
      using IH(3,7) ob True by fastforce
    have "tiles (heap s) (op + sz) (y # zs) (op + sz')"
      using IH(5) ob by (simp add: add.assoc)
    then show ?thesis
      using IH d z True lt ob
      by (intro exI [of _ "y # zs"] exI [of _ ws] exI [of _ sz']) (auto simp: n u comp_simps)
  next
    case False
    with lt ob Cons.prems(1) show ?thesis
      by (intro exI [of _ "[]"] exI [of _ "y # ys"] exI [of _ sz]) (auto simp: n comp_simps)
  qed
qed

text \<open>
  The invariant of one arena: it is tiled, and the live objects inside it are tiles.
\<close>

definition arena_inv :: "vm_state \<Rightarrow> addr \<Rightarrow> addr \<Rightarrow> addr list \<Rightarrow> bool" where
  "arena_inv s start en bs \<longleftrightarrow> tiles (heap s) start bs en \<and>
     live s \<inter> {start..<en} \<subseteq> set bs \<and> 0 < start \<and> en < 2 ^ 32"

text \<open>Only memory of the arena that no live object owns may change.\<close>

definition arena_frame :: "vm_state \<Rightarrow> vm_state \<Rightarrow> addr \<Rightarrow> addr \<Rightarrow> bool" where
  "arena_frame s s' start en \<longleftrightarrow> s' = s\<lparr>heap := heap s'\<rparr> \<and>
     (\<forall>q. heap s' q \<noteq> heap s q \<longrightarrow> q \<in> {start..<en} \<and> q \<notin> live s)"

lemma arena_frame_refl [simp]: "arena_frame s s a e"
  by (simp add: arena_frame_def)

lemma arena_frame_eq: "arena_frame s s' a e \<Longrightarrow> q \<in> live s \<Longrightarrow> heap s' q = heap s q"
  unfolding arena_frame_def by blast

lemma arena_frame_live:
  assumes "arena_frame s s' a e"
  shows "live s \<subseteq> live s'"
proof
  fix q assume q: "q \<in> live s"
  with arena_frame_eq [OF assms q] show "q \<in> live s'" by (simp add: live_def)
qed

lemma arena_frame_trans:
  assumes 1: "arena_frame s t a e" and 2: "arena_frame t u a e"
  shows "arena_frame s u a e"
proof -
  have "u = s\<lparr>heap := heap u\<rparr>"
    using 1 2 unfolding arena_frame_def by (cases s; cases t; cases u) simp
  moreover have "q \<in> {a..<e} \<and> q \<notin> live s" if "heap u q \<noteq> heap s q" for q
    using that 1 2 arena_frame_live [OF 1] unfolding arena_frame_def by (metis subsetD)
  ultimately show ?thesis by (simp add: arena_frame_def)
qed

lemma arena_frame_put_ob:
  assumes "p \<in> {a..<e}" "p \<notin> live s"
  shows "arena_frame s (put_ob p ob s) a e"
  using assms by (auto simp: arena_frame_def put_ob_def)

lemma free_not_live: "heap s p = Some ob \<Longrightarrow> alloc_flags ob = AF_FREE \<Longrightarrow> p \<notin> live s"
  by (auto simp: live_def)

lemma arena_invD:
  assumes "arena_inv s start en (xs @ p # ys)"
  shows "tiles (heap s) start (xs @ p # ys) en" "start \<le> p" "p < en" "0 < p" "en < 2 ^ 32"
    "0 < start"
  using assms tiles_bounds [of "heap s" start "xs @ p # ys" en p] by (auto simp: arena_inv_def)

lemma arena_inv_tile:
  assumes "arena_inv s start en (xs @ p # ys)"
  obtains ob where "heap s p = Some ob" "tile_ok ob" "tiles (heap s) (p + exact_size ob) ys en"
  using arena_invD(1) [OF assms] by (auto simp: tiles_split)

lemma live_put_free:
  assumes "p \<notin> live s" "\<not> ob_live ob"
  shows "live (put_ob p ob s) = live s"
  using assms by (auto simp: live_put_ob)

lemma storage_at_Some [simp]: "heap s p = Some ob \<Longrightarrow> storage_at s p = ob"
  by (simp add: storage_at_def)

lemma storage_at_put_ob: "k \<noteq> p \<Longrightarrow> storage_at (put_ob p ob s) k = storage_at s k"
  by (simp add: storage_at_def put_ob_def split: option.splits)

lemma put_ob_twist: "k \<noteq> p \<Longrightarrow> put_ob k a (put_ob p b s) = put_ob p b (put_ob k a s)"
  by (simp add: put_ob_def fun_upd_twist)

lemma init_free_eval:
  "40 \<le> sz \<Longrightarrow> init_free_object_header p sz s = Inr ((), put_ob p ((storage_at s p)\<lparr>
     object_start_marker := PVM_OBJECT_START_MARKER, alloc_flags := AF_FREE, gc_flags := 0,
     refCount := 0, exact_size := sz\<rparr>) s)"
  by (simp add: init_free_object_header_def comp_simps sizeof_pvm_object_storage_def)

lemma init_object_eval:
  "40 \<le> sz \<Longrightarrow> init_object_header p sz s = Inr ((), put_ob p ((storage_at s p)\<lparr>
     object_start_marker := PVM_OBJECT_START_MARKER, alloc_flags := AF_ALLOCATED, gc_flags := 0,
     refCount := 1, exact_size := sz\<rparr>) s)"
  by (simp add: init_object_header_def comp_simps sizeof_pvm_object_storage_def)

lemma arena_inv_collapse:
  assumes inv: "arena_inv s start en (xs @ p # zs @ ws)" and ob: "heap s p = Some ob"
    and fr: "alloc_flags ob = AF_FREE" "tile_ok ob'" "alloc_flags ob' = AF_FREE"
    and ws: "tiles (heap s) (p + exact_size ob') ws en"
    and zs: "\<forall>b \<in> set zs. \<exists>o'. heap s b = Some o' \<and> alloc_flags o' = AF_FREE"
  shows "arena_inv (put_ob p ob' s) start en (xs @ p # ws)"
proof -
  have "0 < exact_size ob'" using fr(2) by (simp add: tile_ok_def)
  from tiles_upd [OF arena_invD(1) [OF inv] fr(2) ws tiles_after [OF ws this]]
  have "tiles (heap (put_ob p ob' s)) start (xs @ p # ws) en" by simp
  moreover have "live (put_ob p ob' s) = live s"
    using free_not_live [OF ob fr(1)] fr(3) by (simp add: live_put_free)
  moreover have "q \<notin> live s" if "q \<in> set zs" for q
    using zs that free_not_live by blast
  ultimately show ?thesis using inv by (auto simp: arena_inv_def)
qed

lemma alloc_collapse_spec:
  assumes inv: "arena_inv s start en (xs @ p # ys)" and ob: "heap s p = Some ob"
    and fr: "alloc_flags ob = AF_FREE"
  obtains zs ws ob' where
    "alloc_collapse_with_next_free p need en arena s = Inr ((), put_ob p ob' s)"
    "ys = zs @ ws" "alloc_flags ob' = AF_FREE" "exact_size ob \<le> exact_size ob'"
    "arena_inv (put_ob p ob' s) start en (xs @ p # ws)"
    "\<forall>b \<in> set zs. \<exists>o'. heap s b = Some o' \<and> exact_size o' \<le> exact_size ob'"
proof -
  from arena_inv_tile [OF inv] ob have ok: "tile_ok ob"
    and t: "tiles (heap s) (p + exact_size ob) ys en" by auto
  note en = arena_invD(5) [OF inv]
  have "length ys < Suc (en - p)" using tiles_le [OF t] by simp
  from collapse_size_spec [OF t en this, of need] obtain zs ws sz' where
    c: "collapse_size (Suc (en - p)) p need en (exact_size ob) s = Inr (sz', s)" "ys = zs @ ws"
      "exact_size ob \<le> sz'" "4 dvd (sz' - exact_size ob)" "tiles (heap s) (p + sz') ws en"
    and zs: "\<forall>b \<in> set zs. \<exists>o'. heap s b = Some o' \<and> alloc_flags o' = AF_FREE \<and>
      exact_size o' \<le> sz' - exact_size ob" by blast
  let ?ob = "if exact_size ob < sz' then ob\<lparr>object_start_marker := PVM_OBJECT_START_MARKER,
    alloc_flags := AF_FREE, gc_flags := 0, refCount := 0, exact_size := sz'\<rparr> else ob"
  have e: "alloc_collapse_with_next_free p need en arena s = Inr ((), put_ob p ?ob s)"
    using ob ok fr c(1,3)
    by (simp add: alloc_collapse_with_next_free_def comp_simps tile_ok_def put_ob_same
        init_free_eval)
  have sz: "exact_size ?ob = sz'" using c(3) by simp
  have "4 dvd sz'" using c(3,4) ok dvd_add [of 4 "sz' - exact_size ob" "exact_size ob"]
    by (simp add: tile_ok_def)
  then have ok': "tile_ok ?ob" using ok c(3) by (simp add: tile_ok_def)
  have "arena_inv (put_ob p ?ob s) start en (xs @ p # ws)"
    by (rule arena_inv_collapse [OF inv [unfolded c(2)] ob fr ok'])
      (use c(5) zs fr sz in auto)
  moreover have "\<forall>b \<in> set zs. \<exists>o'. heap s b = Some o' \<and> exact_size o' \<le> exact_size ?ob"
    using zs sz by fastforce
  ultimately show thesis using that [of ?ob zs ws] e c(2,3) fr sz by simp
qed

section \<open>Walking and carving\<close>

lemma alloc_wrap_spec:
  assumes inv: "arena_inv s start en (xs @ p # ys)"
  shows "alloc_wrap_to_next_object p start en wrap arena s =
    Inr ((case ys of [] \<Rightarrow> (start, wrap + 1) | y # _ \<Rightarrow> (y, wrap)), s)"
proof -
  from arena_inv_tile [OF inv] obtain ob where ob: "heap s p = Some ob" "tile_ok ob"
    "tiles (heap s) (p + exact_size ob) ys en" .
  show ?thesis
  proof (cases ys)
    case Nil
    with ob show ?thesis
      by (simp add: alloc_wrap_to_next_object_def comp_simps tile_ok_def)
  next
    case (Cons y ys')
    with ob have "y = p + exact_size ob" by simp
    moreover from ob(3) Cons have "p + exact_size ob < en" using tiles_bounds by fastforce
    ultimately show ?thesis
      using ob Cons by (simp add: alloc_wrap_to_next_object_def comp_simps tile_ok_def)
  qed
qed

text \<open>\<open>p\<close> was carved out of free memory as an allocated block for a request of \<open>sz\<close> bytes.\<close>

definition fresh_block :: "pvm_object_storage \<Rightarrow> nat \<Rightarrow> bool" where
  "fresh_block ob sz \<longleftrightarrow> object_start_marker ob = PVM_OBJECT_START_MARKER \<and>
     alloc_flags ob = AF_ALLOCATED \<and> gc_flags ob = 0 \<and> refCount ob = 1 \<and>
     sz \<le> exact_size ob \<and> exact_size ob < sz + PVM_MIN_FRAGMENT_SIZE \<and> 4 dvd exact_size ob"

definition carved :: "vm_state \<Rightarrow> vm_state \<Rightarrow> addr \<Rightarrow> nat \<Rightarrow> addr \<Rightarrow> addr \<Rightarrow> bool" where
  "carved s s' p sz start en \<longleftrightarrow> arena_frame s s' start en \<and> p \<notin> live s \<and>
     live s' = insert p (live s) \<and> (\<exists>xs ys. arena_inv s' start en (xs @ p # ys)) \<and>
     (\<exists>ob. heap s' p = Some ob \<and> fresh_block ob sz)"

lemma fresh_tile: "fresh_block ob sz \<Longrightarrow> 40 \<le> sz \<Longrightarrow> tile_ok ob \<and> ob_live ob"
  by (auto simp: fresh_block_def tile_ok_def ob_live_def has_flag_def alloc_flag_defs)

lemma alloc_eat_whole:
  assumes inv: "arena_inv s start en (xs @ p # ys)" and ob: "heap s p = Some ob"
    and fr: "alloc_flags ob = AF_FREE" and sz: "40 \<le> sz" and ob': "fresh_block ob' sz"
    and eq: "exact_size ob' = exact_size ob"
  shows "carved s (put_ob p ob' s) p sz start en"
proof -
  note D = arena_invD [OF inv]
  from arena_inv_tile [OF inv] ob have t: "tiles (heap s) (p + exact_size ob) ys en" by auto
  note l = fresh_tile [OF ob' sz]
  have live: "live (put_ob p ob' s) = insert p (live s)" using l by (simp add: live_put_ob)
  have "0 < exact_size ob'" using l by (auto simp: tile_ok_def)
  from tiles_upd [OF D(1) _ _ tiles_after [of "heap s" p "exact_size ob'" ys en]] l t this
  have "tiles (heap (put_ob p ob' s)) start (xs @ p # ys) en" by (simp add: eq)
  then have "arena_inv (put_ob p ob' s) start en (xs @ p # ys)"
    using inv live by (auto simp: arena_inv_def)
  moreover have "arena_frame s (put_ob p ob' s) start en"
    by (rule arena_frame_put_ob) (use D free_not_live [OF ob fr] in auto)
  ultimately show ?thesis
    using live free_not_live [OF ob fr] ob' by (auto simp: carved_def)
qed

text \<open>The block is split: \<open>p\<close> takes \<open>sz\<close> bytes, the rest becomes a free block.\<close>

lemma arena_inv_split:
  assumes inv: "arena_inv s start en (xs @ p # ys)" and ob: "heap s p = Some ob"
    and k: "p < k" "k < p + exact_size ob" and fr: "alloc_flags ob = AF_FREE"
    and ob1: "tile_ok ob1" "alloc_flags ob1 = AF_FREE" "exact_size ob1 = k - p"
    and ob2: "tile_ok ob2" "alloc_flags ob2 = AF_FREE" "k + exact_size ob2 = p + exact_size ob"
  shows "arena_inv (put_ob k ob2 (put_ob p ob1 s)) start en (xs @ p # k # ys) \<and>
    arena_frame s (put_ob k ob2 (put_ob p ob1 s)) start en \<and>
    live (put_ob k ob2 (put_ob p ob1 s)) = live s"
proof -
  note D = arena_invD [OF inv]
  from arena_inv_tile [OF inv] ob have t: "tiles (heap s) (p + exact_size ob) ys en" by auto
  from tiles_le [OF t] k have ken: "k < en" by simp
  have "k \<notin> set (xs @ p # ys)" using tiles_apart [OF D(1) ob, of k] k by auto
  with inv ken D k have nl: "k \<notin> live s" by (auto simp: arena_inv_def)
  have p: "p \<notin> live s" by (rule free_not_live [OF ob fr])
  let ?t = "put_ob k ob2 s"
  have t2: "tiles (heap ?t) (p + exact_size ob) ys en"
    using t by (rule tiles_cong) (use \<open>k \<notin> set (xs @ p # ys)\<close> in auto)
  have t1: "tiles (heap ?t) start (xs @ p # ys) en"
    using D(1) by (rule tiles_cong) (use \<open>k \<notin> set (xs @ p # ys)\<close> in auto)
  have "tiles (heap ?t) (p + exact_size ob1) (k # ys) en" using t2 ob1 ob2 k by simp
  from tiles_upd [OF t1 ob1(1) this tiles_after [OF this]] k
  have "tiles (heap (put_ob p ob1 ?t)) start (xs @ p # k # ys) en" by (simp add: ob1(3))
  moreover have "put_ob p ob1 ?t = put_ob k ob2 (put_ob p ob1 s)"
    using k by (simp add: put_ob_def fun_upd_twist)
  moreover have live: "live (put_ob k ob2 (put_ob p ob1 s)) = live s"
    using p nl ob1 ob2 by (simp add: live_put_free)
  moreover have "live (put_ob p ob1 s) = live s" using p ob1 by (simp add: live_put_free)
  then have "arena_frame s (put_ob k ob2 (put_ob p ob1 s)) start en"
    by (intro arena_frame_trans [OF arena_frame_put_ob arena_frame_put_ob])
      (use p nl D ken k in auto)
  ultimately show ?thesis using inv by (auto simp: arena_inv_def)
qed

lemma alloc_eat_some_spec:
  assumes inv: "arena_inv s start en (xs @ p # ys)" and ob: "heap s p = Some ob"
    and fr: "alloc_flags ob = AF_FREE" and sz: "40 \<le> sz" "4 dvd sz" "sz \<le> exact_size ob"
  obtains s' where "alloc_eat_some p sz s = Inr (p, s')" "carved s s' p sz start en"
proof -
  from arena_inv_tile [OF inv] ob have ok: "tile_ok ob" by auto
  let ?al = "\<lambda>k. ob\<lparr>object_start_marker := PVM_OBJECT_START_MARKER, alloc_flags := AF_ALLOCATED,
    gc_flags := 0, refCount := 1, exact_size := k\<rparr>"
  show thesis
  proof (cases "exact_size ob - sz < PVM_MIN_FRAGMENT_SIZE")
    case True
    have "alloc_eat_some p sz s = Inr (p, put_ob p (?al (exact_size ob)) s)"
      using ob fr ok sz True
      by (simp add: alloc_eat_some_def comp_simps tile_ok_def init_object_eval)
    moreover have "carved s (put_ob p (?al (exact_size ob)) s) p sz start en"
      by (rule alloc_eat_whole [OF inv ob fr sz(1)])
        (use True ok sz in \<open>auto simp: fresh_block_def tile_ok_def\<close>)
    ultimately show thesis by (rule that)
  next
    case False
    let ?k = "p + sz" and ?rest = "exact_size ob - sz"
    let ?fr = "\<lambda>o' k. o'\<lparr>object_start_marker := PVM_OBJECT_START_MARKER,
      alloc_flags := AF_FREE, gc_flags := 0, refCount := 0, exact_size := k\<rparr>"
    let ?ob1 = "?fr ob sz" and ?ob2 = "?fr (storage_at s ?k) ?rest"
    let ?t = "put_ob ?k ?ob2 (put_ob p ?ob1 s)"
    have rest: "44 \<le> ?rest" "sz < exact_size ob" "4 dvd ?rest"
      using False sz ok by (auto simp: PVM_MIN_FRAGMENT_SIZE_def sizeof_pvm_object_storage_def
        tile_ok_def intro: dvd_diff_nat)
    have "alloc_eat_some p sz s = Inr (p, put_ob p (?al sz) ?t)"
      using ob fr ok sz False rest
      by (simp add: alloc_eat_some_def comp_simps tile_ok_def init_object_eval init_free_eval
          storage_at_put_ob put_ob_twist [of "p + sz" p])
    moreover have sp: "arena_inv ?t start en (xs @ p # ?k # ys)" "arena_frame s ?t start en"
      "live ?t = live s"
      using arena_inv_split [OF inv ob _ _ fr, of ?k ?ob1 ?ob2] rest sz by (auto simp: tile_ok_def)
    have h: "heap ?t p = Some ?ob1" using sz by simp
    have "carved ?t (put_ob p (?al sz) ?t) p sz start en"
      by (rule alloc_eat_whole [OF sp(1) h _ sz(1)])
        (use sz in \<open>auto simp: fresh_block_def PVM_MIN_FRAGMENT_SIZE_def\<close>)
    then have "carved s (put_ob p (?al sz) ?t) p sz start en"
      using sp arena_frame_trans [OF sp(2)] unfolding carved_def by auto
    ultimately show thesis using that by blast
  qed
qed

section \<open>The search\<close>

definition fits :: "vm_state \<Rightarrow> addr \<Rightarrow> nat \<Rightarrow> bool" where
  "fits s b sz \<longleftrightarrow> (case heap s b of None \<Rightarrow> False
     | Some ob \<Rightarrow> alloc_flags ob = AF_FREE \<and> sz \<le> exact_size ob)"

text \<open>A round that moves on: \<open>cur\<close> does not fit, and every other fitting block survives.\<close>

definition moved_on ::
    "vm_state \<Rightarrow> vm_state \<Rightarrow> nat \<Rightarrow> addr \<Rightarrow> addr \<Rightarrow> addr list \<Rightarrow> addr \<Rightarrow> addr list \<Rightarrow> addr list \<Rightarrow> bool" where
  "moved_on s s' sz start en xs cur ys ws \<longleftrightarrow> arena_inv s' start en (xs @ cur # ws) \<and>
     arena_frame s s' start en \<and> live s' = live s \<and> length ws \<le> length ys \<and> \<not> fits s cur sz \<and>
     (\<forall>b \<in> set (xs @ ys). fits s b sz \<longrightarrow> fits s' b sz) \<and>
     (\<forall>b \<in> set ys. fits s b sz \<longrightarrow> b \<in> set ws)"

lemma pvm_find_step_allocated:
  assumes inv: "arena_inv s start en (xs @ cur # ys)" and ob: "heap s cur = Some ob"
    and al: "has_flag (alloc_flags ob) AF_ALLOCATED"
  shows "pvm_find_step sz start en arena cur wrap s =
      Inr (Inl (case ys of [] \<Rightarrow> (start, wrap + 1) | y # _ \<Rightarrow> (y, wrap)), s)"
    and "moved_on s s sz start en xs cur ys ys"
proof -
  have "alloc_flags ob \<noteq> AF_FREE" using al by (auto simp: has_flag_def alloc_flag_defs)
  then show "moved_on s s sz start en xs cur ys ys"
    using inv ob by (simp add: moved_on_def fits_def)
qed (use ob al in \<open>simp add: pvm_find_step_def comp_simps alloc_wrap_spec [OF inv]\<close>)

lemma pvm_find_step_take:
  assumes inv: "arena_inv s start en (xs @ cur # ys)" and fit: "fits s cur sz"
    and sz: "40 \<le> sz" "4 dvd sz"
  shows "\<exists>s'. pvm_find_step sz start en arena cur wrap s = Inr (Inr cur, s') \<and>
    carved s s' cur sz start en"
proof -
  from fit obtain ob where ob: "heap s cur = Some ob" "alloc_flags ob = AF_FREE" "sz \<le> exact_size ob"
    by (auto simp: fits_def split: option.splits)
  from alloc_eat_some_spec [OF inv ob(1,2) sz ob(3)] obtain s' where
    "alloc_eat_some cur sz s = Inr (cur, s')" "carved s s' cur sz start en" .
  moreover from ob have "\<not> has_flag (alloc_flags ob) AF_ALLOCATED"
    by (simp add: has_flag_def alloc_flag_defs)
  ultimately show ?thesis using ob by (auto simp: pvm_find_step_def comp_simps)
qed

lemma pvm_find_step_collapse:
  assumes inv: "arena_inv s start en (xs @ cur # ys)" and ob: "heap s cur = Some ob"
    and fr: "alloc_flags ob = AF_FREE" and small: "exact_size ob < sz" and sz: "40 \<le> sz" "4 dvd sz"
  shows "(\<exists>s'. pvm_find_step sz start en arena cur wrap s = Inr (Inr cur, s') \<and>
      carved s s' cur sz start en) \<or>
    (\<exists>ws s'. pvm_find_step sz start en arena cur wrap s =
        Inr (Inl (case ws of [] \<Rightarrow> (start, wrap + 1) | y # _ \<Rightarrow> (y, wrap)), s') \<and>
      moved_on s s' sz start en xs cur ys ws)"
proof -
  have na: "\<not> has_flag (alloc_flags ob) AF_ALLOCATED" using fr by (simp add: has_flag_def alloc_flag_defs)
  from alloc_collapse_spec [OF inv ob fr, of sz arena] obtain zs ws ob' where
    c: "alloc_collapse_with_next_free cur sz en arena s = Inr ((), put_ob cur ob' s)"
      "ys = zs @ ws" "alloc_flags ob' = AF_FREE" "exact_size ob \<le> exact_size ob'"
    and inv': "arena_inv (put_ob cur ob' s) start en (xs @ cur # ws)"
    and zs: "\<forall>b \<in> set zs. \<exists>o'. heap s b = Some o' \<and> exact_size o' \<le> exact_size ob'" .
  let ?s = "put_ob cur ob' s"
  have nl: "cur \<notin> live s" by (rule free_not_live [OF ob fr])
  have f: "arena_frame s ?s start en"
    by (rule arena_frame_put_ob) (use arena_invD [OF inv] nl in auto)
  have l: "live ?s = live s" using nl c(3) by (simp add: live_put_free)
  show ?thesis
  proof (cases "exact_size ob' < sz")
    case True
    have "pvm_find_step sz start en arena cur wrap s =
        Inr (Inl (case ws of [] \<Rightarrow> (start, wrap + 1) | y # _ \<Rightarrow> (y, wrap)), ?s)"
      using ob fr na small c(1,3) True alloc_wrap_spec [OF inv', of wrap arena]
      by (simp add: pvm_find_step_def comp_simps)
    moreover have "cur \<notin> set (xs @ ys)"
      using tiles_apart [OF arena_invD(1) [OF inv] ob, of cur] ob arena_inv_tile [OF inv]
      by (force simp: tile_ok_def)
    then have same: "fits ?s b sz = fits s b sz" if "b \<in> set (xs @ ys)" for b
      using that by (auto simp: fits_def)
    have left: "b \<in> set ws" if "b \<in> set ys" "fits s b sz" for b
      using that zs True c(2) by (auto simp: fits_def split: option.splits)
    have "\<not> fits s cur sz" using ob small by (simp add: fits_def)
    then have "moved_on s ?s sz start en xs cur ys ws"
      using inv' f l c(2) same left unfolding moved_on_def by auto
    ultimately show ?thesis by blast
  next
    case False
    have "heap ?s cur = Some ob'" by simp
    from alloc_eat_some_spec [OF inv' this c(3) sz] False obtain s' where
      s': "alloc_eat_some cur sz ?s = Inr (cur, s')" "carved ?s s' cur sz start en" by auto
    then have "carved s s' cur sz start en"
      using l arena_frame_trans [OF f] unfolding carved_def by auto
    moreover have "pvm_find_step sz start en arena cur wrap s = Inr (Inr cur, s')"
      using ob fr na small c(1,3) False s'(1) by (simp add: pvm_find_step_def comp_simps)
    ultimately show ?thesis by blast
  qed
qed

lemma pvm_find_step_spec:
  assumes inv: "arena_inv s start en (xs @ cur # ys)" and sz: "40 \<le> sz" "4 dvd sz"
  shows "(\<exists>s'. pvm_find_step sz start en arena cur wrap s = Inr (Inr cur, s') \<and>
      carved s s' cur sz start en) \<or>
    (\<exists>ws s'. pvm_find_step sz start en arena cur wrap s =
        Inr (Inl (case ws of [] \<Rightarrow> (start, wrap + 1) | y # _ \<Rightarrow> (y, wrap)), s') \<and>
      moved_on s s' sz start en xs cur ys ws)"
proof -
  from arena_inv_tile [OF inv] obtain ob where ob: "heap s cur = Some ob" "tile_ok ob" .
  then consider "has_flag (alloc_flags ob) AF_ALLOCATED"
    | "alloc_flags ob = AF_FREE" "exact_size ob < sz" | "fits s cur sz"
    by (fastforce simp: fits_def tile_ok_def)
  then show ?thesis
  proof cases
    case 1
    from pvm_find_step_allocated [OF inv ob(1) 1] show ?thesis by blast
  next
    case 2
    from pvm_find_step_collapse [OF inv ob(1) 2 sz] show ?thesis .
  next
    case 3
    from pvm_find_step_take [OF inv 3 sz] show ?thesis by blast
  qed
qed

text \<open>What the search promises, whichever way it ends.\<close>

definition find_result ::
    "vm_state \<Rightarrow> vm_state \<Rightarrow> nat \<Rightarrow> addr \<Rightarrow> addr \<Rightarrow> (addr \<times> nat) option \<Rightarrow> bool" where
  "find_result s s' sz start en r = (case r of
     None \<Rightarrow> arena_frame s s' start en \<and> live s' = live s \<and> (\<exists>bs. arena_inv s' start en bs)
   | Some (p, w) \<Rightarrow> carved s s' p sz start en)"

lemma find_result_trans:
  assumes "arena_frame s t start en" "live t = live s" "find_result t u sz start en r"
  shows "find_result s u sz start en r"
  using assms arena_frame_trans [OF assms(1)]
  by (auto simp: find_result_def carved_def split: option.splits)

lemma moved_on_result:
  assumes "moved_on s t sz start en xs cur ys ws" "find_result t u sz start en r"
  shows "find_result s u sz start en r"
  using find_result_trans [OF _ _ assms(2)] assms(1) by (simp add: moved_on_def)

text \<open>
  The loop ends, since after two wraps it gives up, and it does not give up when one of
  the blocks it still has to visit (\<open>ahead\<close>) fits.
\<close>

definition ahead :: "addr list \<Rightarrow> addr \<Rightarrow> addr list \<Rightarrow> nat \<Rightarrow> addr set" where
  "ahead xs cur ys wrap = set (cur # ys) \<union> (if wrap = 0 then set xs else {})"

definition loop_ok ::
    "nat \<Rightarrow> nat \<Rightarrow> addr \<Rightarrow> addr \<Rightarrow> nat \<Rightarrow> vm_state \<Rightarrow> addr list \<Rightarrow> addr \<Rightarrow> addr list \<Rightarrow> nat \<Rightarrow> bool" where
  "loop_ok n sz start en arena s xs cur ys wrap \<longleftrightarrow>
     (\<exists>r s'. pvm_find_loop n sz start en arena cur wrap s = Inr (r, s') \<and>
       find_result s s' sz start en r \<and>
       (wrap \<le> 1 \<longrightarrow> (\<exists>b \<in> ahead xs cur ys wrap. fits s b sz) \<longrightarrow> r \<noteq> None))"

lemma loop_ok_move:
  assumes st: "pvm_find_step sz start en arena cur wrap s = Inr (Inl (cur', wrap'), s')"
    and mv: "moved_on s s' sz start en xs cur ys ws" and w: "wrap \<le> 1"
    and ok: "loop_ok n sz start en arena s' xs' cur' ys' wrap'"
    and ah: "\<And>b. b \<in> ahead xs cur ys wrap \<Longrightarrow> b \<noteq> cur \<Longrightarrow> fits s b sz \<Longrightarrow>
      wrap' \<le> 1 \<and> b \<in> ahead xs' cur' ys' wrap'"
  shows "loop_ok (Suc n) sz start en arena s xs cur ys wrap"
proof -
  from ok obtain r u where u: "pvm_find_loop n sz start en arena cur' wrap' s' = Inr (r, u)"
    "find_result s' u sz start en r"
    "wrap' \<le> 1 \<longrightarrow> (\<exists>b \<in> ahead xs' cur' ys' wrap'. fits s' b sz) \<longrightarrow> r \<noteq> None"
    by (auto simp: loop_ok_def)
  have nn: "r \<noteq> None" if b: "b \<in> ahead xs cur ys wrap" "fits s b sz" for b
  proof -
    have "b \<noteq> cur" using mv b(2) by (auto simp: moved_on_def)
    moreover from this b have "b \<in> set (xs @ ys)" by (auto simp: ahead_def split: if_splits)
    then have "fits s' b sz" using mv b(2) by (simp add: moved_on_def)
    ultimately show ?thesis using ah b u(3) by blast
  qed
  have e: "pvm_find_loop (Suc n) sz start en arena cur wrap s = Inr (r, u)"
    using w st u(1) by (simp add: comp_simps)
  show ?thesis
    unfolding loop_ok_def
    by (intro exI [of _ r] exI [of _ u] conjI impI e moved_on_result [OF mv u(2)])
      (elim bexE, rule nn)
qed

lemma loop_ok_next:
  assumes st: "pvm_find_step sz start en arena cur wrap s = Inr (Inl (y, wrap), s')"
    and mv: "moved_on s s' sz start en xs cur ys (y # ws)" and w: "wrap \<le> 1"
    and ok: "loop_ok n sz start en arena s' (xs @ [cur]) y ws wrap"
  shows "loop_ok (Suc n) sz start en arena s xs cur ys wrap"
  by (rule loop_ok_move [OF st mv w ok])
    (use mv w in \<open>auto simp: ahead_def moved_on_def split: if_splits\<close>)

lemma loop_ok_wrap:
  assumes st: "pvm_find_step sz start en arena cur wrap s = Inr (Inl (start, wrap + 1), s')"
    and mv: "moved_on s s' sz start en xs cur ys []" and w: "wrap \<le> 1"
    and l: "xs @ [cur] = start # ys'" and ok: "loop_ok n sz start en arena s' [] start ys' (wrap + 1)"
  shows "loop_ok (Suc n) sz start en arena s xs cur ys wrap"
proof (rule loop_ok_move [OF st mv w ok])
  fix b assume b: "b \<in> ahead xs cur ys wrap" "b \<noteq> cur" "fits s b sz"
  with mv have x: "wrap = 0" "b \<in> set xs" by (auto simp: ahead_def moved_on_def split: if_splits)
  then have "b \<in> set (xs @ [cur])" by simp
  then show "wrap + 1 \<le> 1 \<and> b \<in> ahead [] start ys' (wrap + 1)"
    unfolding l using x(1) by (simp add: ahead_def)
qed

lemma pvm_find_loop_spec:
  assumes "arena_inv s start en (xs @ cur # ys)" and "length (xs @ cur # ys) \<le> N"
    and "wrap \<le> 2" and "(2 - wrap) * N + length ys + 1 < n" and sz: "40 \<le> sz" "4 dvd sz"
  shows "loop_ok n sz start en arena s xs cur ys wrap"
  using assms(1-4)
proof (induction n arbitrary: s xs cur ys wrap)
  case (Suc n)
  show ?case
  proof (cases "wrap = 2")
    case True
    then show ?thesis using Suc.prems(1) by (auto simp: loop_ok_def find_result_def)
  next
    case False
    with Suc.prems have w: "wrap \<le> 1" by simp
    from pvm_find_step_spec [OF Suc.prems(1) sz, of arena wrap] show ?thesis
    proof (elim disjE exE conjE)
      fix s' assume "pvm_find_step sz start en arena cur wrap s = Inr (Inr cur, s')"
        "carved s s' cur sz start en"
      then show ?thesis using w by (auto simp: loop_ok_def comp_simps find_result_def)
    next
      fix ws s'
      assume st: "pvm_find_step sz start en arena cur wrap s =
          Inr (Inl (case ws of [] \<Rightarrow> (start, wrap + 1) | y # _ \<Rightarrow> (y, wrap)), s')"
        and mv: "moved_on s s' sz start en xs cur ys ws"
      then have inv: "arena_inv s' start en (xs @ cur # ws)" and len: "length ws \<le> length ys"
        by (auto simp: moved_on_def)
      show ?thesis
      proof (cases ws)
        case (Cons y ws')
        with inv len Suc.prems(2-4) Suc.IH [of s' "xs @ [cur]" y ws' wrap]
        show ?thesis using loop_ok_next [OF _ _ w] st mv by simp
      next
        case Nil
        then obtain ys' where l: "xs @ [cur] = start # ys'"
          using inv by (cases "xs @ [cur]") (auto simp: arena_inv_def)
        have "length (xs @ [cur]) = Suc (length ys')" using l by simp
        with Suc.prems(2) have N: "Suc (length ys') \<le> N" by simp
        have "(2 - wrap) * N = (2 - (wrap + 1)) * N + N" using w by (cases wrap) auto
        with N Suc.prems(4) have "(2 - (wrap + 1)) * N + length ys' + 1 < n" by linarith
        with N inv l Nil w have "loop_ok n sz start en arena s' [] start ys' (wrap + 1)"
          by (intro Suc.IH) auto
        then show ?thesis using loop_ok_wrap [OF _ _ w l] st mv Nil by simp
      qed
    qed
  qed
qed simp

section \<open>The object space\<close>

definition arena_ok :: "vm_state \<Rightarrow> nat \<Rightarrow> bool" where
  "arena_ok s k \<longleftrightarrow> (\<exists>xs ys. arena_inv s (start_a s ! k) (end_a s ! k) (xs @ curr_a s ! k # ys))"

text \<open>The arenas divide the object space, in order and without gaps.\<close>

definition arenas_ok :: "vm_state \<Rightarrow> bool" where
  "arenas_ok s \<longleftrightarrow> length (start_a s) = ARENAS \<and> length (end_a s) = ARENAS \<and>
     length (curr_a s) = ARENAS \<and> PVM_MIN_FRAGMENT_SIZE \<le> space_start s \<and>
     start_a s ! 0 = space_start s \<and> end_a s ! (ARENAS - 1) = space_end s \<and> space_end s < 2 ^ 32 \<and>
     (\<forall>k < ARENAS - 1. end_a s ! k = start_a s ! (k + 1)) \<and>
     (\<forall>k < ARENAS. start_a s ! k < end_a s ! k)"

definition heap_ok :: "vm_state \<Rightarrow> bool" where
  "heap_ok s \<longleftrightarrow> arenas_ok s \<and> (\<forall>k < ARENAS. arena_ok s k) \<and>
     live s \<subseteq> {space_start s..<space_end s} \<and>
     (\<forall>p ob. heap s p = Some ob \<longrightarrow> ob_live ob \<longrightarrow> pvm_object_is_allocated s p ob)"

lemma round_size_spec:
  assumes "0 < n" "n + 3 < 2 ^ 32"
  shows "n \<le> round_size n k \<and> round_size n k < n + 4 \<and> 4 dvd round_size n k"
proof -
  obtain m where m: "n = Suc m" using assms by (cases n) auto
  define q where "q = m div 4"
  have q: "q * 4 \<le> m" "m < 4 + q * 4"
    unfolding q_def by (simp, rule dividend_less_div_times) simp
  have "u32_sub n 1 = m" using u32_sub_le [of 1 n] assms m by simp
  moreover have "(q + 1) * 4 < 2 ^ 32" using q assms(2) m by simp
  ultimately have r: "round_size n k = (q + 1) * 4"
    unfolding round_size_def q_def by (simp only: u32_small)
  show ?thesis unfolding r using q m by simp
qed

lemma arenas_okD:
  assumes "arenas_ok s"
  shows "k < ARENAS \<Longrightarrow> start_a s ! k < end_a s ! k"
    and "Suc k < ARENAS \<Longrightarrow> end_a s ! k = start_a s ! Suc k"
    and "start_a s ! 0 = space_start s" "end_a s ! 4 = space_end s"
    and "space_end s < 2 ^ 32" "PVM_MIN_FRAGMENT_SIZE \<le> space_start s"
  using assms unfolding arenas_ok_def by (simp_all add: ARENAS_def)

lemma arena_bound_le:
  assumes "arenas_ok s" "k < ARENAS"
  shows "j < k \<Longrightarrow> end_a s ! j \<le> start_a s ! k"
  using assms(2)
proof (induction k)
  case (Suc k)
  from Suc.prems have e: "end_a s ! k = start_a s ! Suc k" by (intro arenas_okD(2) [OF assms(1)])
  show ?case
  proof (cases "j = k")
    case False
    then have "end_a s ! j \<le> start_a s ! k" using Suc by simp
    also have "\<dots> < end_a s ! k" using Suc.prems by (intro arenas_okD(1) [OF assms(1)]) simp
    finally show ?thesis using e by simp
  qed (simp add: e)
qed simp

lemma arenas_disjoint:
  assumes "arenas_ok s" "j < ARENAS" "k < ARENAS" "j \<noteq> k"
  shows "{start_a s ! j..<end_a s ! j} \<inter> {start_a s ! k..<end_a s ! k} = {}"
  using arena_bound_le [OF assms(1,3), of j] arena_bound_le [OF assms(1,2), of k] assms(4)
  by (cases "j < k") auto

lemma arena_in_space:
  assumes "arenas_ok s" "k < ARENAS"
  shows "space_start s \<le> start_a s ! k" "end_a s ! k \<le> space_end s"
proof -
  note D = arenas_okD [OF assms(1)]
  have "space_start s < end_a s ! 0" "start_a s ! 4 < space_end s"
    using D(1) [of 0] D(1) [of 4] D(3,4) by (simp_all add: ARENAS_def)
  moreover have "k = 0 \<or> end_a s ! 0 \<le> start_a s ! k" "k = 4 \<or> end_a s ! k \<le> start_a s ! 4"
    using arena_bound_le [OF assms, where j = 0] arena_bound_le [OF assms(1), where k = 4 and j = k] assms(2)
    by (force, cases "k < 4") (auto simp: ARENAS_def)
  ultimately show "space_start s \<le> start_a s ! k" "end_a s ! k \<le> space_end s"
    using D(3,4) by auto
qed

lemma arena_exists:
  assumes ok: "arenas_ok s" and p: "space_start s \<le> p" "p < space_end s"
  shows "\<exists>k < ARENAS. start_a s ! k \<le> p \<and> p < end_a s ! k"
proof (rule ccontr)
  assume none: "\<not> ?thesis"
  have "k < ARENAS \<Longrightarrow> start_a s ! k \<le> p" for k
  proof (induction k)
    case 0
    then show ?case using ok p by (simp add: arenas_ok_def)
  next
    case (Suc k)
    then have "end_a s ! k \<le> p" using none by (meson Suc_lessD not_le_imp_less)
    with arenas_okD(2) [OF ok Suc.prems] show ?case by simp
  qed
  from this [of 4] none p arenas_okD(4) [OF ok] show False by (auto simp: ARENAS_def)
qed

lemma live_curr [simp]: "live (s\<lparr>curr_a := c\<rparr>) = live s"
  by (simp add: live_def)

lemma arena_inv_curr [simp]: "arena_inv (s\<lparr>curr_a := c\<rparr>) a e bs = arena_inv s a e bs"
  by (simp add: arena_inv_def)

text \<open>The outcome of \<open>pvm_find\<close>: nothing, or a block carved out of the arena.\<close>

definition find_outcome :: "vm_state \<Rightarrow> vm_state \<Rightarrow> nat \<Rightarrow> nat \<Rightarrow> addr \<Rightarrow> bool" where
  "find_outcome s s' sz k p \<longleftrightarrow>
     (if p = 0 then arena_frame s s' (start_a s ! k) (end_a s ! k) \<and> live s' = live s
      else \<exists>t c. carved s t p sz (start_a s ! k) (end_a s ! k) \<and>
             s' = t\<lparr>curr_a := (curr_a t)[k := c]\<rparr> \<and>
             (\<exists>xs ys. arena_inv t (start_a s ! k) (end_a s ! k) (xs @ c # ys)))"

lemma carve_next:
  assumes inv: "arena_inv t start en (xs @ p # ys)"
  obtains c w' xs' ys' where "alloc_wrap_to_next_object p start en w arena t = Inr ((c, w'), t)"
    "arena_inv t start en (xs' @ c # ys')"
proof (cases ys)
  case Nil
  then obtain zs where "xs @ [p] = start # zs"
    using inv by (cases "xs @ [p]") (auto simp: arena_inv_def)
  with inv Nil alloc_wrap_spec [OF inv, of w arena] that [of start "w + 1" "[]" zs] show thesis
    by simp
next
  case (Cons y ys')
  with inv alloc_wrap_spec [OF inv, of w arena] that [of y w "xs @ [p]" ys'] show thesis by simp
qed

lemma pvm_find_spec:
  assumes ok: "arena_ok s k" and sz: "40 \<le> sz" "4 dvd sz"
  obtains p s' where "pvm_find sz k s = Inr (p, s')" "find_outcome s s' sz k p"
    "\<And>b bs. arena_inv s (start_a s ! k) (end_a s ! k) bs \<Longrightarrow> b \<in> set bs \<Longrightarrow> fits s b sz \<Longrightarrow> p \<noteq> 0"
proof -
  let ?a = "start_a s ! k" and ?e = "end_a s ! k" and ?c = "curr_a s ! k"
  from ok obtain xs ys where inv: "arena_inv s ?a ?e (xs @ ?c # ys)" by (auto simp: arena_ok_def)
  let ?N = "length (xs @ ?c # ys)" and ?n = "Suc (3 * (?e - ?a))"
  have "?N \<le> ?e - ?a" using tiles_le [OF arena_invD(1) [OF inv]] by simp
  then have "(2 - 0) * ?N + length ys + 1 < ?n" by simp
  from pvm_find_loop_spec [OF inv order_refl _ this sz, of k]
  obtain r s1 where r: "pvm_find_loop ?n sz ?a ?e k ?c 0 s = Inr (r, s1)"
    "find_result s s1 sz ?a ?e r" "(\<exists>b \<in> ahead xs ?c ys 0. fits s b sz) \<longrightarrow> r \<noteq> None"
    by (auto simp: loop_ok_def)
  have uniq: "set bs = set (xs @ ?c # ys)" if "arena_inv s ?a ?e bs" for bs
    using tiles_unique [of "heap s" ?a bs ?e "xs @ ?c # ys"] that inv
    by (simp add: arena_inv_def)
  show thesis
  proof (cases r)
    case None
    then have "pvm_find sz k s = Inr (0, s1)"
      using r(1) by (simp add: pvm_find_def comp_simps Let_def)
    moreover have "find_outcome s s1 sz k 0" using r(2) None by (simp add: find_outcome_def find_result_def)
    moreover have "\<not> fits s b sz" if "arena_inv s ?a ?e bs" "b \<in> set bs" for b bs
      using r(3) None uniq [OF that(1)] that(2) by (auto simp: ahead_def)
    ultimately show thesis using that by blast
  next
    case (Some pw)
    then obtain p w where pw: "r = Some (p, w)" by (cases pw) simp
    then have cv: "carved s s1 p sz ?a ?e" using r(2) by (simp add: find_result_def)
    then obtain xs' ys' where inv': "arena_inv s1 ?a ?e (xs' @ p # ys')" by (auto simp: carved_def)
    from carve_next [OF inv', of w k] obtain c w' xs'' ys'' where
      c: "alloc_wrap_to_next_object p ?a ?e w k s1 = Inr ((c, w'), s1)"
        "arena_inv s1 ?a ?e (xs'' @ c # ys'')" .
    have p: "p \<noteq> 0" using arena_invD(4) [OF inv'] by simp
    have "pvm_find sz k s = Inr (p, s1\<lparr>curr_a := (curr_a s1)[k := c]\<rparr>)"
      using r(1) pw p c(1) by (simp add: pvm_find_def comp_simps Let_def)
    moreover have "find_outcome s (s1\<lparr>curr_a := (curr_a s1)[k := c]\<rparr>) sz k p"
      unfolding find_outcome_def using p cv c(2) by auto
    ultimately show thesis using that p by blast
  qed
qed

section \<open>Object allocation\<close>

lemma tiles_shape:
  assumes "tiles h a bs e"
    and "\<And>b ob. b \<in> set bs \<Longrightarrow> h b = Some ob \<Longrightarrow> tile_ok ob \<Longrightarrow>
      \<exists>ob'. h' b = Some ob' \<and> tile_ok ob' \<and> exact_size ob' = exact_size ob"
  shows "tiles h' a bs e"
  using assms
proof (induction bs arbitrary: a)
  case (Cons b bs)
  then obtain ob where ob: "h a = Some ob" "tile_ok ob" "b = a" "tiles h (a + exact_size ob) bs e"
    by (auto split: option.splits)
  with Cons.prems(2) [of b ob] obtain ob' where
    "h' b = Some ob'" "tile_ok ob'" "exact_size ob' = exact_size ob" by auto
  with ob Cons.IH [OF ob(4)] Cons.prems(2) show ?case by auto
qed simp

text \<open>The state after the allocated block was turned into an object.\<close>

definition install :: "addr \<Rightarrow> nat \<Rightarrow> pvm_object_storage \<Rightarrow> vm_state \<Rightarrow> vm_state" where
  "install p n ob s = s\<lparr>heap := (\<lambda>a. if p < a \<and> a < p + sizeof_pvm_object_storage + n then None
     else ((heap s)(p \<mapsto> ob)) a)\<rparr>"

lemma arena_inv_install:
  assumes inv: "arena_inv s start en (xs @ p # ys)" and ob: "heap s p = Some ob" "ob_live ob"
    and ob': "tile_ok ob'" "ob_live ob'" "exact_size ob' = exact_size ob"
    and n: "sizeof_pvm_object_storage + n \<le> exact_size ob"
  shows "arena_inv (install p n ob' s) start en (xs @ p # ys)"
    and "live (install p n ob' s) = live s"
    and "\<And>q. q \<in> live s \<Longrightarrow> q \<noteq> p \<Longrightarrow> heap (install p n ob' s) q = heap s q"
    and "\<And>q. q \<notin> {start..<en} \<Longrightarrow> heap (install p n ob' s) q = heap s q"
proof -
  note D = arena_invD [OF inv]
  from arena_inv_tile [OF inv] ob have t: "tiles (heap s) (p + exact_size ob) ys en" by auto
  have apart: "\<not> (p < b \<and> b < p + sizeof_pvm_object_storage + n)" if "b \<in> set (xs @ p # ys)" for b
    using tiles_apart [OF D(1) ob(1), of b] that n by auto
  have inside: "q \<in> {start..<en}" if "p < q" "q < p + sizeof_pvm_object_storage + n" for q
    using that n D(2) tiles_le [OF t] by auto
  then have nl: "q \<notin> live s" if "p < q" "q < p + sizeof_pvm_object_storage + n" for q
    using that apart inv by (auto simp: arena_inv_def)
  show live: "live (install p n ob' s) = live s"
    using nl ob ob'(2) by (auto simp: live_def install_def split: if_splits)
  show "\<And>q. q \<in> live s \<Longrightarrow> q \<noteq> p \<Longrightarrow> heap (install p n ob' s) q = heap s q"
    using nl by (auto simp: install_def)
  show "\<And>q. q \<notin> {start..<en} \<Longrightarrow> heap (install p n ob' s) q = heap s q"
    using inside D(2,3) by (auto simp: install_def)
  have "tiles (heap (install p n ob' s)) start (xs @ p # ys) en"
  proof (rule tiles_shape [OF D(1)])
    fix b o1 assume "b \<in> set (xs @ p # ys)" "heap s b = Some o1" "tile_ok o1"
    then show "\<exists>o2. heap (install p n ob' s) b = Some o2 \<and> tile_ok o2 \<and> exact_size o2 = exact_size o1"
      using apart [of b] ob ob' by (auto simp: install_def)
  qed
  then show "arena_inv (install p n ob' s) start en (xs @ p # ys)"
    using inv live by (simp add: arena_inv_def)
qed

definition new_object :: "nat \<Rightarrow> 32 word \<Rightarrow> bool \<Rightarrow> pvm_object_storage \<Rightarrow> pvm_object_storage" where
  "new_object n flags sat ob = ob\<lparr>o_da_size := n, o_flags := flags,
     refCount := (if sat then INT_MAX else 1), o_da := DA_zero\<rparr>"

lemma alloc_tail:
  assumes ob: "heap s p = Some ob" and fr: "fresh_block ob sz"
  shows "thenE (update_ob p (\<lambda>ob. ob\<lparr>o_da_size := n, o_flags := flags\<rparr>))
      (thenE (whenE sat (ref_saturate_p p)) (thenE (clear_da p n) (ret p))) s =
    Inr (p, install p n (new_object n flags sat ob) s)"
proof -
  let ?ob1 = "ob\<lparr>o_da_size := n, o_flags := flags\<rparr>" and ?s1 = "put_ob p (ob\<lparr>o_da_size := n, o_flags := flags\<rparr>) s"
  let ?ob2 = "?ob1\<lparr>refCount := (if sat then INT_MAX else 1)\<rparr>"
  have "flags_settled (alloc_flags ?ob1)" using fr by (simp add: fresh_block_def flags_settled_def)
  then have "ref_saturate_p p ?s1 = Inr ((), put_ob p (?ob1\<lparr>refCount := INT_MAX\<rparr>) s)"
    using ref_saturate_p_eval [of ?s1 p ?ob1] fr by (cases ob) (simp add: fresh_block_def)
  moreover have "?ob1\<lparr>refCount := 1\<rparr> = ?ob1" using fr by (cases ob) (simp add: fresh_block_def)
  ultimately have "whenE sat (ref_saturate_p p) ?s1 = Inr ((), put_ob p ?ob2 s)"
    by (simp add: whenE_apply)
  moreover have "clear_da p n (put_ob p ?ob2 s) = Inr ((), install p n (new_object n flags sat ob) s)"
    by (simp add: clear_da_def comp_simps update_ob_def load_def put_ob_def install_def
        new_object_def fun_eq_iff)
  ultimately show ?thesis using ob by (simp add: comp_simps)
qed

lemma find_arena_less: "find_arena n fl sat < ARENAS"
  by (simp add: find_arena_def ARENAS_def)

text \<open>What a successful allocation does to the state.\<close>

definition allocated :: "vm_state \<Rightarrow> vm_state \<Rightarrow> addr \<Rightarrow> nat \<Rightarrow> 32 word \<Rightarrow> bool \<Rightarrow> bool" where
  "allocated s s' p n flags sat \<longleftrightarrow> p \<noteq> 0 \<and> p \<notin> live s \<and> live s' = insert p (live s) \<and>
     (\<forall>q. q \<in> live s \<or> q \<notin> {space_start s..<space_end s} \<longrightarrow> heap s' q = heap s q) \<and>
     s' = s\<lparr>heap := heap s', curr_a := curr_a s'\<rparr> \<and>
     (\<exists>ob. heap s' p = Some ob \<and> ob_live ob \<and> o_flags ob = flags \<and> o_da_size ob = n \<and>
        o_da ob = DA_zero \<and> gc_flags ob = 0 \<and> alloc_flags ob = AF_ALLOCATED \<and>
        refCount ob = (if sat then INT_MAX else 1))"

lemma fresh_is_allocated:
  assumes "fresh_block ob (round_size (40 + n) k)" and n: "n + 44 \<le> 2 ^ 32"
    and fit: "p + exact_size ob \<le> space_end s" "space_end s < 2 ^ 32" "44 \<le> p"
  shows "pvm_object_is_allocated s p (new_object n flags sat ob) \<and> 40 + n \<le> exact_size ob"
proof -
  let ?sz = "round_size (40 + n) k"
  have r: "40 + n \<le> ?sz" "?sz < 40 + n + 4" "4 dvd ?sz"
    using round_size_spec [of "40 + n" k] n by auto
  have e: "?sz \<le> exact_size ob" "exact_size ob < ?sz + 44" "4 dvd exact_size ob"
    using assms(1)
    by (auto simp: fresh_block_def PVM_MIN_FRAGMENT_SIZE_def sizeof_pvm_object_storage_def)
  have "4 dvd exact_size ob - ?sz" using e(3) r(3) by (rule dvd_diff_nat)
  moreover have "exact_size ob - ?sz < 44" using e by simp
  ultimately have "exact_size ob - ?sz \<le> 40" by presburger
  then have lt: "exact_size ob < n + 40 + 44" using r e by simp
  have "n + 40 + 44 < 2 ^ 32" using r e fit by simp
  then have "u32 (n + 40) = n + 40" "u32 (n + 40 + 44) = n + 40 + 44" by (simp_all add: u32_small)
  moreover have "u32_sub (space_end s) p = space_end s - p" using fit by (intro u32_sub_le) auto
  ultimately show ?thesis
    using assms(1) r e lt fit
    by (simp add: pvm_object_is_allocated_def new_object_def fresh_block_def has_flag_def
        alloc_flag_defs sizeof_pvm_object_storage_def PVM_MIN_FRAGMENT_SIZE_def INT_MAX_def)
qed

lemma heap_okD:
  assumes "heap_ok s"
  shows "arenas_ok s" "k < ARENAS \<Longrightarrow> arena_ok s k" "live s \<subseteq> {space_start s..<space_end s}"
    "heap s p = Some ob \<Longrightarrow> ob_live ob \<Longrightarrow> pvm_object_is_allocated s p ob"
  using assms unfolding heap_ok_def by blast+

text \<open>An arena is not touched by what happens in another one.\<close>

lemma arena_ok_other:
  assumes "heap_ok s" and j: "j < ARENAS" "k < ARENAS" "j \<noteq> k"
    and eq: "\<And>q. q \<notin> {start_a s ! k..<end_a s ! k} \<Longrightarrow> heap s' q = heap s q"
    and geo: "start_a s' = start_a s" "end_a s' = end_a s" "curr_a s' ! j = curr_a s ! j"
  shows "arena_ok s' j"
proof -
  from heap_okD(2) [OF assms(1) j(1)] obtain xs ys
    where inv: "arena_inv s (start_a s ! j) (end_a s ! j) (xs @ curr_a s ! j # ys)"
    by (auto simp: arena_ok_def)
  have out: "heap s' q = heap s q" if "q \<in> {start_a s ! j..<end_a s ! j}" for q
    using arenas_disjoint [OF heap_okD(1) [OF assms(1)] j] that eq by blast
  have "tiles (heap s') (start_a s ! j) (xs @ curr_a s ! j # ys) (end_a s ! j)"
    using arena_invD(1) [OF inv]
    by (rule tiles_cong) (use tiles_bounds [OF arena_invD(1) [OF inv]] out in auto)
  moreover have "live s' \<inter> {start_a s ! j..<end_a s ! j} = live s \<inter> {start_a s ! j..<end_a s ! j}"
    using out by (auto simp: live_def)
  ultimately show ?thesis using inv geo unfolding arena_ok_def arena_inv_def by metis
qed

lemma heap_ok_extend:
  assumes ok: "heap_ok s" and k: "k < ARENAS"
    and geo: "start_a s' = start_a s" "end_a s' = end_a s" "curr_a s' = (curr_a s)[k := c]"
      "space_start s' = space_start s" "space_end s' = space_end s"
    and inv: "arena_inv s' (start_a s ! k) (end_a s ! k) (xs @ c # ys)"
    and live': "live s' = insert p (live s)" and p: "p \<in> {start_a s ! k..<end_a s ! k}"
    and keep: "\<And>q. q \<in> live s \<Longrightarrow> heap s' q = heap s q"
    and out: "\<And>q. q \<notin> {start_a s ! k..<end_a s ! k} \<Longrightarrow> heap s' q = heap s q"
    and ob: "heap s' p = Some ob" "pvm_object_is_allocated s p ob"
  shows "heap_ok s'"
proof -
  note A = heap_okD(1) [OF ok]
  have len: "length (curr_a s) = ARENAS" using A by (simp add: arenas_ok_def)
  have "arena_ok s' j" if "j < ARENAS" for j
  proof (cases "j = k")
    case True
    with inv len k show ?thesis unfolding arena_ok_def geo by auto
  next
    case False
    with arena_ok_other [OF ok that k False out] geo show ?thesis by simp
  qed
  moreover have "live s' \<subseteq> {space_start s'..<space_end s'}"
    using heap_okD(3) [OF ok] live' geo arena_in_space [OF A k] p by auto
  moreover have "arenas_ok s'" using A geo by (simp add: arenas_ok_def)
  moreover have "pvm_object_is_allocated s' q o'" if "heap s' q = Some o'" "ob_live o'" for q o'
  proof (cases "q = p")
    case True
    with that ob geo show ?thesis by (simp add: pvm_object_is_allocated_def)
  next
    case False
    with that live' have "q \<in> live s" by (auto simp: live_def)
    with that keep heap_okD(4) [OF ok] geo show ?thesis by (auto simp: pvm_object_is_allocated_def)
  qed
  ultimately show ?thesis by (simp add: heap_ok_def)
qed

lemma carvedD:
  assumes "carved s t p sz a e"
  shows "t = s\<lparr>heap := heap t\<rparr>" "p \<notin> live s" "live t = insert p (live s)"
    "heap t q \<noteq> heap s q \<Longrightarrow> q \<in> {a..<e} \<and> q \<notin> live s"
    "heap t p = Some ob \<Longrightarrow> fresh_block ob sz"
  using assms unfolding carved_def arena_frame_def by auto

lemma carved_install:
  assumes ok: "heap_ok s" and k: "k < ARENAS" and n: "n + 44 \<le> 2 ^ 32"
    and cv: "carved s t p (round_size (40 + n) k) (start_a s ! k) (end_a s ! k)"
    and c: "arena_inv t (start_a s ! k) (end_a s ! k) (xs @ c # ys)" and ob: "heap t p = Some ob"
    and s': "s' = install p n (new_object n flags sat ob) (t\<lparr>curr_a := (curr_a t)[k := c]\<rparr>)"
  shows "heap_ok s' \<and> allocated s s' p n flags sat"
proof -
  let ?a = "start_a s ! k" and ?e = "end_a s ! k" and ?ob = "new_object n flags sat ob"
  let ?t = "t\<lparr>curr_a := (curr_a t)[k := c]\<rparr>"
  note t = carvedD(1-4) [OF cv] and fr = carvedD(5) [OF cv ob]
  have "40 \<le> round_size (40 + n) k" using round_size_spec [of "40 + n" k] n by auto
  note l = fresh_tile [OF fr this]
  obtain xs' ys' where inv: "arena_inv ?t ?a ?e (xs' @ p # ys')" using cv by (auto simp: carved_def)
  then have same: "xs' @ p # ys' = xs @ c # ys"
    using c by (auto simp: arena_inv_def intro: tiles_unique)
  have ob': "tile_ok ?ob" "ob_live ?ob" "exact_size ?ob = exact_size ob"
    using l by (auto simp: new_object_def tile_ok_def ob_live_def)
  from arena_inv_tile [OF inv] ob have "tiles (heap ?t) (p + exact_size ob) ys' ?e" by auto
  from tiles_le [OF this] have "p + exact_size ob \<le> space_end s" "space_end s < 2 ^ 32" "44 \<le> p"
    using arena_in_space [OF heap_okD(1) [OF ok] k] arenas_okD(5,6) [OF heap_okD(1) [OF ok]]
      arena_invD(2) [OF inv] by (auto simp: PVM_MIN_FRAGMENT_SIZE_def sizeof_pvm_object_storage_def)
  note al = fresh_is_allocated [OF fr n this, of flags sat]
  have sz: "sizeof_pvm_object_storage + n \<le> exact_size ob" and obt: "heap ?t p = Some ob"
    using al ob by (simp_all add: sizeof_pvm_object_storage_def)
  note I = arena_inv_install [OF inv obt conjunct2 [OF l] ob' sz, folded s']
  have geo: "start_a s' = start_a s" "end_a s' = end_a s" "curr_a s' = (curr_a s)[k := c]"
    "space_start s' = space_start s" "space_end s' = space_end s"
    unfolding s' install_def by (subst t(1), simp)+
  have live': "live s' = insert p (live s)" using I(2) t(3) by simp
  have keep: "heap s' q = heap s q" if "q \<in> live s" for q
  proof -
    from that t(2) have "q \<noteq> p" by auto
    with I(3) [of q] that t(3) have "heap s' q = heap t q" by simp
    with t(4) [of q] that show ?thesis by metis
  qed
  have out: "heap s' q = heap s q" if "q \<notin> {?a..<?e}" for q
    using I(4) [OF that] t(4) [of q] that by auto
  have outside: "heap s' q = heap s q" if "q \<notin> {space_start s..<space_end s}" for q
    by (rule out) (use that arena_in_space [OF heap_okD(1) [OF ok] k] in auto)
  have p': "heap s' p = Some ?ob" by (simp add: s' install_def)
  have "s' = s\<lparr>heap := heap s', curr_a := curr_a s'\<rparr>"
    unfolding s' install_def by (subst (1 3) t(1)) simp
  then have "allocated s s' p n flags sat"
    unfolding allocated_def using arena_invD(4) [OF inv] t(2) live' keep outside p' ob' fr
    by (auto simp: new_object_def fresh_block_def)
  moreover have "heap_ok s'"
    by (rule heap_ok_extend [OF ok k geo I(1) [unfolded same] live' _ keep out p' conjunct1 [OF al]])
      (use arena_invD(2,3) [OF inv] in simp)
  ultimately show ?thesis by simp
qed

lemma pvm_object_alloc_spec:
  assumes ok: "heap_ok s" and n: "n + 44 \<le> 2 ^ 32"
    and k_def: "k = find_arena (40 + n) flags sat" and sz_def: "sz = round_size (40 + n) k"
  shows "(\<exists>p s'. pvm_object_alloc n flags sat s = Inr (p, s') \<and> heap_ok s' \<and>
            allocated s s' p n flags sat) \<or>
         pvm_object_alloc n flags sat s = Inl (Panic ''out of persistent mem'') \<and>
         (\<forall>b bs. arena_inv s (start_a s ! k) (end_a s ! k) bs \<longrightarrow> b \<in> set bs \<longrightarrow> \<not> fits s b sz)"
proof -
  have u: "u32 (sizeof_pvm_object_storage + n) = 40 + n"
    using n by (simp add: sizeof_pvm_object_storage_def u32_small)
  have r: "40 \<le> sz" "4 dvd sz" using round_size_spec [of "40 + n" k] n by (auto simp: sz_def)
  have k: "k < ARENAS" by (simp add: k_def find_arena_less)
  from pvm_find_spec [OF heap_okD(2) [OF ok k] r] obtain p s1 where
    f: "pvm_find sz k s = Inr (p, s1)" "find_outcome s s1 sz k p" and
    nofit: "\<And>b bs. arena_inv s (start_a s ! k) (end_a s ! k) bs \<Longrightarrow> b \<in> set bs \<Longrightarrow> fits s b sz \<Longrightarrow> p \<noteq> 0"
    by metis
  show ?thesis
  proof (cases "p = 0")
    case True
    then have "pvm_object_alloc n flags sat s = Inl (Panic ''out of persistent mem'')"
      using f(1) unfolding sz_def k_def
      by (simp add: pvm_object_alloc_def u Let_def comp_simps pool_alloc_def)
    with nofit True show ?thesis by blast
  next
    case False
    then obtain t c xs ys where t: "carved s t p sz (start_a s ! k) (end_a s ! k)"
      "s1 = t\<lparr>curr_a := (curr_a t)[k := c]\<rparr>"
      "arena_inv t (start_a s ! k) (end_a s ! k) (xs @ c # ys)"
      using f(2) unfolding find_outcome_def by auto
    then obtain ob where ob: "heap t p = Some ob" "fresh_block ob sz" by (auto simp: carved_def)
    then have "heap s1 p = Some ob" by (simp add: t(2))
    from alloc_tail [OF this ob(2), where n = n and flags = flags and sat = sat] False f(1)
    have "pvm_object_alloc n flags sat s = Inr (p, install p n (new_object n flags sat ob) s1)"
      unfolding sz_def k_def
      by (simp add: pvm_object_alloc_def u Let_def bindE_apply pool_alloc_def)
    with carved_install [OF ok k n _ t(3) ob(1) refl, where flags = flags and sat = sat] t show ?thesis
      by (auto simp: sz_def k_def)
  qed
qed

section \<open>Layout, memory check and start-up\<close>

lemma live_tile:
  assumes "heap_ok s" "p \<in> live s"
  obtains k xs ys ob where "k < ARENAS" "heap s p = Some ob" "tile_ok ob"
    "arena_inv s (start_a s ! k) (end_a s ! k) (xs @ p # ys)"
proof -
  from heap_okD(3) [OF assms(1)] assms(2) have "space_start s \<le> p" "p < space_end s" by auto
  from arena_exists [OF heap_okD(1) [OF assms(1)] this] obtain k
    where k: "k < ARENAS" "start_a s ! k \<le> p" "p < end_a s ! k" by blast
  from heap_okD(2) [OF assms(1) k(1)] obtain bs
    where inv: "arena_inv s (start_a s ! k) (end_a s ! k) bs" by (auto simp: arena_ok_def)
  with k assms(2) have "p \<in> set bs" by (auto simp: arena_inv_def)
  then obtain xs ys where "bs = xs @ p # ys" by (auto simp: in_set_conv_decomp)
  with inv arena_inv_tile [of s _ _ xs p ys] that k(1) show thesis by metis
qed

lemma memcheck_walk_tiles:
  assumes "heap_ok s" and "tiles (heap s) a bs e" and "length bs < n"
  shows "memcheck_walk n e a s = Inr (e, s)"
  using assms(2,3)
proof (induction n arbitrary: a bs)
  case (Suc n)
  show ?case
  proof (cases bs)
    case Nil
    with Suc.prems show ?thesis by simp
  next
    case (Cons b bs')
    with Suc.prems obtain ob where ob: "heap s a = Some ob" "tile_ok ob"
      and t: "tiles (heap s) (a + exact_size ob) bs' e" by (auto split: option.splits)
    have "a < e" using tiles_bounds [OF Suc.prems(1), of b] Cons Suc.prems(1) by auto
    moreover have "has_flag (alloc_flags ob) AF_ALLOCATED \<Longrightarrow> pvm_object_is_allocated s a ob"
      using ob heap_okD(4) [OF assms(1)] by (auto simp: ob_live_def tile_ok_def)
    ultimately show ?thesis
      using ob Suc.IH [OF t] Suc.prems(2) Cons
      by (simp add: Let_def pvm_alloc_is_object_def tile_ok_def)
  qed
qed simp

lemma arena_bounds_percent:
  "arena_bounds n a percent_a = (let u = (n div 400) * 4 in
     [(a, a + 15 * u), (a + 15 * u, a + 30 * u), (a + 30 * u, a + 32 * u),
      (a + 32 * u, a + 60 * u), (a + 60 * u, a + 100 * u)])"
  by (simp add: percent_a_def Let_def)

text \<open>The state after \<^verbatim>\<open>pvm_alloc_init\<close>.\<close>

definition arena_starts :: "addr \<Rightarrow> nat \<Rightarrow> addr list" where
  "arena_starts a u = [a, a + 15 * u, a + 30 * u, a + 32 * u, a + 60 * u]"

definition arena_ends :: "addr \<Rightarrow> nat \<Rightarrow> nat \<Rightarrow> addr list" where
  "arena_ends a n u = [a + 15 * u, a + 30 * u, a + 32 * u, a + 60 * u, a + n]"

lemma pvm_alloc_init_eval:
  assumes "0 < a" "0 < n"
  shows "pvm_alloc_init a n s = Inr ((), s\<lparr>space_start := a, space_end := a + n,
    start_a := arena_starts a ((n div 400) * 4), curr_a := arena_starts a ((n div 400) * 4),
    end_a := arena_ends a n ((n div 400) * 4)\<rparr>)"
  using assms
  by (simp add: pvm_alloc_init_def init_arenas_def comp_simps arena_bounds_percent Let_def
      arena_starts_def arena_ends_def ARENAS_def percent_a_def)

text \<open>Clearing memory formats each arena as one free block.\<close>

definition formatted :: "vm_state \<Rightarrow> vm_state \<Rightarrow> nat set \<Rightarrow> bool" where
  "formatted s s' ks \<longleftrightarrow> s' = s\<lparr>heap := heap s'\<rparr> \<and>
     (\<forall>k \<in> ks. \<exists>ob. heap s' (start_a s ! k) = Some ob \<and> alloc_flags ob = AF_FREE \<and>
        object_start_marker ob = PVM_OBJECT_START_MARKER \<and>
        exact_size ob = end_a s ! k - start_a s ! k) \<and>
     (\<forall>q. q \<notin> (\<lambda>k. start_a s ! k) ` ks \<longrightarrow> heap s' q = heap s q)"

lemma init_free_format:
  assumes "40 \<le> end_a s ! k - start_a s ! k" and f: "formatted s t ks"
    and "\<And>j. j \<in> ks \<Longrightarrow> start_a s ! j \<noteq> start_a s ! k"
  shows "\<exists>t'. init_free_object_header (start_a s ! k) (end_a s ! k - start_a s ! k) t = Inr ((), t') \<and>
    formatted s t' (insert k ks)"
proof -
  have t: "t = s\<lparr>heap := heap t\<rparr>" using f by (simp add: formatted_def)
  let ?t = "put_ob (start_a s ! k) ((storage_at t (start_a s ! k))\<lparr>
     object_start_marker := PVM_OBJECT_START_MARKER, alloc_flags := AF_FREE, gc_flags := 0,
     refCount := 0, exact_size := end_a s ! k - start_a s ! k\<rparr>) t"
  have "?t = s\<lparr>heap := heap ?t\<rparr>" unfolding put_ob_def by (subst (1) t) simp
  then have "formatted s ?t (insert k ks)" using f assms(3) unfolding formatted_def by simp
  with init_free_eval [OF assms(1), of "start_a s ! k" t] show ?thesis by blast
qed

lemma init_free_format_all:
  assumes "distinct ks" "\<And>k. k \<in> set ks \<Longrightarrow> 40 \<le> end_a s ! k - start_a s ! k"
    and "inj_on (\<lambda>k. start_a s ! k) (js \<union> set ks)" "js \<inter> set ks = {}" "formatted s t js"
  shows "\<exists>t'. iterE (\<lambda>i. init_free_object_header (start_a s ! i) (end_a s ! i - start_a s ! i)) ks t =
      Inr ((), t') \<and> formatted s t' (js \<union> set ks)"
  using assms
proof (induction ks arbitrary: t js)
  case (Cons k ks)
  have "start_a s ! j \<noteq> start_a s ! k" if "j \<in> js" for j
    using inj_onD [OF Cons.prems(3), of j k] Cons.prems(4) that by auto
  with init_free_format [of s k t js] Cons.prems obtain t1 where
    t1: "init_free_object_header (start_a s ! k) (end_a s ! k - start_a s ! k) t = Inr ((), t1)"
      "formatted s t1 (insert k js)" by auto
  from Cons.IH [OF _ _ _ _ t1(2)] Cons.prems t1(1) show ?case by (auto simp: thenE_apply)
qed simp

lemma formatted_heap_ok:
  assumes f: "formatted s s' {0..<ARENAS}" and ok: "arenas_ok s" and cur: "curr_a s = start_a s"
    and empty: "heap s = Map.empty"
    and size: "\<And>k. k < ARENAS \<Longrightarrow> 40 \<le> end_a s ! k - start_a s ! k \<and> 4 dvd end_a s ! k - start_a s ! k"
  shows "heap_ok s' \<and> live s' = {}"
proof -
  have s': "s' = s\<lparr>heap := heap s'\<rparr>" using f by (simp add: formatted_def)
  have geo: "start_a s' = start_a s" "end_a s' = end_a s" "curr_a s' = start_a s"
    "space_start s' = space_start s" "space_end s' = space_end s"
    using cur by (subst s', simp)+
  have free: "alloc_flags ob = AF_FREE" if h: "heap s' q = Some ob" for q ob
  proof (cases "q \<in> (\<lambda>k. start_a s ! k) ` {0..<ARENAS}")
    case True
    then obtain k where "k \<in> {0..<ARENAS}" "q = start_a s ! k" by auto
    with f h show ?thesis unfolding formatted_def by (metis option.inject)
  next
    case False
    with f h empty have "heap s' q = None" by (simp add: formatted_def)
    with h show ?thesis by simp
  qed
  then have live: "live s' = {}" by (auto simp: live_def)
  have "arena_ok s' k" if k: "k < ARENAS" for k
  proof -
    have "k \<in> {0..<ARENAS}" using k by simp
    with f obtain ob where ob: "heap s' (start_a s ! k) = Some ob" "alloc_flags ob = AF_FREE"
      "object_start_marker ob = PVM_OBJECT_START_MARKER" "exact_size ob = end_a s ! k - start_a s ! k"
      unfolding formatted_def by blast
    have "tiles (heap s') (start_a s ! k) [start_a s ! k] (end_a s ! k)"
      using ob size [OF k] arenas_okD(1) [OF ok k] by (simp add: tile_ok_def)
    moreover have "0 < start_a s ! k" "end_a s ! k < 2 ^ 32"
      using arena_in_space [OF ok k] arenas_okD(5,6) [OF ok]
      by (auto simp: PVM_MIN_FRAGMENT_SIZE_def sizeof_pvm_object_storage_def)
    ultimately show ?thesis
      using live unfolding arena_ok_def arena_inv_def geo
      by (intro exI [of _ "[]"]) simp
  qed
  moreover have "arenas_ok s'" using ok geo cur by (simp add: arenas_ok_def)
  moreover have "\<not> ob_live ob" if "heap s' q = Some ob" for q ob
    using free [OF that] by (rule not_live_free)
  ultimately show ?thesis using live by (auto simp: heap_ok_def)
qed

lemma all_arenas: "(\<forall>k < ARENAS. P k) \<longleftrightarrow> P 0 \<and> P 1 \<and> P 2 \<and> P 3 \<and> P 4"
  "(\<forall>k < ARENAS - 1. P k) \<longleftrightarrow> P 0 \<and> P 1 \<and> P 2 \<and> P 3"
  by (auto simp: ARENAS_def eval_nat_numeral less_Suc_eq)

lemma start_up_arenas:
  assumes "44 \<le> a" "a + n < 2 ^ 32" "20 \<le> u" "100 * u \<le> n"
  shows "arenas_ok (s\<lparr>space_start := a, space_end := a + n, start_a := arena_starts a u,
    curr_a := arena_starts a u, end_a := arena_ends a n u\<rparr>)"
  using assms unfolding arenas_ok_def all_arenas
  by (simp add: arena_starts_def arena_ends_def PVM_MIN_FRAGMENT_SIZE_def
      sizeof_pvm_object_storage_def ARENAS_def)

lemma start_up_sizes:
  assumes "4 dvd n" "20 \<le> u" "100 * u \<le> n" "4 dvd u"
  shows "\<forall>k < ARENAS. 40 \<le> arena_ends a n u ! k - arena_starts a u ! k \<and>
    4 dvd arena_ends a n u ! k - arena_starts a u ! k"
  using assms unfolding all_arenas
  by (simp add: arena_starts_def arena_ends_def dvd_diff_nat)

lemma start_up:
  assumes a: "44 \<le> a" and n: "2000 \<le> n" "4 dvd n" "a + n < 2 ^ 32" and empty: "heap s = Map.empty"
  shows "\<exists>s'. thenE (pvm_alloc_init a n) pvm_alloc_clear_mem s = Inr ((), s') \<and> heap_ok s' \<and>
    live s' = {} \<and> formatted (s\<lparr>space_start := a, space_end := a + n,
      start_a := arena_starts a ((n div 400) * 4), curr_a := arena_starts a ((n div 400) * 4),
      end_a := arena_ends a n ((n div 400) * 4)\<rparr>) s' {0..<ARENAS}"
proof -
  define u where "u = (n div 400) * 4"
  let ?s = "s\<lparr>space_start := a, space_end := a + n, start_a := arena_starts a u,
    curr_a := arena_starts a u, end_a := arena_ends a n u\<rparr>"
  have u: "20 \<le> u" "100 * u \<le> n" "4 dvd u"
    using n(1) div_times_less_eq_dividend [of n 400] div_le_mono [OF n(1), of 400]
    by (auto simp: u_def)
  have e: "pvm_alloc_init a n s = Inr ((), ?s)"
    unfolding u_def by (rule pvm_alloc_init_eval) (use a n in auto)
  have ok: "arenas_ok ?s" by (rule start_up_arenas) (use a n u in auto)
  have sz: "40 \<le> end_a ?s ! k - start_a ?s ! k \<and> 4 dvd end_a ?s ! k - start_a ?s ! k"
    if "k < ARENAS" for k
    using start_up_sizes [OF n(2) u, of a] that by simp
  have "start_a ?s ! j \<noteq> start_a ?s ! k" if "j < ARENAS" "k < ARENAS" "j \<noteq> k" for j k
    using arenas_disjoint [OF ok that] arenas_okD(1) [OF ok that(1)] arenas_okD(1) [OF ok that(2)]
    by auto
  then have inj: "inj_on (\<lambda>k. start_a ?s ! k) ({} \<union> set [0..<ARENAS])"
    by (intro inj_onI) (metis Un_empty_left atLeastLessThan_iff set_upt)
  have "formatted ?s ?s {}" by (simp add: formatted_def)
  from init_free_format_all [OF _ _ inj _ this] sz obtain s' where
    s': "iterE (\<lambda>i. init_free_object_header (start_a ?s ! i) (end_a ?s ! i - start_a ?s ! i))
          [0..<ARENAS] ?s = Inr ((), s')" "formatted ?s s' {0..<ARENAS}" by auto
  have "heap_ok s' \<and> live s' = {}"
    by (rule formatted_heap_ok [OF s'(2) ok]) (use empty sz in auto)
  moreover have "pvm_alloc_clear_mem ?s = Inr ((), s')"
    using s'(1) a by (simp add: pvm_alloc_clear_mem_def comp_simps)
  ultimately show ?thesis using s'(2) by (simp add: thenE_apply e u_def)
qed

section \<open>A small object space\<close>

text \<open>An empty object space of 4000 bytes at address 4096, as start-up leaves it.\<close>

definition boot_state :: vm_state where
  "boot_state = (case thenE (pvm_alloc_init 4096 4000) pvm_alloc_clear_mem (small_state Map.empty) of
     Inl e \<Rightarrow> small_state Map.empty | Inr (u, s) \<Rightarrow> s)"

lemma boot_state_formatted:
  "heap_ok boot_state \<and> live boot_state = {} \<and> formatted ((small_state Map.empty)\<lparr>
     space_start := 4096, space_end := 8096, start_a := arena_starts 4096 40,
     curr_a := arena_starts 4096 40, end_a := arena_ends 4096 4000 40\<rparr>) boot_state {0..<ARENAS}"
  using start_up [of 4096 4000 "small_state Map.empty"] by (auto simp: boot_state_def)

lemma boot_state_geometry:
  "start_a boot_state = [4096, 4696, 5296, 5376, 6496]"
  "end_a boot_state = [4696, 5296, 5376, 6496, 8096]"
  "fits boot_state 5376 48"
proof -
  let ?s = "(small_state Map.empty)\<lparr>space_start := 4096, space_end := 8096,
    start_a := arena_starts 4096 40, curr_a := arena_starts 4096 40, end_a := arena_ends 4096 4000 40\<rparr>"
  have f: "formatted ?s boot_state {0..<ARENAS}" using boot_state_formatted by blast
  then have b: "boot_state = ?s\<lparr>heap := heap boot_state\<rparr>" by (simp add: formatted_def)
  show "start_a boot_state = [4096, 4696, 5296, 5376, 6496]"
    "end_a boot_state = [4696, 5296, 5376, 6496, 8096]"
    by (subst b, simp add: arena_starts_def arena_ends_def)+
  have "3 \<in> {0..<ARENAS}" by (simp add: ARENAS_def)
  with f obtain ob where "heap boot_state (start_a ?s ! 3) = Some ob" "alloc_flags ob = AF_FREE"
    "exact_size ob = end_a ?s ! 3 - start_a ?s ! 3" unfolding formatted_def by blast
  then show "fits boot_state 5376 48" by (simp add: fits_def arena_starts_def arena_ends_def)
qed

section \<open>Properties of the allocator\<close>

text \<open>
  C7. Start-up: dividing a sufficiently large, word-aligned object space into arenas and
  clearing memory succeeds and gives a well-formed heap without any object.
\<close>

theorem pvm_alloc_start_up:
  assumes "PVM_MIN_FRAGMENT_SIZE \<le> a" "2000 \<le> n" "4 dvd n" "a + n < 2 ^ 32" "heap s = Map.empty"
  shows "\<exists>s'. thenE (pvm_alloc_init a n) pvm_alloc_clear_mem s = Inr ((), s') \<and>
    heap_ok s' \<and> live s' = {}"
  using start_up [of a n s] assms
  by (auto simp: PVM_MIN_FRAGMENT_SIZE_def sizeof_pvm_object_storage_def)

theorem pvm_alloc_start_up_witness:
  "PVM_MIN_FRAGMENT_SIZE \<le> 4096 \<and> (2000::nat) \<le> 4000 \<and>
   (\<exists>s'. thenE (pvm_alloc_init 4096 4000) pvm_alloc_clear_mem (small_state Map.empty) =
      Inr ((), s') \<and> heap_ok s' \<and> live s' = {})"
  using pvm_alloc_start_up [of 4096 4000 "small_state Map.empty"]
  by (simp add: PVM_MIN_FRAGMENT_SIZE_def sizeof_pvm_object_storage_def)

text \<open>
  C3. Allocation in a well-formed heap either returns a fresh object or panics, and it
  panics only when no free block of the arena is large enough. The fresh object has
  the requested size and flags, a cleared data area and count 1 (or is saturated); it was
  not live before, every live object is unchanged and the heap stays well-formed.
  Sizes so large that the 32-bit size of the block wraps around (above $2^{32} - 44$) are excluded.
\<close>

theorem pvm_object_alloc_correct:
  assumes "heap_ok s" and "n + 44 \<le> 2 ^ 32"
    and "k = find_arena (40 + n) flags sat" and "sz = round_size (40 + n) k"
  shows "(\<exists>p s'. pvm_object_alloc n flags sat s = Inr (p, s') \<and> heap_ok s' \<and>
            allocated s s' p n flags sat) \<or>
         pvm_object_alloc n flags sat s = Inl (Panic ''out of persistent mem'') \<and>
         (\<forall>b bs. arena_inv s (start_a s ! k) (end_a s ! k) bs \<longrightarrow> b \<in> set bs \<longrightarrow> \<not> fits s b sz)"
  by (rule pvm_object_alloc_spec [OF assms])

lemma boot_state_tile:
  "find_arena 48 0 False = 3" "round_size 48 3 = 48"
  "\<exists>bs. arena_inv boot_state 5376 6496 bs \<and> 5376 \<in> set bs"
proof -
  show "find_arena 48 0 False = 3" by (simp add: find_arena_def has_flag_def)
  show "round_size 48 3 = 48" by (simp add: round_size_def u32_sub_def u32_def)
  have "arena_ok boot_state 3" by (rule heap_okD(2) [OF conjunct1 [OF boot_state_formatted]]) (simp add: ARENAS_def)
  then obtain bs where inv: "arena_inv boot_state 5376 6496 bs"
    by (auto simp: arena_ok_def boot_state_geometry)
  then have "5376 \<in> set bs" by (cases bs) (auto simp: arena_inv_def)
  with inv show "\<exists>bs. arena_inv boot_state 5376 6496 bs \<and> 5376 \<in> set bs" by blast
qed

theorem pvm_object_alloc_correct_witness:
  "heap_ok boot_state \<and> (\<exists>p s'. pvm_object_alloc 8 0 False boot_state = Inr (p, s') \<and>
     heap_ok s' \<and> allocated boot_state s' p 8 0 False)"
proof -
  have ok: "heap_ok boot_state" using boot_state_formatted by blast
  have sz: "3 = find_arena (40 + 8) 0 False" "48 = round_size (40 + 8) 3" "(8::nat) + 44 \<le> 2 ^ 32"
    using boot_state_tile(1,2) by simp_all
  obtain bs where "arena_inv boot_state (start_a boot_state ! 3) (end_a boot_state ! 3) bs"
    "5376 \<in> set bs" using boot_state_tile(3) boot_state_geometry by auto
  with pvm_object_alloc_correct [OF ok sz(3,1,2)] boot_state_geometry(3) ok show ?thesis by blast
qed

text \<open>
  C6. The memory consistency check passes on every arena of a well-formed heap: it walks
  over all blocks, finds every allocated object intact and stops exactly at the arena's end.
\<close>

theorem memcheck_one_passes:
  assumes "heap_ok s" and "k < ARENAS"
  shows "memcheck_one k (start_a s ! k) (end_a s ! k) s = Inr (0, s)"
proof -
  from heap_okD(2) [OF assms] obtain xs ys
    where inv: "arena_inv s (start_a s ! k) (end_a s ! k) (xs @ curr_a s ! k # ys)"
    by (auto simp: arena_ok_def)
  note t = arena_invD(1) [OF inv]
  have "length (xs @ curr_a s ! k # ys) < Suc (end_a s ! k - start_a s ! k)"
    using tiles_le [OF t] by simp
  from memcheck_walk_tiles [OF assms(1) t this] show ?thesis
    by (simp add: memcheck_one_def bindE_apply)
qed

theorem memcheck_one_passes_witness:
  "heap_ok boot_state \<and> memcheck_one 3 5376 6496 boot_state = Inr (0, boot_state)"
  using memcheck_one_passes [of boot_state 3] boot_state_formatted boot_state_geometry
  by (simp add: ARENAS_def)

lemma find_arena_from_spec:
  assumes "k \<in> set ks" "start_a s ! k \<le> p" "p < end_a s ! k"
    and "\<And>j. j \<in> set ks \<Longrightarrow> start_a s ! j \<le> p \<Longrightarrow> p < end_a s ! j \<Longrightarrow> j = k"
  shows "find_arena_from p ks s = Inr (k, s)"
  using assms(1,4)
proof (induction ks)
  case (Cons i ks)
  show ?case
  proof (cases "start_a s ! i \<le> p \<and> p < end_a s ! i")
    case True
    with Cons.prems(2) [of i] show ?thesis by simp
  next
    case False
    with assms(2,3) have "k \<noteq> i" by auto
    with Cons False show ?thesis by simp
  qed
qed simp

text \<open>
  C11. Every address of the object space belongs to exactly one arena, and
  \<^verbatim>\<open>find_arena_by_address\<close> finds it.
\<close>

theorem find_arena_by_address_correct:
  assumes "heap_ok s" and "space_start s \<le> p" and "p < space_end s"
  shows "\<exists>k. k < ARENAS \<and> find_arena_by_address p s = Inr (k, s) \<and>
    start_a s ! k \<le> p \<and> p < end_a s ! k \<and>
    (\<forall>j. j < ARENAS \<and> start_a s ! j \<le> p \<and> p < end_a s ! j \<longrightarrow> j = k)"
proof -
  note A = heap_okD(1) [OF assms(1)]
  from arena_exists [OF A assms(2,3)] obtain k
    where k: "k < ARENAS" "start_a s ! k \<le> p" "p < end_a s ! k" by blast
  have u: "j = k" if "j < ARENAS" "start_a s ! j \<le> p" "p < end_a s ! j" for j
    using arenas_disjoint [OF A that(1) k(1)] that k by (cases "j = k") auto
  have "find_arena_by_address p s = Inr (k, s)"
    unfolding find_arena_by_address_def
  proof (rule find_arena_from_spec [OF _ k(2,3)])
    fix j assume "j \<in> set [0..<ARENAS]" "start_a s ! j \<le> p" "p < end_a s ! j"
    then show "j = k" by (intro u) simp_all
  qed (simp add: k(1))
  with k u show ?thesis by blast
qed

theorem find_arena_by_address_correct_witness:
  "heap_ok boot_state \<and> (\<exists>k. find_arena_by_address 5400 boot_state = Inr (k, boot_state) \<and>
     start_a boot_state ! k \<le> 5400)"
proof -
  have "arenas_ok boot_state" using boot_state_formatted by (simp add: heap_ok_def)
  then have "space_start boot_state = 4096" "space_end boot_state = 8096"
    using arenas_okD(3,4) [of boot_state] by (simp_all add: boot_state_geometry)
  then show ?thesis
    using find_arena_by_address_correct [of boot_state 5400] boot_state_formatted by auto
qed

end
