(* ===== verification/Mark_Sweep.thy ===== *)
theory Mark_Sweep
  imports Object_Alloc
begin

text \<open>
  The stop-the-world mark and sweep collector (\<^verbatim>\<open>phantom/vm/gc.c\<close>, lines 80 to 218). The
  lemmas show that marking ends and marks exactly what is reachable from the root
  object, and that a collection frees exactly the other objects, keeps the contents of
  the survivors and leaves the heap well-formed and ready for the next collection.
\<close>

section \<open>Definitions\<close>

definition cycle_root_buffer_clear :: "unit vm" where
  "cycle_root_buffer_clear = ret ()"

text \<open>The references \<^verbatim>\<open>gc_process_children\<close> hands to its callback, class first.\<close>

definition gc_children :: "pvm_object_storage \<Rightarrow> pvm_object list vm" where
  "gc_children ob = bindE
     (if \<not> has_flag (o_flags ob) IS_INTERNAL then slots_of ob
      else bindE (class_rec_of ob) (\<lambda>c. run_iter (ic_iter c) ob))
     (\<lambda>cs. ret (o_class ob # cs))"

definition gc_process_children :: "(pvm_object \<Rightarrow> unit vm) \<Rightarrow> addr \<Rightarrow> unit vm" where
  "gc_process_children f p = bindE (load p) (\<lambda>ob. bindE (gc_children ob) (iterE f))"

text \<open>\<open>mt\<close> is the recursive \<^verbatim>\<open>mark_tree\<close>.\<close>

definition mark_unmarked :: "(addr \<Rightarrow> unit vm) \<Rightarrow> addr \<Rightarrow> unit vm" where
  "mark_unmarked mt a = bindE (load a) (\<lambda>ob. bindE (gets gc_flags_last_generation) (\<lambda>g.
     whenE (gc_flags ob \<noteq> g) (mt a)))"

definition mark_tree_o :: "(addr \<Rightarrow> unit vm) \<Rightarrow> pvm_object \<Rightarrow> unit vm" where
  "mark_tree_o mt r =
     (if ob_data r = 0 then ret ()
      else thenE (mark_unmarked mt (ob_data r)) (mark_unmarked mt (ob_interface r)))"

definition mark_tree_step :: "(addr \<Rightarrow> unit vm) \<Rightarrow> addr \<Rightarrow> unit vm" where
  "mark_tree_step mt p = bindE (gets gc_flags_last_generation) (\<lambda>g.
     thenE (update_ob p (\<lambda>ob. ob\<lparr>gc_flags := g\<rparr>))
     (bindE (load p) (\<lambda>ob.
       thenE (assertE ''object_start_marker'' (object_start_marker ob = PVM_OBJECT_START_MARKER))
      (thenE (assertE ''ALLOCATED'' (has_flag (alloc_flags ob) AF_ALLOCATED))
      (whenE (\<not> has_flag (o_flags ob) IS_CHILDFREE)
        (gc_process_children (mark_tree_o mt) p))))))"

primrec mark_tree :: "nat \<Rightarrow> addr \<Rightarrow> unit vm" where
  "mark_tree 0 = (\<lambda>p. raise Diverges)"
| "mark_tree (Suc n) = (\<lambda>p. mark_tree_step (mark_tree n) p)"

text \<open>One round of the sweep, at an object that is an object.\<close>

definition sweep_one :: "addr \<Rightarrow> nat vm" where
  "sweep_one cur = bindE (load cur) (\<lambda>ob. bindE (gets gc_flags_last_generation) (\<lambda>g.
     thenE (assertE ''object_start_marker'' (object_start_marker ob = PVM_OBJECT_START_MARKER))
      (if gc_flags ob \<noteq> g \<and> alloc_flags ob \<noteq> AF_FREE
       then thenE (whenE (has_flag (o_flags ob) IS_FINALIZER) (run_finalizer ob cur))
           (thenE (update_ob cur (\<lambda>o'. o'\<lparr>refCount := 0, alloc_flags := AF_FREE\<rparr>)) (ret 1))
       else ret 0)))"

primrec free_unmarked_loop :: "nat \<Rightarrow> addr \<Rightarrow> addr \<Rightarrow> nat \<Rightarrow> nat vm" where
  "free_unmarked_loop 0 cur en freed = raise Diverges"
| "free_unmarked_loop (Suc n) cur en freed =
     (if cur < en
      then bindE (sweep_one cur) (\<lambda>k. bindE (load cur) (\<lambda>ob.
             free_unmarked_loop n (cur + exact_size ob) en (freed + k)))
      else ret freed)"

definition free_unmarked :: "nat vm" where
  "free_unmarked = (\<lambda>s. free_unmarked_loop (Suc (space_end s - space_start s))
     (space_start s) (space_end s) 0 s)"

definition bump_generation :: "u8 \<Rightarrow> u8" where
  "bump_generation g = (if g + 1 = 0 then g + 1 + 1 else g + 1)"

text \<open>
  A collection, run by one thread: the test for a concurrent run that finished while
  the lock was awaited cannot fire. The result is the number of freed objects.
\<close>

definition run_gc :: "nat vm" where
  "run_gc =
     thenE (modify (\<lambda>s. s\<lparr>gc_n_run := gc_n_run s + 1,
                         gc_flags_last_generation := bump_generation (gc_flags_last_generation s)\<rparr>))
    (thenE cycle_root_buffer_clear
    (bindE get_root_object_storage (\<lambda>r. \<lambda>s.
       thenE (mark_tree (Suc (space_end s - space_start s)) r) free_unmarked s)))"

section \<open>Edges and reachability\<close>

text \<open>The objects marking visits from \<open>p\<close>: object and interface of every reference.\<close>

definition refs_of :: "pvm_object list \<Rightarrow> addr list" where
  "refs_of cs = concat (map (\<lambda>r. [ob_data r, ob_interface r]) (filter (\<lambda>r. ob_data r \<noteq> 0) cs))"

definition gc_edges :: "vm_state \<Rightarrow> addr \<Rightarrow> addr list" where
  "gc_edges s p = (case heap s p of None \<Rightarrow> []
     | Some ob \<Rightarrow> if has_flag (o_flags ob) IS_CHILDFREE then []
        else case gc_children ob s of Inl e \<Rightarrow> []
             | Inr (cs, s') \<Rightarrow> refs_of cs)"

definition gc_rel :: "vm_state \<Rightarrow> (addr \<times> addr) set" where
  "gc_rel s = {(p, q). q \<in> set (gc_edges s p)}"

definition gc_reach :: "vm_state \<Rightarrow> addr \<Rightarrow> addr set" where
  "gc_reach s p = (gc_rel s)\<^sup>* `` {p}"

text \<open>An object marking can pass through.\<close>

definition gc_node_ok :: "vm_state \<Rightarrow> addr \<Rightarrow> bool" where
  "gc_node_ok s p \<longleftrightarrow> (\<exists>ob. heap s p = Some ob \<and> ob_live ob \<and>
     (\<not> has_flag (o_flags ob) IS_CHILDFREE \<longrightarrow> (\<exists>cs. gc_children ob s = Inr (cs, s))))"

definition marked :: "vm_state \<Rightarrow> addr set" where
  "marked s = {p. \<exists>ob. heap s p = Some ob \<and> gc_flags ob = gc_flags_last_generation s}"

text \<open>What marking changes: the mark of some objects.\<close>

definition mark_frame :: "vm_state \<Rightarrow> vm_state \<Rightarrow> bool" where
  "mark_frame s s' \<longleftrightarrow> s' = s\<lparr>heap := heap s'\<rparr> \<and>
     (\<forall>q. heap s' q = heap s q \<or>
        (\<exists>ob. heap s q = Some ob \<and> heap s' q = Some (ob\<lparr>gc_flags := gc_flags_last_generation s\<rparr>)))"

lemma gc_children_cong:
  assumes "body ob = body ob'"
  shows "gc_children ob = gc_children ob'"
proof -
  have "o_flags ob = o_flags ob'" "o_class ob = o_class ob'" using assms by (auto simp: body_def)
  then show ?thesis
    unfolding gc_children_def slots_of_cong [OF assms] class_rec_of_cong [OF assms]
      run_iter_cong [OF assms] by simp
qed

lemma reader_gc_children [readers]: "body_reader (gc_children ob)"
  unfolding gc_children_def by (intro readers)

lemma mark_frame_refl [simp]: "mark_frame s s"
  by (simp add: mark_frame_def)

lemma mark_frame_gen:
  "mark_frame s s' \<Longrightarrow> gc_flags_last_generation s' = gc_flags_last_generation s"
  unfolding mark_frame_def by (cases s; cases s') simp

lemma mark_frame_at:
  "mark_frame s s' \<Longrightarrow> heap s' q = heap s q \<or> (\<exists>ob. heap s q = Some ob \<and>
     heap s' q = Some (ob\<lparr>gc_flags := gc_flags_last_generation s\<rparr>))"
  by (simp add: mark_frame_def)

lemma mark_frame_trans:
  assumes 1: "mark_frame s t" and 2: "mark_frame t u"
  shows "mark_frame s u"
  unfolding mark_frame_def
proof (intro conjI allI)
  show "u = s\<lparr>heap := heap u\<rparr>"
    using 1 2 unfolding mark_frame_def by (cases s; cases t; cases u) simp
  fix q
  show "heap u q = heap s q \<or> (\<exists>ob. heap s q = Some ob \<and>
      heap u q = Some (ob\<lparr>gc_flags := gc_flags_last_generation s\<rparr>))"
  proof (cases "heap t q = heap s q")
    case True
    with mark_frame_at [OF 2, of q] mark_frame_gen [OF 1] show ?thesis by simp
  next
    case False
    with mark_frame_at [OF 1, of q] mark_frame_at [OF 2, of q] mark_frame_gen [OF 1]
    show ?thesis by auto
  qed
qed

lemma mark_frame_body_eq:
  assumes "mark_frame s s'"
  shows "body_eq s s'"
  unfolding body_eq_def
proof (intro conjI allI)
  show "sizeof_da s = sizeof_da s'"
    using assms unfolding mark_frame_def by (cases s; cases s') simp
  fix p
  from mark_frame_at [OF assms, of p] show "map_option body (heap s p) = map_option body (heap s' p)"
    by (auto simp: body_def)
qed

lemma mark_frame_live:
  assumes "mark_frame s s'"
  shows "live s' = live s"
proof (intro set_eqI)
  fix p
  from mark_frame_at [OF assms, of p] show "p \<in> live s' \<longleftrightarrow> p \<in> live s"
    by (elim disjE exE conjE) (simp_all add: live_def ob_live_def)
qed

lemma mark_frame_marked:
  assumes "mark_frame s s'"
  shows "marked s \<subseteq> marked s'"
proof
  fix p assume p: "p \<in> marked s"
  from mark_frame_at [OF assms, of p] p mark_frame_gen [OF assms] show "p \<in> marked s'"
    by (elim disjE exE conjE) (simp_all add: marked_def)
qed

lemma gc_node_ok_body_eq:
  assumes eq: "body_eq s t" and ok: "gc_node_ok s p" and live: "p \<in> live t"
  shows "gc_node_ok t p" and "gc_edges t p = gc_edges s p"
proof -
  from ok obtain ob where ob: "heap s p = Some ob"
    and c: "\<not> has_flag (o_flags ob) IS_CHILDFREE \<Longrightarrow> \<exists>cs. gc_children ob s = Inr (cs, s)"
    by (auto simp: gc_node_ok_def)
  from body_eq_Some [OF eq ob] obtain ob' where ob': "heap t p = Some ob'" "body ob' = body ob" .
  then have fl: "o_flags ob' = o_flags ob" by (simp add: body_def)
  have "gc_children ob' t = Inr (cs, t)" if "gc_children ob s = Inr (cs, s)" for cs
    using body_reader_cong [OF reader_gc_children eq that] gc_children_cong [OF ob'(2)] by simp
  with c ob ob' fl live show "gc_node_ok t p" "gc_edges t p = gc_edges s p"
    by (auto simp: gc_node_ok_def gc_edges_def live_def)
qed

section \<open>Marking\<close>

text \<open>
  \<open>R\<close> is a set of objects that marking can pass through and does not leave.
\<close>

definition mark_region :: "vm_state \<Rightarrow> addr set \<Rightarrow> bool" where
  "mark_region s R \<longleftrightarrow> finite R \<and> (\<forall>q \<in> R. gc_node_ok s q \<and> set (gc_edges s q) \<subseteq> R)"

text \<open>
  The promise of one call that visits the objects \<open>A\<close>: they are marked, what is newly
  marked is reachable from \<open>A\<close>, and everything a newly marked object refers to is marked.
\<close>

definition mark_post :: "vm_state \<Rightarrow> vm_state \<Rightarrow> addr set \<Rightarrow> bool" where
  "mark_post s s' A \<longleftrightarrow> mark_frame s s' \<and> A \<subseteq> marked s' \<and>
     (\<forall>q \<in> marked s' - marked s. set (gc_edges s q) \<subseteq> marked s') \<and>
     marked s' - marked s \<subseteq> (gc_rel s)\<^sup>* `` A"

definition mark_spec :: "nat \<Rightarrow> (addr \<Rightarrow> unit vm) \<Rightarrow> bool" where
  "mark_spec n mt \<longleftrightarrow> (\<forall>s R p. mark_region s R \<longrightarrow> p \<in> R \<longrightarrow> p \<notin> marked s \<longrightarrow>
     card (R - marked s) \<le> n \<longrightarrow> (\<exists>s'. mt p s = Inr ((), s') \<and> mark_post s s' {p}))"

lemma mark_region_frame:
  assumes fr: "mark_frame s t" and R: "mark_region s R"
  shows "mark_region t R" and "q \<in> R \<Longrightarrow> gc_edges t q = gc_edges s q"
proof -
  have "gc_node_ok t q \<and> gc_edges t q = gc_edges s q" if "q \<in> R" for q
  proof -
    have ok: "gc_node_ok s q" using R that by (simp add: mark_region_def)
    then have "q \<in> live t" using mark_frame_live [OF fr] by (auto simp: gc_node_ok_def live_def)
    from gc_node_ok_body_eq [OF mark_frame_body_eq [OF fr] ok this] show ?thesis by simp
  qed
  with R show "mark_region t R" "q \<in> R \<Longrightarrow> gc_edges t q = gc_edges s q"
    by (auto simp: mark_region_def)
qed

lemma region_reach:
  assumes "mark_region s R" "a \<in> R" "(a, q) \<in> (gc_rel s)\<^sup>*"
  shows "q \<in> R"
  using assms(3)
proof (induction rule: rtrancl_induct)
  case (step y z)
  then show ?case using assms(1) by (auto simp: mark_region_def gc_rel_def)
qed (rule assms(2))

lemma region_rel_frame:
  assumes fr: "mark_frame s t" and R: "mark_region s R" and a: "a \<in> R" and r: "(a, q) \<in> (gc_rel t)\<^sup>*"
  shows "(a, q) \<in> (gc_rel s)\<^sup>*"
  using r
proof (induction rule: rtrancl_induct)
  case (step y z)
  have "y \<in> R" using region_reach [OF R a step.IH] .
  with mark_region_frame(2) [OF fr R this] step(2) have "(y, z) \<in> gc_rel s" by (simp add: gc_rel_def)
  with step.IH show ?case by (rule rtrancl_into_rtrancl)
qed simp

lemma mark_post_trans:
  assumes R: "mark_region s R" "A \<subseteq> R" "B \<subseteq> R"
    and 1: "mark_post s t A" and 2: "mark_post t u B"
  shows "mark_post s u (A \<union> B)"
proof -
  have f1: "mark_frame s t" and f2: "mark_frame t u" using 1 2 by (auto simp: mark_post_def)
  have sub: "marked t \<subseteq> marked u" using mark_frame_marked [OF f2] .
  have r1: "marked t - marked s \<subseteq> (gc_rel s)\<^sup>* `` A" using 1 by (simp add: mark_post_def)
  have r2: "marked u - marked t \<subseteq> (gc_rel s)\<^sup>* `` B"
    using 2 region_rel_frame [OF f1 R(1)] R(3) unfolding mark_post_def by blast
  have R2: "marked u - marked t \<subseteq> R" using r2 region_reach [OF R(1)] R(3) by blast
  have "set (gc_edges s q) \<subseteq> marked u" if "q \<in> marked u - marked s" for q
  proof (cases "q \<in> marked t")
    case True
    with that 1 sub show ?thesis unfolding mark_post_def by blast
  next
    case False
    with that R2 have "gc_edges t q = gc_edges s q" using mark_region_frame(2) [OF f1 R(1)] by blast
    moreover have "set (gc_edges t q) \<subseteq> marked u"
      using that False 2 unfolding mark_post_def by blast
    ultimately show ?thesis by simp
  qed
  moreover have "marked u - marked s \<subseteq> (gc_rel s)\<^sup>* `` (A \<union> B)" using r1 r2 by blast
  moreover have "A \<union> B \<subseteq> marked u" using 1 2 sub by (auto simp: mark_post_def)
  ultimately show ?thesis using mark_frame_trans [OF f1 f2] by (simp add: mark_post_def)
qed

lemma mark_post_refl: "mark_post s s {}" "a \<in> marked s \<Longrightarrow> mark_post s s {a}"
  by (auto simp: mark_post_def)

lemma card_unmarked_mono:
  assumes "mark_frame s t" "finite R"
  shows "card (R - marked t) \<le> card (R - marked s)"
  using mark_frame_marked [OF assms(1)] assms(2) by (intro card_mono) auto

lemma mark_unmarked_spec:
  assumes mt: "mark_spec n mt" and R: "mark_region s R" and a: "a \<in> R"
    and n: "card (R - marked s) \<le> n"
  shows "\<exists>s'. mark_unmarked mt a s = Inr ((), s') \<and> mark_post s s' {a}"
proof -
  from R a obtain ob where ob: "heap s a = Some ob" by (auto simp: mark_region_def gc_node_ok_def)
  show ?thesis
  proof (cases "a \<in> marked s")
    case True
    with ob have "mark_unmarked mt a s = Inr ((), s)"
      by (simp add: mark_unmarked_def comp_simps marked_def)
    with mark_post_refl(2) [OF True] show ?thesis by blast
  next
    case False
    with ob have "mark_unmarked mt a s = mt a s"
      by (simp add: mark_unmarked_def comp_simps marked_def)
    with mt R a False n show ?thesis unfolding mark_spec_def by metis
  qed
qed

lemma mark_tree_o_spec:
  assumes mt: "mark_spec n mt" and R: "mark_region s R" and n: "card (R - marked s) \<le> n"
    and r: "ob_data r \<noteq> 0 \<Longrightarrow> {ob_data r, ob_interface r} \<subseteq> R"
  shows "\<exists>s'. mark_tree_o mt r s = Inr ((), s') \<and>
    mark_post s s' (if ob_data r = 0 then {} else {ob_data r, ob_interface r})"
proof (cases "ob_data r = 0")
  case True
  then show ?thesis using mark_post_refl by (simp add: mark_tree_o_def)
next
  case False
  with r have m: "ob_data r \<in> R" "ob_interface r \<in> R" by auto
  from mark_unmarked_spec [OF mt R m(1) n] obtain t
    where t: "mark_unmarked mt (ob_data r) s = Inr ((), t)" "mark_post s t {ob_data r}" by blast
  then have f: "mark_frame s t" by (simp add: mark_post_def)
  have "card (R - marked t) \<le> n"
    using card_unmarked_mono [OF f] R n by (fastforce simp: mark_region_def)
  from mark_unmarked_spec [OF mt mark_region_frame(1) [OF f R] m(2) this] obtain u
    where u: "mark_unmarked mt (ob_interface r) t = Inr ((), u)" "mark_post t u {ob_interface r}" by blast
  from mark_post_trans [OF R _ _ t(2) u(2)] m t(1) u(1) False show ?thesis
    by (simp add: mark_tree_o_def thenE_apply insert_commute)
qed

lemma mark_iter:
  assumes mt: "mark_spec n mt"
  shows "mark_region s R \<Longrightarrow> card (R - marked s) \<le> n \<Longrightarrow> set (refs_of cs) \<subseteq> R \<Longrightarrow>
    \<exists>s'. iterE (mark_tree_o mt) cs s = Inr ((), s') \<and> mark_post s s' (set (refs_of cs))"
proof (induction cs arbitrary: s)
  case Nil
  then show ?case using mark_post_refl by (simp add: refs_of_def)
next
  case (Cons r cs)
  let ?A = "if ob_data r = 0 then {} else {ob_data r, ob_interface r}"
  have set: "set (refs_of (r # cs)) = ?A \<union> set (refs_of cs)" by (auto simp: refs_of_def)
  then have A: "?A \<subseteq> R" "set (refs_of cs) \<subseteq> R" "set (refs_of (r # cs)) = ?A \<union> set (refs_of cs)"
    using Cons.prems(3) by (auto simp only:)
  have "ob_data r \<noteq> 0 \<Longrightarrow> {ob_data r, ob_interface r} \<subseteq> R" using A(1) by simp
  from mark_tree_o_spec [OF mt Cons.prems(1,2) this] obtain t
    where t: "mark_tree_o mt r s = Inr ((), t)" "mark_post s t ?A" by blast
  then have f: "mark_frame s t" by (simp add: mark_post_def)
  have "card (R - marked t) \<le> n"
    using card_unmarked_mono [OF f] Cons.prems by (fastforce simp: mark_region_def)
  from Cons.IH [OF mark_region_frame(1) [OF f Cons.prems(1)] this A(2)] obtain u
    where u: "iterE (mark_tree_o mt) cs t = Inr ((), u)" "mark_post t u (set (refs_of cs))" by blast
  from mark_post_trans [OF Cons.prems(1) A(1,2) t(2) u(2)] t(1) u(1) show ?case
    unfolding A(3) by (simp add: thenE_apply)
qed

lemma mark_self:
  assumes ob: "heap s p = Some ob" and g: "gc_flags_last_generation s = g"
  defines "t \<equiv> put_ob p (ob\<lparr>gc_flags := g\<rparr>) s"
  shows "mark_frame s t" "marked t = insert p (marked s)" "gc_flags_last_generation t = g"
  using ob g by (auto simp: t_def put_ob_def mark_frame_def marked_def)

lemma mark_post_step:
  assumes R: "mark_region s R" "p \<in> R" and f: "mark_frame s t" "marked t = insert p (marked s)"
    and u: "mark_post t u (set (gc_edges s p))"
  shows "mark_post s u {p}"
proof -
  have E: "set (gc_edges s p) \<subseteq> R" using R by (simp add: mark_region_def)
  have fu: "mark_frame t u" using u by (simp add: mark_post_def)
  have sub: "marked t \<subseteq> marked u" using mark_frame_marked [OF fu] .
  have e: "set (gc_edges s p) \<subseteq> marked u" using u by (simp add: mark_post_def)
  have r: "marked u - marked t \<subseteq> (gc_rel s)\<^sup>* `` set (gc_edges s p)"
    using u region_rel_frame [OF f(1) R(1)] E unfolding mark_post_def by blast
  have "set (gc_edges s q) \<subseteq> marked u" if "q \<in> marked u - marked s" for q
  proof (cases "q = p")
    case False
    with that f(2) have q: "q \<in> marked u - marked t" by auto
    with r region_reach [OF R(1)] E have "q \<in> R" by blast
    with mark_region_frame(2) [OF f(1) R(1)] have "gc_edges t q = gc_edges s q" by blast
    with q u show ?thesis unfolding mark_post_def by metis
  qed (use e in simp)
  moreover have "marked u - marked s \<subseteq> (gc_rel s)\<^sup>* `` {p}"
  proof
    fix q assume q: "q \<in> marked u - marked s"
    show "q \<in> (gc_rel s)\<^sup>* `` {p}"
    proof (cases "q = p")
      case False
      with q f(2) r obtain y where y: "y \<in> set (gc_edges s p)" "(y, q) \<in> (gc_rel s)\<^sup>*" by blast
      then have "(p, y) \<in> gc_rel s" by (simp add: gc_rel_def)
      with y(2) show ?thesis by (blast intro: converse_rtrancl_into_rtrancl)
    qed simp
  qed
  moreover have "p \<in> marked u" using sub f(2) by blast
  ultimately show ?thesis using mark_frame_trans [OF f(1) fu] by (simp add: mark_post_def)
qed

theorem mark_tree_correct: "mark_spec n (mark_tree n)"
proof (induction n)
  case 0
  then show ?case by (auto simp: mark_spec_def mark_region_def)
next
  case (Suc n)
  show ?case
    unfolding mark_spec_def
  proof (intro allI impI)
    fix s R p
    assume R: "mark_region s R" and p: "p \<in> R" "p \<notin> marked s" and c: "card (R - marked s) \<le> Suc n"
    then obtain ob where ob: "heap s p = Some ob" "ob_live ob"
      and ch: "\<not> has_flag (o_flags ob) IS_CHILDFREE \<Longrightarrow> \<exists>cs. gc_children ob s = Inr (cs, s)"
      by (auto simp: mark_region_def gc_node_ok_def)
    let ?g = "gc_flags_last_generation s" and ?ob = "ob\<lparr>gc_flags := gc_flags_last_generation s\<rparr>"
    let ?t = "put_ob p ?ob s"
    note t = mark_self [OF ob(1) refl]
    have "R - marked ?t = (R - marked s) - {p}" using t(2) by auto
    then have n: "card (R - marked ?t) \<le> n"
      using c p R by (simp add: mark_region_def card_Diff_singleton)
    have step: "mark_tree (Suc n) p s = whenE (\<not> has_flag (o_flags ob) IS_CHILDFREE)
        (gc_process_children (mark_tree_o (mark_tree n)) p) ?t"
      using ob by (simp add: mark_tree_step_def comp_simps ob_live_def)
    show "\<exists>s'. mark_tree (Suc n) p s = Inr ((), s') \<and> mark_post s s' {p}"
    proof (cases "has_flag (o_flags ob) IS_CHILDFREE")
      case True
      then have "gc_edges s p = []" using ob by (simp add: gc_edges_def)
      with mark_post_step [OF R p(1) t(1,2), of ?t] mark_post_refl(1) [of ?t] True step show ?thesis
        by (auto simp: whenE_apply)
    next
      case False
      with ch obtain cs where cs: "gc_children ob s = Inr (cs, s)" by blast
      have "gc_children ?ob ?t = Inr (cs, ?t)"
        using body_reader_cong [OF reader_gc_children mark_frame_body_eq [OF t(1)] cs]
          gc_children_cong [of ?ob ob] by (simp add: body_def)
      then have s2: "mark_tree (Suc n) p s = iterE (mark_tree_o (mark_tree n)) cs ?t"
        using step False by (simp add: whenE_apply gc_process_children_def bindE_apply)
      have e: "gc_edges s p = refs_of cs" using ob False cs by (simp add: gc_edges_def)
      then have "set (refs_of cs) \<subseteq> R" using R p(1) unfolding mark_region_def by metis
      from mark_iter [OF Suc.IH mark_region_frame(1) [OF t(1) R] n this] obtain u
        where "iterE (mark_tree_o (mark_tree n)) cs ?t = Inr ((), u)" "mark_post ?t u (set (refs_of cs))"
        by blast
      with mark_post_step [OF R p(1) t(1,2), of u] s2 e show ?thesis by simp
    qed
  qed
qed

text \<open>Marking from \<open>p\<close> when nothing that is reachable carries the mark yet.\<close>

lemma mark_tree_reach:
  assumes R: "mark_region s (gc_reach s p)" and none: "gc_reach s p \<inter> marked s = {}"
    and n: "card (gc_reach s p) \<le> n"
  obtains s' where "mark_tree n p s = Inr ((), s')" "mark_frame s s'"
    "marked s' = marked s \<union> gc_reach s p"
proof -
  have p: "p \<in> gc_reach s p" by (simp add: gc_reach_def)
  then have "p \<notin> marked s" "card (gc_reach s p - marked s) \<le> n"
    using none n by (auto simp: Diff_triv)
  then obtain s' where s': "mark_tree n p s = Inr ((), s')" "mark_post s s' {p}"
    using mark_tree_correct R p unfolding mark_spec_def by blast
  have "gc_reach s p \<subseteq> marked s'"
  proof
    fix q assume "q \<in> gc_reach s p"
    then have "(p, q) \<in> (gc_rel s)\<^sup>*" by (simp add: gc_reach_def)
    then show "q \<in> marked s'"
    proof (induction rule: rtrancl_induct)
      case base
      then show ?case using s'(2) by (simp add: mark_post_def)
    next
      case (step y z)
      have "y \<notin> marked s" using step(1) none by (auto simp: gc_reach_def)
      with step s'(2) show ?case by (auto simp: mark_post_def gc_rel_def)
    qed
  qed
  moreover have "marked s' \<subseteq> marked s \<union> gc_reach s p" "marked s \<subseteq> marked s'" "mark_frame s s'"
    using s'(2) mark_frame_marked by (auto simp: mark_post_def gc_reach_def)
  ultimately show thesis using that s'(1) by blast
qed

section \<open>Sweeping\<close>

definition garbage :: "vm_state \<Rightarrow> addr \<Rightarrow> bool" where
  "garbage s b \<longleftrightarrow> b \<in> live s \<and> b \<notin> marked s"

definition swept :: "vm_state \<Rightarrow> addr \<Rightarrow> pvm_object_storage option" where
  "swept s b = (if garbage s b
     then map_option (\<lambda>ob. ob\<lparr>refCount := 0, alloc_flags := AF_FREE\<rparr>) (heap s b) else heap s b)"

text \<open>The class of an object with a finalizer can be read.\<close>

definition finalizer_ok :: "vm_state \<Rightarrow> addr \<Rightarrow> bool" where
  "finalizer_ok s b \<longleftrightarrow> (\<forall>ob. heap s b = Some ob \<longrightarrow> has_flag (o_flags ob) IS_FINALIZER \<longrightarrow>
     (\<exists>c. class_rec_of ob s = Inr (c, s)))"

lemma finalizer_ok_body_eq:
  assumes "body_eq s t" "finalizer_ok s b"
  shows "finalizer_ok t b"
  unfolding finalizer_ok_def
proof (intro allI impI)
  fix ob assume ob: "heap t b = Some ob" "has_flag (o_flags ob) IS_FINALIZER"
  from body_eq_Some [OF body_eq_sym [OF assms(1)] ob(1)] obtain ob'
    where ob': "heap s b = Some ob'" "body ob' = body ob" .
  then have "o_flags ob' = o_flags ob" by (simp add: body_def)
  with assms(2) ob ob' obtain c where "class_rec_of ob' s = Inr (c, s)"
    by (auto simp: finalizer_ok_def)
  from body_reader_cong [OF reader_class_rec_of assms(1) this] class_rec_of_cong [OF ob'(2)]
  show "\<exists>c. class_rec_of ob t = Inr (c, t)" by auto
qed

lemma sweep_one_spec:
  assumes ob: "heap s b = Some ob" "tile_ok ob" and fin: "garbage s b \<Longrightarrow> finalizer_ok s b"
  shows "\<exists>xs. sweep_one b s = Inr (if garbage s b then 1 else 0,
    s\<lparr>heap := (heap s)(b := swept s b), finalized := xs\<rparr>)"
proof (cases "garbage s b")
  case True
  then have g: "gc_flags ob \<noteq> gc_flags_last_generation s" "alloc_flags ob \<noteq> AF_FREE"
    using ob by (auto simp: garbage_def marked_def live_def)
  have "\<exists>xs. whenE (has_flag (o_flags ob) IS_FINALIZER) (run_finalizer ob b) s =
      Inr ((), s\<lparr>finalized := xs\<rparr>)"
  proof (cases "has_flag (o_flags ob) IS_FINALIZER")
    case True
    with fin [OF \<open>garbage s b\<close>] ob(1) obtain c where "class_rec_of ob s = Inr (c, s)"
      by (auto simp: finalizer_ok_def)
    from run_finalizer_spec [OF this, of b] True show ?thesis by (auto simp: whenE_apply)
  next
    case False
    then show ?thesis by (intro exI [of _ "finalized s"]) (simp add: whenE_apply)
  qed
  then obtain xs where w: "whenE (has_flag (o_flags ob) IS_FINALIZER) (run_finalizer ob b) s =
      Inr ((), s\<lparr>finalized := xs\<rparr>)" by blast
  have "sweep_one b s = Inr (1,
      put_ob b (ob\<lparr>refCount := 0, alloc_flags := AF_FREE\<rparr>) (s\<lparr>finalized := xs\<rparr>))"
    using ob g w by (simp add: sweep_one_def bindE_apply thenE_apply assertE_apply tile_ok_def)
  moreover have "put_ob b (ob\<lparr>refCount := 0, alloc_flags := AF_FREE\<rparr>) (s\<lparr>finalized := xs\<rparr>) =
      s\<lparr>heap := (heap s)(b := swept s b), finalized := xs\<rparr>"
    using True ob(1) by (cases s) (simp add: put_ob_def swept_def)
  ultimately show ?thesis using True by auto
next
  case False
  then have "gc_flags ob = gc_flags_last_generation s \<or> alloc_flags ob = AF_FREE"
    using ob by (auto simp: garbage_def marked_def live_def tile_ok_def ob_live_def)
  then have "sweep_one b s = Inr (0, s)"
    using ob by (auto simp: sweep_one_def comp_simps tile_ok_def)
  with False show ?thesis
    by (intro exI [of _ "finalized s"]) (simp add: swept_def)
qed

lemma sweep_step_frame:
  assumes "s' = s\<lparr>heap := (heap s)(b := swept s b), finalized := xs\<rparr>"
  shows "body_eq s s'" and "c \<noteq> b \<Longrightarrow> garbage s' c = garbage s c" and "c \<noteq> b \<Longrightarrow> swept s' c = swept s c"
    and "heap s b = Some ob \<Longrightarrow> \<exists>ob'. heap s' b = Some ob' \<and> exact_size ob' = exact_size ob"
  by (auto simp: assms body_eq_def body_def swept_def garbage_def live_def marked_def
      option.map_comp comp_def)

lemma free_unmarked_loop_spec:
  assumes "tiles (heap s) a bs e" and "length bs < n"
    and "\<And>b. b \<in> set bs \<Longrightarrow> garbage s b \<Longrightarrow> finalizer_ok s b"
  shows "\<exists>xs. free_unmarked_loop n a e k s = Inr (k + length (filter (garbage s) bs),
    s\<lparr>heap := (\<lambda>b. if b \<in> set bs then swept s b else heap s b), finalized := xs\<rparr>)"
  using assms
proof (induction bs arbitrary: n a k s)
  case Nil
  then obtain m where "n = Suc m" by (cases n) auto
  with Nil show ?case by (intro exI [of _ "finalized s"]) simp
next
  case (Cons b bs)
  then obtain m where n: "n = Suc m" by (cases n) auto
  from Cons.prems(1) obtain ob where ob: "heap s b = Some ob" "tile_ok ob" "b = a"
    and t: "tiles (heap s) (a + exact_size ob) bs e" by (auto split: option.splits)
  have b: "b \<notin> set bs" using tiles_after [OF t] ob by (simp add: tile_ok_def)
  have lt: "a < e" using tiles_bounds [OF Cons.prems(1), of b] ob by simp
  from sweep_one_spec [OF ob(1,2) Cons.prems(3)] obtain xs where
    s1: "sweep_one b s = Inr (if garbage s b then 1 else 0,
      s\<lparr>heap := (heap s)(b := swept s b), finalized := xs\<rparr>)" by auto
  let ?s = "s\<lparr>heap := (heap s)(b := swept s b), finalized := xs\<rparr>"
  note fr = sweep_step_frame [OF refl, where s = s and b = b and xs = xs]
  obtain ob' where ob': "heap ?s b = Some ob'" "exact_size ob' = exact_size ob"
    using fr(4) [OF ob(1)] by blast
  have t': "tiles (heap ?s) (a + exact_size ob) bs e"
    using t by (rule tiles_cong) (use b in auto)
  have ne: "c \<noteq> b" if "c \<in> set bs" for c using that b by auto
  have "finalizer_ok ?s c" if "c \<in> set bs" "garbage ?s c" for c
    using finalizer_ok_body_eq [OF fr(1)] Cons.prems(3) that fr(2) [OF ne] by simp
  from Cons.IH [OF t' _ this, of m "k + (if garbage s b then 1 else 0)"] Cons.prems(2) n obtain ys where
    r: "free_unmarked_loop m (a + exact_size ob) e (k + (if garbage s b then 1 else 0)) ?s =
      Inr (k + (if garbage s b then 1 else 0) + length (filter (garbage ?s) bs),
        ?s\<lparr>heap := (\<lambda>c. if c \<in> set bs then swept ?s c else heap ?s c), finalized := ys\<rparr>)" by auto
  have f: "filter (garbage ?s) bs = filter (garbage s) bs"
    by (rule filter_cong [OF refl], rule fr(2), erule ne)
  have h: "(\<lambda>c. if c \<in> set bs then swept ?s c else heap ?s c) =
      (\<lambda>c. if c \<in> set (b # bs) then swept s c else heap s c)"
    by (rule ext) (use b fr(3) [OF ne] in simp)
  show ?case
    using r [unfolded f h] s1 ob' ob(3) lt by (auto simp: n comp_simps)
qed

section \<open>Changes that keep the heap well-formed\<close>

lemma heap_ok_shape:
  assumes ok: "heap_ok s"
    and geo: "start_a t = start_a s" "end_a t = end_a s" "curr_a t = curr_a s"
      "space_start t = space_start s" "space_end t = space_end s"
    and shape: "\<And>b ob. heap s b = Some ob \<Longrightarrow> tile_ok ob \<Longrightarrow>
      \<exists>ob'. heap t b = Some ob' \<and> tile_ok ob' \<and> exact_size ob' = exact_size ob"
    and live: "live t \<subseteq> live s"
    and al: "\<And>p ob. heap t p = Some ob \<Longrightarrow> ob_live ob \<Longrightarrow> pvm_object_is_allocated s p ob"
  shows "heap_ok t"
proof -
  have "arena_ok t k" if k: "k < ARENAS" for k
  proof -
    from heap_okD(2) [OF ok k] obtain xs ys
      where inv: "arena_inv s (start_a s ! k) (end_a s ! k) (xs @ curr_a s ! k # ys)"
      by (auto simp: arena_ok_def)
    have "tiles (heap t) (start_a s ! k) (xs @ curr_a s ! k # ys) (end_a s ! k)"
      using arena_invD(1) [OF inv] by (rule tiles_shape) (rule shape)
    with inv live show ?thesis
      unfolding arena_ok_def arena_inv_def geo by (intro exI [of _ xs] exI [of _ ys]) blast
  qed
  moreover have "arenas_ok t" using heap_okD(1) [OF ok] geo by (simp add: arenas_ok_def)
  moreover have "live t \<subseteq> {space_start t..<space_end t}" using heap_okD(3) [OF ok] live geo by auto
  moreover have "pvm_object_is_allocated t p ob" if "heap t p = Some ob" "ob_live ob" for p ob
    using al [OF that] geo by (simp add: pvm_object_is_allocated_def)
  ultimately show ?thesis by (simp add: heap_ok_def)
qed

text \<open>The reference counter keeps the heap well-formed.\<close>

lemma heap_ok_rc_frame:
  assumes ok: "heap_ok s" and fr: "rc_frame s t D"
    and pos: "\<And>p. p \<in> live t - D \<Longrightarrow> 0 < rc t p"
  shows "heap_ok t"
proof (rule heap_ok_shape [OF ok])
  have t: "t = s\<lparr>heap := heap t, finalized := finalized t\<rparr>" using fr by (simp add: rc_frame_def)
  show "start_a t = start_a s" "end_a t = end_a s" "curr_a t = curr_a s"
    "space_start t = space_start s" "space_end t = space_end s" by (subst t, simp)+
  show "live t \<subseteq> live s" by (rule rc_frame_live [OF fr])
next
  fix b ob assume ob: "heap s b = Some ob" "tile_ok ob"
  have "rel_option hdr_rel (heap s b) (heap t b)" using fr by (simp add: rc_frame_def)
  with ob obtain ob' where ob': "heap t b = Some ob'" "hdr_rel ob ob'" by (auto simp: option_rel_Some1)
  then have "ob' = ob\<lparr>refCount := refCount ob', alloc_flags := alloc_flags ob'\<rparr>"
    by (simp add: hdr_rel_def)
  then have e: "exact_size ob' = exact_size ob" "object_start_marker ob' = object_start_marker ob"
    by (metis pvm_object_storage.ext_inject pvm_object_storage.surjective
        pvm_object_storage.update_convs(2,3))+
  have "ob' = ob \<or> ob_live ob' \<or> alloc_flags ob' = AF_FREE"
    using fr ob ob' unfolding rc_frame_def by (metis option.inject)
  with ob(2) e have "tile_ok ob'" by (auto simp: tile_ok_def ob_live_def)
  with ob' e show "\<exists>ob'. heap t b = Some ob' \<and> tile_ok ob' \<and> exact_size ob' = exact_size ob" by blast
next
  fix p ob' assume ob': "heap t p = Some ob'" "ob_live ob'"
  then have "p \<in> live s" using rc_frame_live [OF fr] by (auto simp: live_def)
  then obtain ob where ob: "heap s p = Some ob" "ob_live ob" by (rule liveE)
  have "rel_option hdr_rel (heap s p) (heap t p)" using fr by (simp add: rc_frame_def)
  with ob ob' have "hdr_rel ob ob'" by simp
  then have h: "ob' = ob\<lparr>refCount := refCount ob', alloc_flags := alloc_flags ob'\<rparr>"
    by (simp add: hdr_rel_def)
  have "ob' = ob \<or> 0 < refCount ob'"
  proof (cases "p \<in> D")
    case True
    with fr ob ob' show ?thesis by (auto simp: rc_frame_def)
  next
    case False
    with pos [of p] ob' show ?thesis by (auto simp: live_def rc_def)
  qed
  moreover have "pvm_object_is_allocated s p ob" using heap_okD(4) [OF ok ob] .
  ultimately show "pvm_object_is_allocated s p ob'"
    using ob'(2) h unfolding pvm_object_is_allocated_def ob_live_def
    by (metis pvm_object_storage.ext_inject pvm_object_storage.surjective
        pvm_object_storage.update_convs(2,3))
qed

section \<open>A collection\<close>

lemma body_reader_cases:
  assumes m: "body_reader m" and eq: "body_eq s t"
  obtains (ok) x where "m s = Inr (x, s)" "m t = Inr (x, t)" | (err) e e' where "m s = Inl e" "m t = Inl e'"
proof (cases "m s")
  case (Inr r)
  then obtain x where "m s = Inr (x, s)" using body_reader_state [OF m] by (cases r) auto
  with body_reader_cong [OF m eq] ok show thesis by blast
next
  case (Inl e)
  show thesis
  proof (cases "m t")
    case (Inr r)
    then obtain x where "m t = Inr (x, t)" using body_reader_state [OF m] by (cases r) auto
    with body_reader_cong [OF m body_eq_sym [OF eq]] Inl show thesis by auto
  qed (use Inl err in blast)
qed

lemma gc_edges_body_eq:
  assumes eq: "body_eq s t"
  shows "gc_edges t p = gc_edges s p"
proof (cases "heap s p")
  case None
  with eq have "map_option body (heap t p) = None" unfolding body_eq_def by (metis option.simps(8))
  with None show ?thesis by (simp add: gc_edges_def)
next
  case (Some ob)
  from body_eq_Some [OF eq Some] obtain ob' where ob': "heap t p = Some ob'" "body ob' = body ob" .
  then have fl: "o_flags ob' = o_flags ob" by (simp add: body_def)
  have "(case gc_children ob t of Inl e \<Rightarrow> [] | Inr (cs, s') \<Rightarrow> refs_of cs) =
      (case gc_children ob s of Inl e \<Rightarrow> [] | Inr (cs, s') \<Rightarrow> refs_of cs)"
    by (rule body_reader_cases [OF reader_gc_children eq, of ob]) simp_all
  with ob' fl Some show ?thesis
    by (simp add: gc_edges_def gc_children_cong [OF ob'(2)])
qed

lemma gc_reach_body_eq: "body_eq s t \<Longrightarrow> gc_reach t p = gc_reach s p"
  by (simp add: gc_reach_def gc_rel_def gc_edges_body_eq)

definition gens_ok :: "vm_state \<Rightarrow> bool" where
  "gens_ok s \<longleftrightarrow> (\<forall>p ob. heap s p = Some ob \<longrightarrow> ob_live ob \<longrightarrow>
     gc_flags ob = 0 \<or> gc_flags ob = gc_flags_last_generation s)"

text \<open>
  The heap between instructions: what is reachable from the root can be walked, no
  object carries a mark of a collection to come, and finalizers can be found.
\<close>

definition gc_ready :: "vm_state \<Rightarrow> bool" where
  "gc_ready s \<longleftrightarrow> heap_ok s \<and> gens_ok s \<and> (\<forall>q \<in> gc_reach s (space_start s). gc_node_ok s q) \<and>
     (\<forall>q \<in> live s. finalizer_ok s q)"

lemma bump_generation_new: "bump_generation g \<noteq> g" "bump_generation g \<noteq> 0"
proof -
  have "g + 1 = 0 \<Longrightarrow> g = - 1" by (simp add: eq_neg_iff_add_eq_0)
  then show "bump_generation g \<noteq> g" "bump_generation g \<noteq> 0"
    by (auto simp: bump_generation_def)
qed

lemma tiles_distinct: "tiles h a bs e \<Longrightarrow> distinct bs"
proof (induction bs arbitrary: a)
  case (Cons b bs)
  then obtain ob where ob: "tile_ok ob" "tiles h (a + exact_size ob) bs e" "b = a"
    by (auto split: option.splits)
  with Cons.IH tiles_after [OF ob(2)] show ?case by (simp add: tile_ok_def)
qed simp

lemma space_tiles:
  assumes ok: "heap_ok s"
  obtains bs where "tiles (heap s) (space_start s) bs (space_end s)" "live s \<subseteq> set bs"
proof -
  note A = heap_okD(1) [OF ok]
  have "\<exists>bs. tiles (heap s) (start_a s ! 0) bs (end_a s ! k) \<and>
      (\<forall>j cs. j \<le> k \<longrightarrow> tiles (heap s) (start_a s ! j) cs (end_a s ! j) \<longrightarrow> set cs \<subseteq> set bs)"
    if "k < ARENAS" for k
    using that
  proof (induction k)
    case 0
    with heap_okD(2) [OF ok, of 0] obtain bs
      where "tiles (heap s) (start_a s ! 0) bs (end_a s ! 0)"
      by (auto simp: arena_ok_def arena_inv_def)
    then show ?case using tiles_unique by blast
  next
    case (Suc k)
    then obtain bs where bs: "tiles (heap s) (start_a s ! 0) bs (end_a s ! k)"
      "\<And>j cs. j \<le> k \<Longrightarrow> tiles (heap s) (start_a s ! j) cs (end_a s ! j) \<Longrightarrow> set cs \<subseteq> set bs"
      by auto
    from heap_okD(2) [OF ok Suc.prems] obtain cs
      where cs: "tiles (heap s) (start_a s ! Suc k) cs (end_a s ! Suc k)"
      by (auto simp: arena_ok_def arena_inv_def)
    have "tiles (heap s) (start_a s ! 0) (bs @ cs) (end_a s ! Suc k)"
      using bs(1) cs arenas_okD(2) [OF A Suc.prems] by (auto simp: tiles_append)
    moreover have "set ds \<subseteq> set (bs @ cs)"
      if "j \<le> Suc k" "tiles (heap s) (start_a s ! j) ds (end_a s ! j)" for j ds
      using that bs(2) [of j ds] tiles_unique [OF cs] by (cases "j = Suc k") auto
    ultimately show ?case by blast
  qed
  from this [of 4] arenas_okD(3,4) [OF A] obtain bs
    where bs: "tiles (heap s) (space_start s) bs (space_end s)"
      "\<And>j cs. j \<le> 4 \<Longrightarrow> tiles (heap s) (start_a s ! j) cs (end_a s ! j) \<Longrightarrow> set cs \<subseteq> set bs"
    by (auto simp: ARENAS_def)
  have "p \<in> set bs" if p: "p \<in> live s" for p
  proof -
    from live_tile [OF ok p] obtain k xs ys where k: "k < ARENAS"
      and inv: "arena_inv s (start_a s ! k) (end_a s ! k) (xs @ p # ys)" by metis
    with bs(2) [OF _ arena_invD(1) [OF inv]] show ?thesis by (auto simp: ARENAS_def)
  qed
  with bs(1) that show thesis by blast
qed

lemma heap_ok_mark_frame:
  assumes ok: "heap_ok s" and fr: "mark_frame s t"
  shows "heap_ok t"
proof (rule heap_ok_shape [OF ok])
  have t: "t = s\<lparr>heap := heap t\<rparr>" using fr by (simp add: mark_frame_def)
  show "start_a t = start_a s" "end_a t = end_a s" "curr_a t = curr_a s"
    "space_start t = space_start s" "space_end t = space_end s" by (subst t, simp)+
  show "live t \<subseteq> live s" using mark_frame_live [OF fr] by simp
next
  fix b ob assume "heap s b = Some ob" "tile_ok ob"
  with mark_frame_at [OF fr, of b]
  show "\<exists>ob'. heap t b = Some ob' \<and> tile_ok ob' \<and> exact_size ob' = exact_size ob"
    by (auto simp: tile_ok_def)
next
  fix p ob assume "heap t p = Some ob" "ob_live ob"
  with mark_frame_at [OF fr, of p] heap_okD(4) [OF ok, of p]
  show "pvm_object_is_allocated s p ob"
    by (elim disjE exE conjE) (auto simp: pvm_object_is_allocated_def ob_live_def)
qed

lemma swept_facts:
  assumes t: "t = s\<lparr>heap := swept s, finalized := xs\<rparr>"
  shows "body_eq s t" and "live t = live s \<inter> marked s" and "q \<in> live t \<Longrightarrow> heap t q = heap s q"
  by (auto simp: t body_eq_def body_def swept_def garbage_def live_def option.map_comp comp_def
      split: if_splits)

lemma heap_ok_swept:
  assumes ok: "heap_ok s" and t: "t = s\<lparr>heap := swept s, finalized := xs\<rparr>"
  shows "heap_ok t"
proof (rule heap_ok_shape [OF ok])
  show "live t \<subseteq> live s" using swept_facts(2) [OF t] by blast
next
  fix b ob assume "heap s b = Some ob" "tile_ok ob"
  then show "\<exists>ob'. heap t b = Some ob' \<and> tile_ok ob' \<and> exact_size ob' = exact_size ob"
    by (auto simp: t swept_def tile_ok_def)
next
  fix p ob assume p: "heap t p = Some ob" "ob_live ob"
  then have "p \<in> live t" by (auto simp: live_def)
  with p swept_facts(3) [OF t] heap_okD(4) [OF ok] show "pvm_object_is_allocated s p ob" by auto
qed (simp_all add: t)

lemma free_unmarked_spec:
  assumes ok: "heap_ok s" and fin: "\<And>q. q \<in> live s \<Longrightarrow> finalizer_ok s q"
  shows "\<exists>xs. free_unmarked s = Inr (card {q. garbage s q}, s\<lparr>heap := swept s, finalized := xs\<rparr>)"
proof -
  from space_tiles [OF ok] obtain bs where
    bs: "tiles (heap s) (space_start s) bs (space_end s)" "live s \<subseteq> set bs" .
  have "length bs < Suc (space_end s - space_start s)" using tiles_le [OF bs(1)] by simp
  moreover have "finalizer_ok s b" if "garbage s b" for b using fin that by (simp add: garbage_def)
  ultimately obtain xs where x: "free_unmarked s = Inr (0 + length (filter (garbage s) bs),
      s\<lparr>heap := (\<lambda>b. if b \<in> set bs then swept s b else heap s b), finalized := xs\<rparr>)"
    using free_unmarked_loop_spec [OF bs(1), of _ 0] unfolding free_unmarked_def by blast
  have "heap s b = swept s b" if "b \<notin> set bs" for b
    using that bs(2) by (auto simp: swept_def garbage_def)
  then have h: "(\<lambda>b. if b \<in> set bs then swept s b else heap s b) = swept s" by auto
  have "length (filter (garbage s) bs) = card (set (filter (garbage s) bs))"
    by (rule distinct_card [symmetric]) (simp add: tiles_distinct [OF bs(1)])
  moreover have "set (filter (garbage s) bs) = {q. garbage s q}"
    using bs(2) by (auto simp: garbage_def)
  ultimately show ?thesis using x by (auto simp: h)
qed

lemma gc_region:
  assumes "gc_ready s"
  shows "mark_region s (gc_reach s (space_start s))" "gc_reach s (space_start s) \<subseteq> live s"
    "card (gc_reach s (space_start s)) \<le> Suc (space_end s - space_start s)"
proof -
  let ?R = "gc_reach s (space_start s)"
  have ok: "gc_node_ok s q" if "q \<in> ?R" for q using assms that by (simp add: gc_ready_def)
  then show sub: "?R \<subseteq> live s" by (auto simp: gc_node_ok_def live_def)
  have space: "live s \<subseteq> {space_start s..<space_end s}"
    using assms by (auto simp: gc_ready_def heap_ok_def)
  then have fin: "finite ?R" using sub by (meson finite_atLeastLessThan finite_subset)
  have "set (gc_edges s q) \<subseteq> ?R" if "q \<in> ?R" for q
    using that by (auto simp: gc_reach_def gc_rel_def intro: rtrancl_into_rtrancl)
  with ok fin show "mark_region s ?R" by (simp add: mark_region_def)
  have "card ?R \<le> card {space_start s..<space_end s}" using sub space by (intro card_mono) auto
  then show "card ?R \<le> Suc (space_end s - space_start s)" by simp
qed

text \<open>The mark phase, after the generation was bumped.\<close>

lemma mark_phase:
  assumes ready: "gc_ready s"
    and s1: "s1 = s\<lparr>gc_n_run := k, gc_flags_last_generation := bump_generation (gc_flags_last_generation s)\<rparr>"
  obtains s2 where "mark_tree (Suc (space_end s - space_start s)) (space_start s) s1 = Inr ((), s2)"
    "mark_frame s1 s2" "\<And>q. garbage s2 q \<longleftrightarrow> q \<in> live s - gc_reach s (space_start s)"
proof -
  let ?R = "gc_reach s (space_start s)"
  have eq: "body_eq s s1" and live: "live s1 = live s" by (simp_all add: s1 body_eq_def live_def)
  have R: "gc_reach s1 (space_start s) = ?R" by (rule gc_reach_body_eq [OF eq])
  have ok: "gc_node_ok s1 q" if "q \<in> ?R" for q
    using gc_node_ok_body_eq [OF eq] gc_region(2) [OF ready] ready that live
    by (auto simp: gc_ready_def)
  have reg: "mark_region s1 (gc_reach s1 (space_start s))"
    using gc_region(1) [OF ready] ok unfolding R mark_region_def
    by (simp add: gc_edges_body_eq [OF eq])
  have um: "live s \<inter> marked s1 = {}"
    using ready bump_generation_new [of "gc_flags_last_generation s"]
    by (auto simp: gc_ready_def gens_ok_def marked_def live_def s1) metis+
  have d: "gc_reach s1 (space_start s) \<inter> marked s1 = {}"
    and c: "card (gc_reach s1 (space_start s)) \<le> Suc (space_end s - space_start s)"
    using gc_region(2,3) [OF ready] um R by auto
  from mark_tree_reach [OF reg d c] obtain s2 where
    s2: "mark_tree (Suc (space_end s - space_start s)) (space_start s) s1 = Inr ((), s2)"
      "mark_frame s1 s2" "marked s2 = marked s1 \<union> ?R" unfolding R .
  have "garbage s2 q \<longleftrightarrow> q \<in> live s - ?R" for q
    using s2(3) um mark_frame_live [OF s2(2)] live by (auto simp: garbage_def)
  with s2 that show thesis by blast
qed

lemma gc_ready_body_eq:
  assumes ready: "gc_ready s" and ok: "heap_ok t" "gens_ok t" and eq: "body_eq s t"
    and sp: "space_start t = space_start s" and live: "gc_reach s (space_start s) \<subseteq> live t" "live t \<subseteq> live s"
  shows "gc_ready t"
  unfolding gc_ready_def
proof (intro conjI ballI)
  fix q assume "q \<in> gc_reach t (space_start t)"
  then have q: "q \<in> gc_reach s (space_start s)" by (simp add: gc_reach_body_eq [OF eq] sp)
  then have "gc_node_ok s q" using ready by (simp add: gc_ready_def)
  with gc_node_ok_body_eq(1) [OF eq] q live show "gc_node_ok t q" by blast
next
  fix q assume "q \<in> live t"
  with live have "finalizer_ok s q" using ready by (auto simp: gc_ready_def)
  with eq show "finalizer_ok t q" by (rule finalizer_ok_body_eq)
qed (rule ok)+

lemma run_gc_spec:
  assumes ready: "gc_ready s"
  obtains s' where "run_gc s = Inr (card (live s - gc_reach s (space_start s)), s')"
    "gc_ready s'" "live s' = gc_reach s (space_start s)" "space_start s' = space_start s"
    "\<And>q. q \<in> live s' \<Longrightarrow> heap s' q = map_option (\<lambda>ob. ob\<lparr>gc_flags := gc_flags_last_generation s'\<rparr>) (heap s q)"
    "body_eq s s'"
proof -
  let ?R = "gc_reach s (space_start s)"
  let ?s1 = "s\<lparr>gc_n_run := gc_n_run s + 1,
    gc_flags_last_generation := bump_generation (gc_flags_last_generation s)\<rparr>"
  from mark_phase [OF ready refl] obtain s2 where
    m: "mark_tree (Suc (space_end s - space_start s)) (space_start s) ?s1 = Inr ((), s2)"
      "mark_frame ?s1 s2" "\<And>q. garbage s2 q \<longleftrightarrow> q \<in> live s - ?R" by metis
  have eq1: "body_eq s ?s1" and h1: "heap_ok ?s1" and l1: "live ?s1 = live s"
    using ready by (auto simp: body_eq_def gc_ready_def heap_ok_def arenas_ok_def arena_ok_def
        arena_inv_def live_def pvm_object_is_allocated_def)
  have eq2: "body_eq s s2" using body_eq_trans [OF eq1 mark_frame_body_eq [OF m(2)]] .
  have h2: "heap_ok s2" by (rule heap_ok_mark_frame [OF h1 m(2)])
  have l2: "live s2 = live s" using mark_frame_live [OF m(2)] l1 by simp
  have "finalizer_ok s2 q" if "q \<in> live s2" for q
    using finalizer_ok_body_eq [OF eq2] ready that l2 by (auto simp: gc_ready_def)
  from free_unmarked_spec [OF h2 this] obtain xs where
    f: "free_unmarked s2 = Inr (card {q. garbage s2 q}, s2\<lparr>heap := swept s2, finalized := xs\<rparr>)" by blast
  let ?t = "s2\<lparr>heap := swept s2, finalized := xs\<rparr>"
  note sw = swept_facts [OF refl, where s = s2 and xs = xs]
  have s2: "s2 = ?s1\<lparr>heap := heap s2\<rparr>" using m(2) by (simp add: mark_frame_def)
  have sp: "space_start ?t = space_start s" and gen: "gc_flags_last_generation ?t =
      gc_flags_last_generation ?s1" "gc_flags_last_generation s2 = gc_flags_last_generation ?s1"
    by (subst s2, simp)+
  have live: "live ?t = ?R"
    using sw(2) m(3) l2 gc_region(2) [OF ready] by (auto simp: garbage_def)
  have surv: "heap ?t q = map_option (\<lambda>ob. ob\<lparr>gc_flags := gc_flags_last_generation ?t\<rparr>) (heap s q)"
    if q: "q \<in> live ?t" for q
  proof -
    have mk: "q \<in> marked s2" and h: "heap ?t q = heap s2 q" using q sw(2,3) by auto
    from mark_frame_at [OF m(2), of q] mk show ?thesis
      unfolding h gen(1) by (auto simp: marked_def gen(2))
  qed
  have "gens_ok ?t" unfolding gens_ok_def
  proof (intro allI impI)
    fix p ob assume p: "heap ?t p = Some ob" "ob_live ob"
    then have "p \<in> live ?t" by (auto simp: live_def)
    from surv [OF this] p show "gc_flags ob = 0 \<or> gc_flags ob = gc_flags_last_generation ?t" by auto
  qed
  moreover have eq: "body_eq s ?t" using body_eq_trans [OF eq2 sw(1)] .
  ultimately have "gc_ready ?t"
    using gc_ready_body_eq [OF ready heap_ok_swept [OF h2 refl] _ _ sp] live gc_region(2) [OF ready] by blast
  moreover have "run_gc s = Inr (card (live s - ?R), ?t)"
    using m(1) f m(3)
    by (simp add: run_gc_def thenE_apply bindE_apply cycle_root_buffer_clear_def
        get_root_object_storage_def set_diff_eq)
  ultimately show thesis using that live sp surv eq by blast
qed

section \<open>A small heap with garbage\<close>

definition block :: "u8 \<Rightarrow> nat \<Rightarrow> 32 word \<Rightarrow> pvm_object list \<Rightarrow> pvm_object_storage" where
  "block af sz fl xs = \<lparr>object_start_marker = PVM_OBJECT_START_MARKER,
     refCount = (if af = AF_FREE then 0 else 1), alloc_flags = af, gc_flags = 0, exact_size = sz,
     o_class = null_ref, o_satellites = null_ref, o_flags = fl, o_da_size = 8 * length xs,
     o_da = DA_slots xs\<rparr>"

text \<open>The root object at 100 refers to the object at 200; the object at 400 is garbage.\<close>

definition gc_state :: vm_state where
  "gc_state = (small_state [100 \<mapsto> block AF_ALLOCATED 60 0 [\<lparr>ob_data = 200, ob_interface = 200\<rparr>],
      160 \<mapsto> block AF_FREE 40 0 [], 200 \<mapsto> block AF_ALLOCATED 60 IS_CHILDFREE [],
      260 \<mapsto> block AF_FREE 40 0 [], 300 \<mapsto> block AF_FREE 100 0 [],
      400 \<mapsto> block AF_ALLOCATED 60 IS_CHILDFREE [], 460 \<mapsto> block AF_FREE 40 0 [],
      500 \<mapsto> block AF_FREE 100 0 []])
    \<lparr>space_start := 100, space_end := 600, start_a := [100, 200, 300, 400, 500],
     end_a := [200, 300, 400, 500, 600], curr_a := [100, 260, 300, 400, 500]\<rparr>"

lemma block_simps [simp]:
  "ob_live (block af sz fl xs) \<longleftrightarrow> has_flag af AF_ALLOCATED" "exact_size (block af sz fl xs) = sz"
  "tile_ok (block af sz fl xs) \<longleftrightarrow> 40 \<le> sz \<and> 4 dvd sz \<and> (has_flag af AF_ALLOCATED \<or> af = AF_FREE)"
  "has_flag AF_ALLOCATED AF_ALLOCATED" "\<not> has_flag AF_FREE AF_ALLOCATED"
  by (simp_all add: block_def ob_live_def tile_ok_def has_flag_def alloc_flag_defs)

lemma gc_state_live: "live gc_state = {100, 200, 400}"
  by (auto simp: live_def gc_state_def split: if_splits)

lemma gc_state_geometry [simp]:
  "start_a gc_state = [100, 200, 300, 400, 500]" "end_a gc_state = [200, 300, 400, 500, 600]"
  "curr_a gc_state = [100, 260, 300, 400, 500]" "space_start gc_state = 100" "space_end gc_state = 600"
  by (simp_all add: gc_state_def)

lemma arena_okI:
  "arena_inv s (start_a s ! k) (end_a s ! k) (xs @ curr_a s ! k # ys) \<Longrightarrow> arena_ok s k"
  unfolding arena_ok_def by blast

lemma gc_state_arenas: "\<forall>k < ARENAS. arena_ok gc_state k"
proof -
  have "arena_inv gc_state 100 200 [100, 160]" "arena_inv gc_state 200 300 [200, 260]"
    "arena_inv gc_state 300 400 [300]" "arena_inv gc_state 400 500 [400, 460]"
    "arena_inv gc_state 500 600 [500]"
    unfolding arena_inv_def gc_state_live by (simp_all add: gc_state_def)
  then show ?thesis
    unfolding all_arenas
    using arena_okI [of gc_state 0 "[]" "[160]"] arena_okI [of gc_state 1 "[200]" "[]"]
      arena_okI [of gc_state 2 "[]" "[]"] arena_okI [of gc_state 3 "[]" "[460]"]
      arena_okI [of gc_state 4 "[]" "[]"] by simp
qed

lemma gc_state_ok: "heap_ok gc_state"
  unfolding heap_ok_def
proof (intro conjI gc_state_arenas allI impI)
  show "arenas_ok gc_state"
    unfolding arenas_ok_def all_arenas
    by (simp add: gc_state_def ARENAS_def PVM_MIN_FRAGMENT_SIZE_def sizeof_pvm_object_storage_def)
  show "live gc_state \<subseteq> {space_start gc_state..<space_end gc_state}"
    unfolding gc_state_live by (simp add: gc_state_def)
  fix p ob assume "heap gc_state p = Some ob" "ob_live ob"
  then show "pvm_object_is_allocated gc_state p ob"
    by (auto simp: gc_state_def pvm_object_is_allocated_def block_def u32_def u32_sub_def
        sizeof_pvm_object_storage_def PVM_MIN_FRAGMENT_SIZE_def has_flag_def alloc_flag_defs
        ob_live_def split: if_splits)
qed

lemma gc_state_edges: "gc_edges gc_state 100 = [200, 200]" "gc_edges gc_state 200 = []"
  by (simp_all add: gc_edges_def gc_state_def block_def has_flag_def object_flag_defs gc_children_def
      slots_of_def da_po_limit_def sizeof_pvm_object_def bindE_def of_view_def refs_of_def null_ref_def)

lemma gc_state_reach: "gc_reach gc_state 100 = {100, 200}"
proof -
  have "(100, q) \<in> (gc_rel gc_state)\<^sup>* \<Longrightarrow> q \<in> {100, 200}" for q
    by (induction rule: rtrancl_induct) (auto simp: gc_rel_def gc_state_edges)
  moreover have "(100, 200) \<in> gc_rel gc_state" by (simp add: gc_rel_def gc_state_edges)
  ultimately show ?thesis unfolding gc_reach_def by blast
qed

lemma gc_state_ready: "gc_ready gc_state"
proof -
  have "space_start gc_state = 100" by (simp add: gc_state_def)
  moreover have "gens_ok gc_state"
    unfolding gens_ok_def by (auto simp: gc_state_def block_def split: if_splits)
  moreover have "gc_node_ok gc_state 100" "gc_node_ok gc_state 200"
    by (simp_all add: gc_node_ok_def gc_state_def)
      (simp_all add: block_def has_flag_def object_flag_defs gc_children_def
        slots_of_def da_po_limit_def sizeof_pvm_object_def bindE_def of_view_def null_ref_def)
  moreover have "\<forall>q \<in> {100, 200, 400}. finalizer_ok gc_state q"
    by (simp add: finalizer_ok_def gc_state_def) (simp add: block_def has_flag_def object_flag_defs)
  ultimately show ?thesis
    using gc_state_ok by (simp add: gc_ready_def gc_state_reach gc_state_live)
qed

section \<open>Properties of the collector\<close>

text \<open>
  C1. A collection ends and frees exactly the objects that cannot be reached from the
  root object: it returns their number, the survivors are the reachable objects, each
  with its header and contents unchanged except for the mark, and the heap is
  well-formed and ready for the next collection. The heap must be one that can be walked: the
  references of every reachable object lead to objects. This leaves out a reachable connection that has an
  owner, for marking goes on to its null interface (\<open>mark_connection_faults\<close>).
\<close>

theorem run_gc_correct:
  assumes "gc_ready s"
  shows "\<exists>s'. run_gc s = Inr (card (live s - gc_reach s (space_start s)), s') \<and> gc_ready s' \<and>
    live s' = gc_reach s (space_start s) \<and>
    (\<forall>q. q \<in> live s' \<longrightarrow> heap s' q =
       map_option (\<lambda>ob. ob\<lparr>gc_flags := gc_flags_last_generation s'\<rparr>) (heap s q)) \<and>
    gc_reach s' (space_start s') = gc_reach s (space_start s)"
proof -
  from run_gc_spec [OF assms] obtain s' where
    s': "run_gc s = Inr (card (live s - gc_reach s (space_start s)), s')" "gc_ready s'"
      "live s' = gc_reach s (space_start s)" "space_start s' = space_start s"
      "\<And>q. q \<in> live s' \<Longrightarrow> heap s' q =
        map_option (\<lambda>ob. ob\<lparr>gc_flags := gc_flags_last_generation s'\<rparr>) (heap s q)" "body_eq s s'"
    by metis
  then show ?thesis using gc_reach_body_eq [OF s'(6)] by auto
qed

theorem run_gc_correct_witness:
  "gc_ready gc_state \<and> (\<exists>s'. run_gc gc_state = Inr (1, s') \<and> live s' = {100, 200})"
proof -
  have "space_start gc_state = 100" by (simp add: gc_state_def)
  moreover have "{100, 200, 400} - {100, 200} = {400::addr}" by auto
  ultimately show ?thesis
    using run_gc_correct [OF gc_state_ready] gc_state_ready
    by (auto simp: gc_state_live gc_state_reach)
qed

text \<open>
  C10. A second collection right after the first one finds nothing to free.
\<close>

theorem run_gc_idempotent:
  assumes "gc_ready s"
  shows "\<exists>n s' s''. run_gc s = Inr (n, s') \<and> run_gc s' = Inr (0, s'') \<and> live s'' = live s'"
proof -
  from run_gc_spec [OF assms] obtain s' where
    s': "run_gc s = Inr (card (live s - gc_reach s (space_start s)), s')" "gc_ready s'"
      "live s' = gc_reach s (space_start s)" "space_start s' = space_start s" "body_eq s s'"
    by metis
  from run_gc_spec [OF s'(2)] obtain s'' where
    "run_gc s' = Inr (card (live s' - gc_reach s' (space_start s')), s'')"
    "live s'' = gc_reach s' (space_start s')" by metis
  moreover have "gc_reach s' (space_start s') = live s'"
    using gc_reach_body_eq [OF s'(5)] s'(3,4) by simp
  ultimately show ?thesis using s'(1) by auto
qed

theorem run_gc_idempotent_witness:
  "gc_ready gc_state \<and> (\<exists>n s' s''. run_gc gc_state = Inr (n, s') \<and> run_gc s' = Inr (0, s''))"
  using run_gc_idempotent [OF gc_state_ready] gc_state_ready by blast

section \<open>Connections\<close>

text \<open>
  The iterator of connections delivers a reference without an interface. Marking reads
  the interface's header without a test, so a collection that meets a connection whose
  owner is already marked reads through the null pointer.
\<close>

lemma mark_connection_faults:
  assumes "heap s p = Some ob" "ob_live ob" "has_flag (o_flags ob) IS_INTERNAL"
    and "\<not> has_flag (o_flags ob) IS_CHILDFREE" "ob_data (o_class ob) \<noteq> p"
    and cls: "class_rec_of ob s = Inr (c, s)" "ic_iter c = Some C_connection"
    and clm: "heap s (ob_data (o_class ob)) = Some co" "gc_flags co = gc_flags_last_generation s"
    and cli: "heap s (ob_interface (o_class ob)) = Some ci" "gc_flags ci = gc_flags_last_generation s"
    and da: "as_connection (o_da ob) = Some d" "cn_owner d \<noteq> 0" "cn_owner d \<noteq> p"
    and own: "heap s (cn_owner d) = Some w" "gc_flags w = gc_flags_last_generation s"
    and null: "heap s 0 = None" "ob_interface (o_class ob) \<noteq> p"
  shows "mark_tree (Suc n) p s = Inl (Fault 0)"
proof -
  let ?g = "gc_flags_last_generation s" and ?ob = "ob\<lparr>gc_flags := gc_flags_last_generation s\<rparr>"
  let ?t = "put_ob p ?ob s"
  let ?r = "\<lparr>ob_data = cn_owner d, ob_interface = 0\<rparr>"
  let ?cs = "[o_class ob, ?r, cn_p_kernel_state_object d, cn_callback d]"
  have p: "p \<noteq> 0" using assms(1) null(1) by (metis option.distinct(1))
  have cs: "gc_children ob s = Inr (?cs, s)"
    using assms by (simp add: gc_children_def bindE_apply run_iter_def pvm_gc_iter_connection_def)
  have "gc_children ?ob ?t = Inr (?cs, ?t)"
    using body_reader_cong [OF reader_gc_children mark_frame_body_eq [OF mark_self(1) [OF assms(1) refl]] cs]
      gc_children_cong [of ?ob ob] by (simp add: body_def)
  then have "mark_tree (Suc n) p s = iterE (mark_tree_o (mark_tree n)) ?cs ?t"
    using assms(1,2,4)
    by (simp add: mark_tree_step_def comp_simps ob_live_def gc_process_children_def)
  moreover have "gc_flags_last_generation ?t = ?g" by (simp add: put_ob_def)
  ultimately show ?thesis
    using assms p by (simp add: thenE_apply mark_tree_o_def mark_unmarked_def bindE_apply whenE_apply)
qed

end
