(* ===== verification/Object_Create.thy ===== *)
theory Object_Create
  imports Mark_Sweep
begin

text \<open>
  Creation of objects (\<^verbatim>\<open>phantom/vm/create.c\<close> and the stack page constructors of
  \<^verbatim>\<open>phantom/vm/stacks.c\<close>). An object is created by allocating storage of the size its
  class prescribes, setting the class and filling the data area. The lemmas show that a
  creation either reports that memory is exhausted or returns a fresh object with exactly
  the requested contents, leaves every live object alone, and is balanced for the
  reference counter: it consumes one reference for each field and yields one.
\<close>

section \<open>Model\<close>

definition N_SYS_METHODS :: nat where
  "N_SYS_METHODS = 64"

text \<open>\<^verbatim>\<open>sys_table_id = -1\<close> of an unsigned field.\<close>

definition no_sys_table :: nat where
  "no_sys_table = 2 ^ 32 - 1"

definition pvm_object_create_dynamic :: "pvm_object \<Rightarrow> int \<Rightarrow> pvm_object vm" where
  "pvm_object_create_dynamic object_class das =
     bindE (load_da as_class (ob_data object_class)) (\<lambda>cda.
       let das = (if das < 0 then cl_object_data_area_size cda else nat das);
           flags = cl_object_flags cda in
       bindE (pvm_object_alloc das flags False) (\<lambda>out.
       thenE (update_ob out (\<lambda>ob. ob\<lparr>o_class := object_class\<rparr>))
       (ret \<lparr>ob_data = out, ob_interface = ob_data (cl_object_default_interface cda)\<rparr>)))"

definition pvm_object_create_fixed :: "pvm_object \<Rightarrow> pvm_object vm" where
  "pvm_object_create_fixed object_class = pvm_object_create_dynamic object_class (-1)"

definition pvm_create_null_object :: "pvm_object vm" where
  "pvm_create_null_object = root R_null_object"

definition pvm_create_int_object :: "i32 \<Rightarrow> pvm_object vm" where
  "pvm_create_int_object v = bindE (root R_int_class) (\<lambda>cls.
     bindE (pvm_object_create_fixed cls) (\<lambda>out.
     thenE (store_da (ob_data out) (DA_int v)) (ret out)))"

definition pvm_create_long_object :: "i64 \<Rightarrow> pvm_object vm" where
  "pvm_create_long_object v = bindE (root R_long_class) (\<lambda>cls.
     bindE (pvm_object_create_fixed cls) (\<lambda>out.
     thenE (store_da (ob_data out) (DA_long v)) (ret out)))"

definition pvm_internal_init_string :: "addr \<Rightarrow> unit vm" where
  "pvm_internal_init_string os = store_da os (DA_string 0 [])"

text \<open>
  A null pointer for the initial bytes is \<open>None\<close>; \<^verbatim>\<open>memcpy\<close> reads \<open>n\<close> bytes from a
  buffer that must have them.
\<close>

definition memcpy_bytes :: "nat \<Rightarrow> u8 list \<Rightarrow> u8 list vm" where
  "memcpy_bytes n bs = (if n \<le> length bs then ret (take n bs) else raise Out_of_bounds)"

definition pvm_create_string_object_binary :: "u8 list option \<Rightarrow> nat \<Rightarrow> pvm_object vm" where
  "pvm_create_string_object_binary value n_bytes = bindE (gets sizeof_da) (\<lambda>szof.
     bindE (root R_string_class) (\<lambda>string_class.
     bindE (pvm_object_create_dynamic string_class (int (szof C_string + n_bytes))) (\<lambda>dat.
     thenE (pvm_internal_init_string (ob_data dat))
    (thenE (case value of None \<Rightarrow> ret ()
            | Some v \<Rightarrow> bindE (memcpy_bytes n_bytes v) (\<lambda>bs.
                store_da (ob_data dat) (DA_string n_bytes bs)))
    (ret dat)))))"

definition pvm_create_string_object_binary_cat ::
    "u8 list option \<Rightarrow> nat \<Rightarrow> u8 list option \<Rightarrow> nat \<Rightarrow> pvm_object vm" where
  "pvm_create_string_object_binary_cat value1 n_bytes1 value2 n_bytes2 =
     bindE (gets sizeof_da) (\<lambda>szof.
     bindE (root R_string_class) (\<lambda>string_class.
     bindE (pvm_object_create_dynamic string_class
              (int (szof C_string + n_bytes1 + n_bytes2))) (\<lambda>dat.
     thenE (pvm_internal_init_string (ob_data dat))
    (thenE (case value1 of None \<Rightarrow> ret ()
            | Some v1 \<Rightarrow> bindE (memcpy_bytes n_bytes1 v1) (\<lambda>b1.
                thenE (store_da (ob_data dat) (DA_string n_bytes1 b1))
                (case value2 of None \<Rightarrow> ret ()
                 | Some v2 \<Rightarrow> bindE (memcpy_bytes n_bytes2 v2) (\<lambda>b2.
                     store_da (ob_data dat) (DA_string (n_bytes1 + n_bytes2) (b1 @ b2))))))
    (ret dat)))))"

text \<open>\<^verbatim>\<open>strncmp\<close> of the C library on two byte strings.\<close>

fun c_strncmp :: "u8 list \<Rightarrow> u8 list \<Rightarrow> nat \<Rightarrow> int" where
  "c_strncmp a b 0 = 0"
| "c_strncmp (x # a) (y # b) (Suc n) =
     (if x \<noteq> y then int (unat x) - int (unat y) else if x = 0 then 0 else c_strncmp a b n)"
| "c_strncmp [] (y # b) (Suc n) = - int (unat y)"
| "c_strncmp (x # a) [] (Suc n) = int (unat x)"
| "c_strncmp [] [] (Suc n) = 0"

definition pvm_strcmp :: "pvm_object \<Rightarrow> pvm_object \<Rightarrow> int vm" where
  "pvm_strcmp s1 s2 = bindE (load_da as_string (ob_data s1)) (\<lambda>(l1, d1).
     bindE (load_da as_string (ob_data s2)) (\<lambda>(l2, d2).
     if l1 > l2 then ret 1 else if l2 > l1 then ret (-1) else ret (c_strncmp d1 d2 l1)))"

text \<open>
  The size of a page is an \<^verbatim>\<open>int\<close>: from $2^{28}$ slots on it wraps around, and the slots are then
  written behind the smaller data area that was allocated.
\<close>

definition s32 :: "nat \<Rightarrow> int" where
  "s32 n = (if u32 n < 2 ^ 31 then int (u32 n) else int (u32 n) - 2 ^ 32)"

definition pvm_create_page_object :: "nat \<Rightarrow> pvm_object list \<Rightarrow> pvm_object vm" where
  "pvm_create_page_object n_slots init = bindE (root R_page_class) (\<lambda>cls.
     bindE (pvm_object_create_dynamic cls (s32 (n_slots * sizeof_pvm_object))) (\<lambda>dat.
     thenE (assertE ''init_slots < n_slots'' (length init < n_slots))
    (bindE (root R_null_object) (\<lambda>null. bindE (load (ob_data dat)) (\<lambda>ob.
     if o_da_size ob < n_slots * sizeof_pvm_object then raise Out_of_bounds
     else thenE (store_da (ob_data dat) (DA_slots (init @ replicate (n_slots - length init) null)))
    (ret dat))))))"

definition create_interface_worker :: "nat \<Rightarrow> pvm_object vm" where
  "create_interface_worker n_methods = bindE (root R_interface_class) (\<lambda>cls.
     pvm_object_create_dynamic cls (s32 (n_methods * sizeof_pvm_object)))"

text \<open>The loop that copies the parent's methods, each with a reference of its own.\<close>

definition copy_parent_methods :: "addr \<Rightarrow> nat \<Rightarrow> nat \<Rightarrow> nat \<Rightarrow> unit vm" where
  "copy_parent_methods iface base_i n_methods n_copy = iterE (\<lambda>i.
     bindE (load base_i) (\<lambda>base. bindE (slots_of base) (\<lambda>ms.
     bindE (ref_inc_o (ms ! i)) (\<lambda>m.
     bindE (load_da (as_slots n_methods) iface) (\<lambda>xs.
       store_da iface (DA_slots (xs[i := m])))))))
     [0..<n_copy]"

definition pvm_create_interface_object :: "nat \<Rightarrow> pvm_object \<Rightarrow> pvm_object vm" where
  "pvm_create_interface_object n_methods parent_class =
     bindE (create_interface_worker n_methods) (\<lambda>iface.
     bindE (gets (\<lambda>s. pvm_is_null s parent_class)) (\<lambda>isnull.
     if isnull then raise (Exec_panic ''create interface: parent is null'')
     else bindE (load_da as_class (ob_data parent_class)) (\<lambda>pda.
       let base_i = ob_data (cl_object_default_interface pda) in
       bindE (load base_i) (\<lambda>base.
       let n_copy = min (da_po_limit base) n_methods in
       thenE (copy_parent_methods (ob_data iface) base_i n_methods n_copy)
      (bindE (root R_null_object) (\<lambda>null.
       bindE (load_da (as_slots n_methods) (ob_data iface)) (\<lambda>xs.
       thenE (store_da (ob_data iface)
                (DA_slots (take n_copy xs @ replicate (n_methods - n_copy) null)))
      (ret iface))))))))"

definition pvm_create_class_object :: "pvm_object \<Rightarrow> pvm_object \<Rightarrow> nat \<Rightarrow> pvm_object vm" where
  "pvm_create_class_object name iface da_size = bindE (root R_class_class) (\<lambda>cls.
     bindE (pvm_object_create_fixed cls) (\<lambda>dat.
     bindE (load_da as_class (ob_data dat)) (\<lambda>da.
     bindE (root R_null_class) (\<lambda>null_class.
     thenE (store_da (ob_data dat) (DA_class (da\<lparr>cl_object_data_area_size := da_size,
              cl_object_flags := 0, cl_object_default_interface := iface,
              cl_sys_table_id := no_sys_table, cl_class_name := name,
              cl_class_parent := null_class\<rparr>)))
    (ret dat)))))"

definition pvm_create_binary_object :: "nat \<Rightarrow> u8 list option \<Rightarrow> pvm_object vm" where
  "pvm_create_binary_object sz init = bindE (gets sizeof_da) (\<lambda>szof.
     bindE (root R_binary_class) (\<lambda>cls.
     bindE (pvm_object_create_dynamic cls (int (sz + szof C_binary))) (\<lambda>out.
     bindE (case init of None \<Rightarrow> ret (replicate sz 0) | Some v \<Rightarrow> memcpy_bytes sz v) (\<lambda>bs.
     thenE (store_da (ob_data out) (DA_binary sz bs))
    (ret out)))))"

definition pvm_create_code_object :: "u8 list \<Rightarrow> pvm_object vm" where
  "pvm_create_code_object code = bindE (gets sizeof_da) (\<lambda>szof.
     bindE (root R_code_class) (\<lambda>cls.
     bindE (pvm_object_create_dynamic cls (int (length code + szof C_code))) (\<lambda>out.
     thenE (store_da (ob_data out) (DA_code (length code) code))
    (ret out))))"

text \<open>The two or three bytes of a syscall method: \<^verbatim>\<open>sys n; ret\<close>.\<close>

definition syscall_code :: "nat \<Rightarrow> u8 list" where
  "syscall_code sys_num =
     (if sys_num \<le> 15 then [0x80 + word_of_nat sys_num, 0x08]
      else [0x0F, word_of_nat sys_num, 0x08])"

definition pvm_create_syscall_code :: "nat \<Rightarrow> pvm_object vm" where
  "pvm_create_syscall_code sys_num = pvm_create_code_object (syscall_code sys_num)"

definition pvm_fill_syscall_interface :: "pvm_object \<Rightarrow> nat \<Rightarrow> unit vm" where
  "pvm_fill_syscall_interface iface syscall_count = iterE (\<lambda>i.
     bindE (pvm_create_syscall_code i) (\<lambda>m.
     bindE (load (ob_data iface)) (\<lambda>ob.
     bindE (of_view (as_slots (da_po_limit ob) (o_da ob))) (\<lambda>xs.
       if i < length xs then store_da (ob_data iface) (DA_slots (xs[i := m]))
       else raise Out_of_bounds))))
     [0..<syscall_count]"

section \<open>Stack pages\<close>

definition stack_page_init :: "pvm_object \<Rightarrow> nat \<Rightarrow> 'a \<Rightarrow> 'a stack_page" where
  "stack_page_init me ssize zero = \<lparr>sp_root = me, sp_curr = me, sp_prev = null_ref,
     sp_next = null_ref, sp_free_cell_ptr = 0, sp_sSize = ssize, sp_curr_da = ob_data me,
     sp_stack = replicate ssize zero\<rparr>"

definition pvm_create_general_stack_object ::
    "pvm_object \<Rightarrow> nat \<Rightarrow> nat \<Rightarrow> ('a stack_page \<Rightarrow> data_area) \<Rightarrow> 'a \<Rightarrow> pvm_object vm" where
  "pvm_create_general_stack_object object_class ssize da_size mk zero =
     bindE (pvm_object_create_dynamic object_class (int da_size)) (\<lambda>out.
     thenE (store_da (ob_data out) (mk (stack_page_init out ssize zero))) (ret out))"

definition pvm_create_istack_object :: "pvm_object vm" where
  "pvm_create_istack_object = bindE (root R_istack_class) (\<lambda>cls. bindE (gets sizeof_da) (\<lambda>szof.
     pvm_create_general_stack_object cls PVM_INTEGER_STACK_SIZE (szof C_istack) DA_istack 0))"

definition pvm_create_ostack_object :: "pvm_object vm" where
  "pvm_create_ostack_object = bindE (root R_ostack_class) (\<lambda>cls. bindE (gets sizeof_da) (\<lambda>szof.
     pvm_create_general_stack_object cls PVM_OBJECT_STACK_SIZE (szof C_ostack) DA_ostack null_ref))"

definition pvm_create_estack_object :: "pvm_object vm" where
  "pvm_create_estack_object = bindE (root R_estack_class) (\<lambda>cls. bindE (gets sizeof_da) (\<lambda>szof.
     pvm_create_general_stack_object cls PVM_EXCEPTION_STACK_SIZE (szof C_estack) DA_estack
       zero_handler))"

definition pvm_internal_init_ostack :: "addr \<Rightarrow> unit vm" where
  "pvm_internal_init_ostack os = store_da os
     (DA_ostack (stack_page_init \<lparr>ob_data = os, ob_interface = 0\<rparr> PVM_OBJECT_STACK_SIZE null_ref))"

definition pvm_internal_init_istack :: "addr \<Rightarrow> unit vm" where
  "pvm_internal_init_istack os = store_da os
     (DA_istack (stack_page_init \<lparr>ob_data = os, ob_interface = 0\<rparr> PVM_INTEGER_STACK_SIZE 0))"

definition pvm_internal_init_estack :: "addr \<Rightarrow> unit vm" where
  "pvm_internal_init_estack os = store_da os
     (DA_estack (stack_page_init \<lparr>ob_data = os, ob_interface = 0\<rparr> PVM_EXCEPTION_STACK_SIZE
        zero_handler))"

definition pvm_internal_init_call_frame :: "addr \<Rightarrow> unit vm" where
  "pvm_internal_init_call_frame os =
     bindE (load_da as_call_frame os) (\<lambda>da.
     bindE (root R_null_object) (\<lambda>null.
     thenE (store_da os (DA_call_frame (da\<lparr>cf_IP_max := 0, cf_IP := 0, cf_code := 0,
              cf_this_object := null, cf_prev := null\<rparr>)))
    (bindE pvm_create_istack_object (\<lambda>is.
     bindE (load_da as_call_frame os) (\<lambda>da.
     thenE (store_da os (DA_call_frame (da\<lparr>cf_istack := is\<rparr>)))
    (bindE pvm_create_ostack_object (\<lambda>ost.
     bindE (load_da as_call_frame os) (\<lambda>da.
     thenE (store_da os (DA_call_frame (da\<lparr>cf_ostack := ost\<rparr>)))
    (bindE pvm_create_estack_object (\<lambda>es.
     bindE (load_da as_call_frame os) (\<lambda>da.
     store_da os (DA_call_frame (da\<lparr>cf_estack := es\<rparr>)))))))))))))"

definition pvm_create_call_frame_object :: "pvm_object vm" where
  "pvm_create_call_frame_object = bindE (root R_call_frame_class) (\<lambda>cls.
     bindE (pvm_object_create_fixed cls) (\<lambda>dat.
     thenE (pvm_internal_init_call_frame (ob_data dat)) (ret dat)))"

section \<open>Computations that may exhaust memory\<close>

text \<open>
  \<open>yields m s Q\<close>: from \<open>s\<close> the computation \<open>m\<close> either reports exhausted memory or
  returns, with a result and state that satisfy \<open>Q\<close>.
\<close>

definition out_of_mem :: vm_error where
  "out_of_mem = Panic ''out of persistent mem''"

definition yields :: "'a vm \<Rightarrow> vm_state \<Rightarrow> ('a \<Rightarrow> vm_state \<Rightarrow> bool) \<Rightarrow> bool" where
  "yields m s Q \<longleftrightarrow> m s = Inl out_of_mem \<or> (\<exists>x s'. m s = Inr (x, s') \<and> Q x s')"

lemma yields_exact: "m s = Inr (x, s') \<Longrightarrow> Q x s' \<Longrightarrow> yields m s Q"
  by (simp add: yields_def)

lemma yields_ret [simp]: "yields (ret x) s Q = Q x s"
  by (simp add: yields_def)

lemma yields_bind:
  assumes m: "yields m s Q" and f: "\<And>x s'. Q x s' \<Longrightarrow> yields (f x) s' P"
  shows "yields (bindE m f) s P"
  using m unfolding yields_def
proof (elim disjE exE conjE)
  fix x s' assume "m s = Inr (x, s')" "Q x s'"
  with f show "bindE m f s = Inl out_of_mem \<or> (\<exists>x s'. bindE m f s = Inr (x, s') \<and> P x s')"
    by (simp add: bindE_apply yields_def)
qed (simp add: bindE_apply)

lemma yields_then:
  assumes "yields m s Q" and "\<And>x s'. Q x s' \<Longrightarrow> yields n s' P"
  shows "yields (thenE m n) s P"
  using yields_bind [OF assms] by (simp add: thenE_def)

lemma yields_mono: "yields m s Q \<Longrightarrow> (\<And>x s'. Q x s' \<Longrightarrow> P x s') \<Longrightarrow> yields m s P"
  by (auto simp: yields_def)

lemma yields_bind_exact: "m s = Inr (x, s') \<Longrightarrow> yields (f x) s' P \<Longrightarrow> yields (bindE m f) s P"
  by (simp add: yields_def bindE_apply)

lemma yields_then_exact: "m s = Inr (x, s') \<Longrightarrow> yields n s' P \<Longrightarrow> yields (thenE m n) s P"
  by (simp add: yields_def thenE_apply)

lemma yields_bind_ret: "m s = Inr (x, s') \<Longrightarrow> yields (bindE m f) s P = yields (f x) s' P"
  by (simp add: yields_def bindE_apply)

lemma yields_root [simp]: "yields (bindE (root r) f) s P = yields (f (pvm_root s r)) s P"
  by (simp add: root_def yields_bind_ret [of "gets g" for g])

lemma yields_gets [simp]: "yields (bindE (gets g) f) s P = yields (f (g s)) s P"
  by (simp add: yields_bind_ret [of "gets g" for g])

lemma load_da_Some:
  "heap s p = Some ob \<Longrightarrow> vw (o_da ob) = Some x \<Longrightarrow> load_da vw p s = Inr (x, s)"
  by (simp add: load_da_def bindE_apply)

lemma store_da_Some: "heap s p = Some ob \<Longrightarrow> store_da p d s = Inr ((), put_ob p (ob\<lparr>o_da := d\<rparr>) s)"
  by (simp add: store_da_def)

section \<open>A created object\<close>

definition created ::
    "vm_state \<Rightarrow> vm_state \<Rightarrow> pvm_object \<Rightarrow> pvm_object \<Rightarrow> nat \<Rightarrow> 32 word \<Rightarrow> data_area \<Rightarrow> bool" where
  "created s s' r cls n flags d \<longleftrightarrow> heap_ok s' \<and> ob_data r \<noteq> 0 \<and> ob_data r \<notin> live s \<and>
     live s' = insert (ob_data r) (live s) \<and>
     (\<forall>q. q \<in> live s \<or> q \<notin> {space_start s..<space_end s} \<longrightarrow> heap s' q = heap s q) \<and>
     s' = s\<lparr>heap := heap s', curr_a := curr_a s'\<rparr> \<and>
     (\<exists>ob. heap s' (ob_data r) = Some ob \<and> ob_live ob \<and> o_class ob = cls \<and> o_flags ob = flags \<and>
        o_da_size ob = n \<and> o_da ob = d \<and> gc_flags ob = 0 \<and> alloc_flags ob = AF_ALLOCATED \<and>
        refCount ob = 1)"

lemma createdD:
  assumes "created s s' r cls n flags d"
  shows "heap_ok s'" "ob_data r \<noteq> 0" "ob_data r \<notin> live s" "live s' = insert (ob_data r) (live s)"
    "q \<in> live s \<or> q \<notin> {space_start s..<space_end s} \<Longrightarrow> heap s' q = heap s q"
    "s' = s\<lparr>heap := heap s', curr_a := curr_a s'\<rparr>"
    "\<exists>ob. heap s' (ob_data r) = Some ob \<and> ob_live ob \<and> o_class ob = cls \<and> o_flags ob = flags \<and>
        o_da_size ob = n \<and> o_da ob = d \<and> gc_flags ob = 0 \<and> alloc_flags ob = AF_ALLOCATED \<and>
        refCount ob = 1"
  using assms unfolding created_def by blast+

lemma created_stable:
  assumes "created s s' r cls n flags d"
  shows "pvm_root s' = pvm_root s" "sizeof_da s' = sizeof_da s" "space_start s' = space_start s"
    "space_end s' = space_end s" "iclass_object s' = iclass_object s"
  by (subst createdD(6) [OF assms], simp)+

text \<open>Rewriting the class or the data area of an object keeps the heap well-formed.\<close>

lemma heap_ok_body:
  assumes ok: "heap_ok s" and ob: "heap s p = Some ob"
  shows "heap_ok (put_ob p (ob\<lparr>o_class := c, o_da := d\<rparr>) s)"
proof (rule heap_ok_shape [OF ok])
  show "live (put_ob p (ob\<lparr>o_class := c, o_da := d\<rparr>) s) \<subseteq> live s"
    using ob by (auto simp: live_def ob_live_def split: if_splits)
next
  fix b ob1 assume "heap s b = Some ob1" "tile_ok ob1"
  with ob show "\<exists>ob'. heap (put_ob p (ob\<lparr>o_class := c, o_da := d\<rparr>) s) b = Some ob' \<and> tile_ok ob' \<and>
      exact_size ob' = exact_size ob1" by (auto simp: tile_ok_def)
next
  fix q ob1 assume "heap (put_ob p (ob\<lparr>o_class := c, o_da := d\<rparr>) s) q = Some ob1" "ob_live ob1"
  with heap_okD(4) [OF ok, of q] ob show "pvm_object_is_allocated s q ob1"
    by (auto simp: pvm_object_is_allocated_def ob_live_def split: if_splits)
qed (simp_all add: put_ob_def)

lemma live_body: "heap s p = Some ob \<Longrightarrow> live (put_ob p (ob\<lparr>o_class := c, o_da := d\<rparr>) s) = live s"
  by (auto simp: live_def ob_live_def)

lemma created_put:
  assumes c: "created s s' r cls n flags d" and ob: "heap s' (ob_data r) = Some ob"
  shows "created s (put_ob (ob_data r) (ob\<lparr>o_class := cls', o_da := d'\<rparr>) s') r cls' n flags d'"
  unfolding created_def
proof (intro conjI)
  note D = createdD [OF c]
  let ?t = "put_ob (ob_data r) (ob\<lparr>o_class := cls', o_da := d'\<rparr>) s'"
  show "heap_ok ?t" by (rule heap_ok_body [OF D(1) ob])
  show "ob_data r \<noteq> 0" "ob_data r \<notin> live s" by fact+
  show "live ?t = insert (ob_data r) (live s)" using live_body [OF ob] D(4) by simp
  have "ob_data r \<in> live s'" by (simp add: D(4))
  then have "ob_data r \<in> {space_start s'..<space_end s'}" using heap_okD(3) [OF D(1)] by blast
  then have "ob_data r \<in> {space_start s..<space_end s}" by (simp add: created_stable [OF c])
  with D(3,5) show "\<forall>q. q \<in> live s \<or> q \<notin> {space_start s..<space_end s} \<longrightarrow> heap ?t q = heap s q"
    by auto
  show "?t = s\<lparr>heap := heap ?t, curr_a := curr_a ?t\<rparr>"
    by (subst (2 3) D(6)) (simp add: put_ob_def, subst D(6), simp)
  show "\<exists>ob. heap ?t (ob_data r) = Some ob \<and> ob_live ob \<and> o_class ob = cls' \<and> o_flags ob = flags \<and>
      o_da_size ob = n \<and> o_da ob = d' \<and> gc_flags ob = 0 \<and> alloc_flags ob = AF_ALLOCATED \<and>
      refCount ob = 1"
    using D(7) ob by (auto simp: ob_live_def)
qed

lemma created_store_da:
  assumes "created s s' r cls n flags d"
  shows "\<exists>s2. store_da (ob_data r) d' s' = Inr ((), s2) \<and> created s s2 r cls n flags d'"
proof -
  from createdD(7) [OF assms] obtain ob where ob: "heap s' (ob_data r) = Some ob" "o_class ob = cls"
    by blast
  have "ob\<lparr>o_da := d'\<rparr> = ob\<lparr>o_class := cls, o_da := d'\<rparr>" using ob(2) by (cases ob) simp
  with created_put [OF assms ob(1), where cls' = cls and d' = d'] store_da_Some [OF ob(1)] show ?thesis by auto
qed

definition class_at :: "vm_state \<Rightarrow> pvm_object \<Rightarrow> data_area_4_class \<Rightarrow> bool" where
  "class_at s cls cda \<longleftrightarrow> (\<exists>cob. heap s (ob_data cls) = Some cob \<and> as_class (o_da cob) = Some cda)"

lemma create_dynamic_yields:
  assumes ok: "heap_ok s" and cls: "class_at s cls cda"
    and n: "n = (if das < 0 then cl_object_data_area_size cda else nat das)" "n + 44 \<le> 2 ^ 32"
  shows "yields (pvm_object_create_dynamic cls das) s (\<lambda>r s'.
    created s s' r cls n (cl_object_flags cda) DA_zero \<and>
    ob_interface r = ob_data (cl_object_default_interface cda))"
proof -
  let ?fl = "cl_object_flags cda"
  from cls obtain cob where cob: "load_da as_class (ob_data cls) s = Inr (cda, s)"
    by (auto simp: class_at_def load_da_Some)
  from pvm_object_alloc_spec [OF ok n(2) refl refl, of ?fl False]
  have "yields (pvm_object_alloc n ?fl False) s (\<lambda>p s'. heap_ok s' \<and> allocated s s' p n ?fl False)"
    by (auto simp: yields_def out_of_mem_def)
  then have "yields (bindE (pvm_object_alloc n ?fl False) (\<lambda>out.
       thenE (update_ob out (\<lambda>ob. ob\<lparr>o_class := cls\<rparr>))
       (ret \<lparr>ob_data = out, ob_interface = ob_data (cl_object_default_interface cda)\<rparr>))) s
     (\<lambda>r s'. created s s' r cls n ?fl DA_zero \<and>
       ob_interface r = ob_data (cl_object_default_interface cda))"
  proof (rule yields_bind)
    fix p s1 assume a: "heap_ok s1 \<and> allocated s s1 p n ?fl False"
    then obtain ob where ob: "heap s1 p = Some ob" "o_da ob = DA_zero"
      by (auto simp: allocated_def)
    let ?r = "\<lparr>ob_data = p, ob_interface = ob_data (cl_object_default_interface cda)\<rparr>"
    have "created s s1 ?r (o_class ob) n ?fl DA_zero"
      using a ob by (auto simp: allocated_def created_def)
    from created_put [OF this, where ob = ob and cls' = cls and d' = DA_zero] ob
    have "created s (put_ob p (ob\<lparr>o_class := cls, o_da := DA_zero\<rparr>) s1) ?r cls n ?fl DA_zero" by simp
    moreover have "ob\<lparr>o_class := cls, o_da := DA_zero\<rparr> = ob\<lparr>o_class := cls\<rparr>" using ob(2) by (cases ob) simp
    ultimately show "yields (thenE (update_ob p (\<lambda>ob. ob\<lparr>o_class := cls\<rparr>)) (ret ?r)) s1
        (\<lambda>r s'. created s s' r cls n ?fl DA_zero \<and>
           ob_interface r = ob_data (cl_object_default_interface cda))"
      by - (rule yields_then_exact, rule update_ob_Some [OF ob(1)], simp)
  qed
  then show ?thesis
    by (simp add: pvm_object_create_dynamic_def yields_bind_ret [where m = "load_da as_class (ob_data cls)", OF cob] Let_def flip: n(1))
qed

lemma create_sized_yields:
  assumes "heap_ok s" "class_at s cls cda" "n + 44 \<le> 2 ^ 32"
  shows "yields (pvm_object_create_dynamic cls (int n)) s (\<lambda>r s'.
    created s s' r cls n (cl_object_flags cda) DA_zero)"
  by (rule yields_mono [OF create_dynamic_yields [OF assms(1,2) _ assms(3), of "int n"]]) auto

text \<open>Creation followed by the initialisation of the data area.\<close>

lemma create_with_yields:
  assumes "heap_ok s" "class_at s cls cda"
    and "n = (if das < 0 then cl_object_data_area_size cda else nat das)" "n + 44 \<le> 2 ^ 32"
  shows "yields (bindE (pvm_object_create_dynamic cls das)
      (\<lambda>out. thenE (store_da (ob_data out) (d out)) (ret out))) s
    (\<lambda>r s'. created s s' r cls n (cl_object_flags cda) (d r) \<and>
       ob_interface r = ob_data (cl_object_default_interface cda))"
proof (rule yields_bind [OF create_dynamic_yields [OF assms]])
  fix r s1 assume a: "created s s1 r cls n (cl_object_flags cda) DA_zero \<and>
    ob_interface r = ob_data (cl_object_default_interface cda)"
  then obtain s2 where "store_da (ob_data r) (d r) s1 = Inr ((), s2)"
    "created s s2 r cls n (cl_object_flags cda) (d r)"
    using created_store_da by blast
  with a show "yields (thenE (store_da (ob_data r) (d r)) (ret r)) s1
    (\<lambda>r s'. created s s' r cls n (cl_object_flags cda) (d r) \<and>
       ob_interface r = ob_data (cl_object_default_interface cda))"
    by (intro yields_then_exact) simp_all
qed

section \<open>References of a grown heap\<close>

definition classes_live :: "vm_state \<Rightarrow> bool" where
  "classes_live s \<longleftrightarrow> (\<forall>q ob. heap s q = Some ob \<longrightarrow> ob_live ob \<longrightarrow> ob_data (o_class ob) \<in> live s)"

text \<open>An iterator reads the object itself and, for a directory, its container, which it delivers.\<close>

lemma run_iter_dir:
  assumes r: "run_iter f os s = Inr (cs, s)"
    and eq: "\<And>d. f = Some C_directory \<Longrightarrow> as_directory (o_da os) = Some d \<Longrightarrow>
      dir_container d \<in> set cs \<Longrightarrow> heap t (ob_data (dir_container d)) = heap s (ob_data (dir_container d))"
  shows "run_iter f os t = Inr (cs, t)"
proof (cases "f = Some C_directory")
  case True
  with r have d: "pvm_gc_iter_directory os s = Inr (cs, s)" by (simp add: run_iter_def)
  then obtain da x where da: "as_directory (o_da os) = Some da"
    and x: "load_da as_binary (ob_data (dir_container da)) s = Inr (x, s)"
    by (auto simp: pvm_gc_iter_directory_def of_view_def elim!: bindE_InrE split: option.splits
        dest: body_reader_state [OF reader_load_da])
  from d da x have "dir_container da \<in> set cs"
    by (auto simp: pvm_gc_iter_directory_def comp_simps Let_def split: if_splits prod.splits)
  with x eq [OF True da] have "load_da as_binary (ob_data (dir_container da)) t = Inr (x, t)"
    by (auto simp: load_da_def of_view_def load_def bindE_apply split: option.splits)
  with d da x True show ?thesis
    by (auto simp: run_iter_def pvm_gc_iter_directory_def comp_simps Let_def
        split: if_splits prod.splits)
next
  case False
  with r show ?thesis
    by (cases f) (auto simp: run_iter_def pvm_gc_iter_class_def pvm_gc_iter_interface_def
        pvm_gc_iter_array_def pvm_gc_iter_page_def slots_of_def pvm_gc_iter_thread_def
        pvm_gc_iter_call_frame_def pvm_gc_iter_istack_def pvm_gc_iter_ostack_def
        pvm_gc_iter_estack_def pvm_gc_iter_bitmap_def pvm_gc_iter_closure_def
        pvm_gc_iter_window_def pvm_gc_iter_connection_def of_view_def comp_simps
        split: iclass.splits option.splits if_splits prod.splits)
qed

lemma refzero_local:
  assumes r: "refzero_children ob s = Inr (cs, s)"
    and it: "\<And>f. run_iter f ob s = Inr (cs, s) \<Longrightarrow> run_iter f ob t = Inr (cs, t)"
    and rec: "\<And>c. class_rec_of ob s = Inr (c, s) \<Longrightarrow> class_rec_of ob t = Inr (c, t)"
  shows "refzero_children ob t = Inr (cs, t)"
proof (cases "has_flag (o_flags ob) IS_INTERNAL \<and> \<not> has_flag (o_flags ob) IS_CLASS \<and>
    \<not> has_flag (o_flags ob) IS_INTERFACE \<and> \<not> has_flag (o_flags ob) IS_CODE")
  case True
  with r have "bindE (class_rec_of ob) (\<lambda>c. run_iter (ic_iter c) ob) s = Inr (cs, s)"
    by (simp add: refzero_children_def)
  then obtain c s1 where c: "class_rec_of ob s = Inr (c, s1)" "run_iter (ic_iter c) ob s1 = Inr (cs, s)"
    by (rule bindE_InrE)
  moreover from c(1) have "s1 = s" by (rule body_reader_state [OF reader_class_rec_of])
  ultimately show ?thesis
    using True rec [of c] it by (simp add: refzero_children_def bindE_apply)
next
  case False
  with r show ?thesis
    by (auto simp: refzero_children_def slots_of_def of_view_def comp_simps
        split: option.splits if_splits)
qed

text \<open>The references of an object depend on it, its class and a directory's container.\<close>

lemma kids_local:
  assumes ob: "heap s q = Some ob" "heap t q = Some ob" and ok: "kids_ok s q"
    and cls: "heap t (ob_data (o_class ob)) = heap s (ob_data (o_class ob))"
    and sz: "sizeof_da t = sizeof_da s"
    and dir: "\<And>d cs. as_directory (o_da ob) = Some d \<Longrightarrow> refzero_children ob s = Inr (cs, s) \<Longrightarrow>
      \<not> has_flag (o_flags ob) IS_CHILDFREE \<Longrightarrow> dir_container d \<in> set cs \<Longrightarrow>
      heap t (ob_data (dir_container d)) = heap s (ob_data (dir_container d))"
  shows "kids_ok t q \<and> kids t q = kids s q"
proof -
  have rec: "class_rec_of ob t = Inr (c, t)" if "class_rec_of ob s = Inr (c, s)" for c
    using that cls sz by (auto simp: class_rec_of_def load_da_def load_def of_view_def comp_simps
        split: option.splits if_splits)
  show ?thesis
  proof (cases "has_flag (o_flags ob) IS_CHILDFREE")
    case True
    with ok ob rec show ?thesis by (auto simp: kids_ok_def kids_def)
  next
    case False
    with ok ob obtain cs where cs: "refzero_children ob s = Inr (cs, s)" by (auto simp: kids_ok_def)
    have "refzero_children ob t = Inr (cs, t)"
      by (rule refzero_local [OF cs run_iter_dir rec]) (use dir cs False in auto)
    with ob cs False show ?thesis by (simp add: kids_ok_def kids_def)
  qed
qed

lemma kids_grow:
  assumes q: "q \<in> live s" "kids_ok s q" "set (kids s q) \<subseteq> live s" and cl: "classes_live s"
    and z: "heap s 0 = None" "heap t 0 = None" and sz: "sizeof_da t = sizeof_da s"
    and eq: "\<And>q. q \<in> live s \<Longrightarrow> heap t q = heap s q"
  shows "kids_ok t q \<and> kids t q = kids s q"
proof -
  from q(1) obtain ob where ob: "heap s q = Some ob" "ob_live ob" by (rule liveE)
  show ?thesis
  proof (rule kids_local [OF ob(1) _ q(2) _ sz])
    show "heap t q = Some ob" using eq [OF q(1)] ob by simp
    show "heap t (ob_data (o_class ob)) = heap s (ob_data (o_class ob))"
      using cl ob eq unfolding classes_live_def by blast
    fix d cs
    assume cs: "refzero_children ob s = Inr (cs, s)" "\<not> has_flag (o_flags ob) IS_CHILDFREE"
      "dir_container d \<in> set cs"
    then have "kids s q = filter (\<lambda>a. a \<noteq> 0) (map ob_data cs)" using ob by (simp add: kids_def)
    then show "heap t (ob_data (dir_container d)) = heap s (ob_data (dir_container d))"
      using cs(3) q(3) z eq by (cases "ob_data (dir_container d) = 0") auto
  qed
qed

lemma created_zero:
  assumes cr: "created s s' r cls n flags d" and ok: "heap_ok s" and z: "heap s 0 = None"
  shows "heap s' 0 = None"
proof -
  have "0 \<notin> {space_start s..<space_end s}"
    using heap_okD(1) [OF ok] by (simp add: arenas_ok_def PVM_MIN_FRAGMENT_SIZE_def sizeof_pvm_object_storage_def)
  with createdD(5) [OF cr, of 0] z show ?thesis by simp
qed

text \<open>
  Creation is balanced: the references the new object's fields hold are consumed, and
  one reference to it is gained.
\<close>

lemma counted_created:
  assumes c: "counted E D s (mset (kids s' p) + R)" and cr: "created s s' r cls n flags d"
    and p: "p = ob_data r" "p \<notin> D" and kp: "kids_ok s' p" and cl: "classes_live s" and ok: "heap_ok s"
  shows "counted E D s' (add_mset p R)"
proof -
  note Dr = createdD [OF cr, folded p(1)]
  from c have inv: "rc_inv E s (kids s) D (mset (kids s' p) + R)"
    by (simp add: counted_def rc_consistent_def)
  note I = rc_invD [OF inv]
  have z: "heap s' 0 = None" by (rule created_zero [OF cr ok I(2)])
  have L: "live s' - D = insert p (live s - D)" using Dr(4) p(2) by auto
  have kq: "kids_ok s' q \<and> kids s' q = kids s q" if "q \<in> live s - D" for q
    by (rule kids_grow [OF _ _ _ cl I(2) z])
      (use that I inv Dr(5) created_stable [OF cr] in \<open>auto simp: rc_inv_def\<close>)
  have sub: "set (kids s' p) \<subseteq> live s - D" "set_mset R \<subseteq> live s - D" using I(3) by auto
  have K: "set (kids s q) \<subseteq> live s - D" if "q \<in> live s - D" for q
    using inv that by (simp add: rc_inv_def)
  have refs: "in_refs s' (kids s') D (add_mset p R) q =
      in_refs s (kids s) D (mset (kids s' p) + R) q + (if q = p then 1 else 0)" for q
    using Dr(3) I(1) kq by (simp add: in_refs_def L count_list_mset)
  have "count_list (kids s q) p = 0" if "q \<in> live s - D" for q
    using K [OF that] Dr(3) by (auto simp: count_list_0_iff)
  moreover have "count (mset (kids s' p) + R) p = 0"
    using sub Dr(3) by (intro count_eq_zero_iff [THEN iffD2]) auto
  ultimately have zero: "in_refs s (kids s) D (mset (kids s' p) + R) p = 0"
    by (simp only: in_refs_def) simp
  have "rc_inv E s' (kids s') D (add_mset p R)"
    unfolding rc_inv_def L
  proof (intro conjI)
    show "finite (live s')" using Dr(4) I(1) by simp
    show "heap s' 0 = None" by fact
    show "set_mset (add_mset p R) \<subseteq> insert p (live s - D)" using sub by auto
    show "\<forall>q \<in> insert p (live s - D). kids_ok s' q \<and> set (kids s' q) \<subseteq> insert p (live s - D) \<and>
        rc_ok E (in_refs s' (kids s') D (add_mset p R) q) (rc s' q) \<and> rc s' q \<le> INT_MAX"
    proof
      fix q assume "q \<in> insert p (live s - D)"
      then consider "q = p" | "q \<in> live s - D" "q \<noteq> p" by auto
      then show "kids_ok s' q \<and> set (kids s' q) \<subseteq> insert p (live s - D) \<and>
          rc_ok E (in_refs s' (kids s') D (add_mset p R) q) (rc s' q) \<and> rc s' q \<le> INT_MAX"
      proof cases
        case 1
        with Dr(7) have "rc s' q = 1" by (auto simp: rc_def)
        with 1 kp sub zero refs show ?thesis by (auto simp: rc_ok_def INT_MAX_def)
      next
        case 2
        with Dr(5) [of q] have "rc s' q = rc s q" by (simp add: rc_def)
        with 2 kq [of q] refs [of q] inv K [of q] show ?thesis by (auto simp: rc_inv_def)
      qed
    qed
  qed
  moreover have "live s' \<subseteq> {space_start s'..<space_end s'}" by (rule heap_okD(3) [OF Dr(1)])
  ultimately show ?thesis by (simp add: counted_def rc_consistent_def)
qed

lemma classes_live_created:
  assumes cl: "classes_live s" and cr: "created s s' r cls n flags d" and cls: "ob_data cls \<in> live s"
  shows "classes_live s'"
  unfolding classes_live_def
proof (intro allI impI)
  fix q ob assume q: "heap s' q = Some ob" "ob_live ob"
  note Dr = createdD [OF cr]
  from q have "q \<in> live s'" by (auto simp: live_def)
  with Dr(4) consider "q = ob_data r" | "q \<in> live s" by auto
  then show "ob_data (o_class ob) \<in> live s'"
  proof cases
    case 1 with q Dr(7) cls Dr(4) show ?thesis by auto
  next
    case 2 with q Dr(5) [of q] cl Dr(4) show ?thesis by (auto simp: classes_live_def)
  qed
qed

section \<open>The creators\<close>

lemma create_int_yields:
  assumes "heap_ok s" "class_at s (pvm_root s R_int_class) cda"
    and "cl_object_data_area_size cda + 44 \<le> 2 ^ 32"
  shows "yields (pvm_create_int_object v) s (\<lambda>r s'.
    created s s' r (pvm_root s R_int_class) (cl_object_data_area_size cda) (cl_object_flags cda)
      (DA_int v))"
  using create_with_yields [OF assms(1,2) _ assms(3), of "-1" "\<lambda>_. DA_int v"]
  by (auto simp: pvm_create_int_object_def pvm_object_create_fixed_def elim: yields_mono)

lemma create_long_yields:
  assumes "heap_ok s" "class_at s (pvm_root s R_long_class) cda"
    and "cl_object_data_area_size cda + 44 \<le> 2 ^ 32"
  shows "yields (pvm_create_long_object v) s (\<lambda>r s'.
    created s s' r (pvm_root s R_long_class) (cl_object_data_area_size cda) (cl_object_flags cda)
      (DA_long v))"
  using create_with_yields [OF assms(1,2) _ assms(3), of "-1" "\<lambda>_. DA_long v"]
  by (auto simp: pvm_create_long_object_def pvm_object_create_fixed_def elim: yields_mono)

lemma create_code_yields:
  assumes "heap_ok s" "class_at s (pvm_root s R_code_class) cda"
    and "length code + sizeof_da s C_code + 44 \<le> 2 ^ 32"
  shows "yields (pvm_create_code_object code) s (\<lambda>r s'.
    created s s' r (pvm_root s R_code_class) (length code + sizeof_da s C_code)
      (cl_object_flags cda) (DA_code (length code) code))"
  using create_with_yields [OF assms(1,2) _ assms(3), of "int (length code + sizeof_da s C_code)"
      "\<lambda>_. DA_code (length code) code"]
  by (auto simp: pvm_create_code_object_def simp del: of_nat_add elim: yields_mono)

lemma create_general_stack_yields:
  assumes "heap_ok s" "class_at s cls cda" "da_size + 44 \<le> 2 ^ 32"
  shows "yields (pvm_create_general_stack_object cls ssize da_size mk zero) s (\<lambda>r s'.
    created s s' r cls da_size (cl_object_flags cda) (mk (stack_page_init r ssize zero)))"
  using create_with_yields [OF assms(1,2) _ assms(3), of "int da_size"
      "\<lambda>r. mk (stack_page_init r ssize zero)"]
  by (auto simp: pvm_create_general_stack_object_def elim: yields_mono)

lemma created_twice_da:
  assumes "created s s' r cls n flags d"
  shows "yields (thenE (store_da (ob_data r) d1) (thenE (store_da (ob_data r) d2) (ret r))) s'
    (\<lambda>r' s2. r' = r \<and> created s s2 r cls n flags d2)"
proof -
  from created_store_da [OF assms, of d1] obtain s1 where
    s1: "store_da (ob_data r) d1 s' = Inr ((), s1)" "created s s1 r cls n flags d1" by blast
  from created_store_da [OF s1(2), of d2] obtain s2 where
    s2: "store_da (ob_data r) d2 s1 = Inr ((), s2)" "created s s2 r cls n flags d2" by blast
  show ?thesis
    by (rule yields_then_exact, rule s1(1), rule yields_then_exact, rule s2(1)) (simp add: s2(2))
qed

lemma create_string_yields:
  assumes "heap_ok s" "class_at s (pvm_root s R_string_class) cda"
    and "sizeof_da s C_string + length bs + 44 \<le> 2 ^ 32"
  shows "yields (pvm_create_string_object_binary (Some bs) (length bs)) s (\<lambda>r s'.
    created s s' r (pvm_root s R_string_class) (sizeof_da s C_string + length bs)
      (cl_object_flags cda) (DA_string (length bs) bs))"
proof -
  let ?n = "sizeof_da s C_string + length bs" and ?cls = "pvm_root s R_string_class"
  have "yields (bindE (pvm_object_create_dynamic ?cls (int ?n)) (\<lambda>dat.
      thenE (store_da (ob_data dat) (DA_string 0 []))
     (thenE (store_da (ob_data dat) (DA_string (length bs) bs)) (ret dat)))) s
    (\<lambda>r s'. created s s' r ?cls ?n (cl_object_flags cda) (DA_string (length bs) bs))"
    by (rule yields_bind [OF create_sized_yields [OF assms(1-3)]])
      (auto elim: yields_mono [OF created_twice_da])
  then show ?thesis
    by (simp add: pvm_create_string_object_binary_def pvm_internal_init_string_def memcpy_bytes_def
        del: of_nat_add)
qed

lemma create_page_yields:
  assumes "heap_ok s" "class_at s (pvm_root s R_page_class) cda"
    and "n_slots * 8 < 2 ^ 31" and "length init < n_slots"
  shows "yields (pvm_create_page_object n_slots init) s (\<lambda>r s'.
    created s s' r (pvm_root s R_page_class) (n_slots * 8) (cl_object_flags cda)
      (DA_slots (init @ replicate (n_slots - length init) (pvm_root s R_null_object))) \<and>
    ob_interface r = ob_data (cl_object_default_interface cda))"
proof -
  let ?xs = "init @ replicate (n_slots - length init) (pvm_root s R_null_object)"
  let ?cls = "pvm_root s R_page_class"
  have s32: "s32 (n_slots * 8) = int (n_slots * 8)" using assms(3) by (simp add: s32_def u32_def)
  have "yields (bindE (pvm_object_create_dynamic ?cls (s32 (n_slots * 8))) (\<lambda>dat.
      thenE (assertE ''init_slots < n_slots'' (length init < n_slots))
     (bindE (root R_null_object) (\<lambda>null. bindE (load (ob_data dat)) (\<lambda>ob.
      if o_da_size ob < n_slots * 8 then raise Out_of_bounds
      else thenE (store_da (ob_data dat) (DA_slots (init @ replicate (n_slots - length init) null)))
     (ret dat)))))) s
    (\<lambda>r s'. created s s' r ?cls (n_slots * 8) (cl_object_flags cda) (DA_slots ?xs) \<and>
       ob_interface r = ob_data (cl_object_default_interface cda))"
    unfolding s32
  proof (rule yields_bind [OF create_dynamic_yields [OF assms(1,2), of "n_slots * 8"]])
    fix r s1 assume "created s s1 r ?cls (n_slots * 8) (cl_object_flags cda) DA_zero \<and>
      ob_interface r = ob_data (cl_object_default_interface cda)"
    then have c: "created s s1 r ?cls (n_slots * 8) (cl_object_flags cda) DA_zero"
      and i: "ob_interface r = ob_data (cl_object_default_interface cda)" by auto
    from created_store_da [OF c, of "DA_slots ?xs"] obtain s2 where
      s2: "store_da (ob_data r) (DA_slots ?xs) s1 = Inr ((), s2)"
        "created s s2 r ?cls (n_slots * 8) (cl_object_flags cda) (DA_slots ?xs)" by blast
    show "yields (thenE (assertE ''init_slots < n_slots'' (length init < n_slots))
     (bindE (root R_null_object) (\<lambda>null. bindE (load (ob_data r)) (\<lambda>ob.
      if o_da_size ob < n_slots * 8 then raise Out_of_bounds
      else thenE (store_da (ob_data r) (DA_slots (init @ replicate (n_slots - length init) null)))
     (ret r))))) s1
    (\<lambda>r s'. created s s' r ?cls (n_slots * 8) (cl_object_flags cda) (DA_slots ?xs) \<and>
       ob_interface r = ob_data (cl_object_default_interface cda))"
      using s2 assms(4) i created_stable(1) [OF c] createdD(7) [OF c]
      by (auto simp: yields_def comp_simps root_def load_def)
  qed (use assms(3) in simp_all)
  then show ?thesis
    by (simp add: pvm_create_page_object_def sizeof_pvm_object_def del: of_nat_mult)
qed

section \<open>A standard environment\<close>

text \<open>
  The states in which the virtual machine runs: the heap is well-formed, the null object
  and the classes of the built-in kinds of object are live, and no prescribed size is out
  of range.
\<close>

definition null_of :: "vm_state \<Rightarrow> addr" where
  "null_of s = ob_data (pvm_root s R_null_object)"

definition class_roots :: "root_slot set" where
  "class_roots = {R_null_class, R_class_class, R_interface_class, R_code_class, R_int_class,
     R_long_class, R_string_class, R_array_class, R_page_class, R_thread_class, R_call_frame_class,
     R_istack_class, R_ostack_class, R_estack_class, R_binary_class}"

definition std_env :: "vm_state \<Rightarrow> bool" where
  "std_env s \<longleftrightarrow> heap_ok s \<and> null_of s \<in> live s \<and> (\<forall>c. sizeof_da s c + 44 \<le> 2 ^ 32) \<and>
     (\<forall>r \<in> class_roots. \<exists>cob cda. heap s (ob_data (pvm_root s r)) = Some cob \<and> ob_live cob \<and>
        o_da cob = DA_class cda \<and> cl_object_data_area_size cda + 44 \<le> 2 ^ 32)"

lemma std_envD:
  assumes "std_env s"
  shows "heap_ok s" "null_of s \<in> live s" "sizeof_da s c + 44 \<le> 2 ^ 32"
    "r \<in> class_roots \<Longrightarrow> \<exists>cda. class_at s (pvm_root s r) cda \<and> cl_object_data_area_size cda + 44 \<le> 2 ^ 32"
    "r \<in> class_roots \<Longrightarrow> ob_data (pvm_root s r) \<in> live s"
proof -
  show "heap_ok s" "null_of s \<in> live s" "sizeof_da s c + 44 \<le> 2 ^ 32"
    using assms by (simp_all add: std_env_def)
  assume r: "r \<in> class_roots"
  then obtain cob cda where c: "heap s (ob_data (pvm_root s r)) = Some cob" "ob_live cob"
    "o_da cob = DA_class cda" "cl_object_data_area_size cda + 44 \<le> 2 ^ 32"
    using assms unfolding std_env_def by meson
  then show "\<exists>cda. class_at s (pvm_root s r) cda \<and> cl_object_data_area_size cda + 44 \<le> 2 ^ 32"
    by (auto simp: class_at_def)
  show "ob_data (pvm_root s r) \<in> live s" using c by (auto simp: live_def)
qed

lemma std_env_put:
  assumes e: "std_env s" and ob: "heap s p = Some ob" and nc: "\<And>c. o_da ob \<noteq> DA_class c"
  shows "std_env (put_ob p (ob\<lparr>o_da := d\<rparr>) s)"
proof -
  let ?t = "put_ob p (ob\<lparr>o_da := d\<rparr>) s"
  have b: "ob\<lparr>o_da := d\<rparr> = ob\<lparr>o_class := o_class ob, o_da := d\<rparr>" by (cases ob) simp
  have "heap_ok ?t" by (subst b, rule heap_ok_body [OF std_envD(1) [OF e] ob])
  moreover have "live ?t = live s" by (subst b, rule live_body [OF ob])
  moreover have r: "pvm_root ?t = pvm_root s" "sizeof_da ?t = sizeof_da s" by (simp_all add: put_ob_def)
  moreover have "\<exists>cob cda. heap ?t (ob_data (pvm_root s r)) = Some cob \<and> ob_live cob \<and>
      o_da cob = DA_class cda \<and> cl_object_data_area_size cda + 44 \<le> 2 ^ 32" if "r \<in> class_roots" for r
  proof -
    from e that obtain cob cda where c: "heap s (ob_data (pvm_root s r)) = Some cob" "ob_live cob"
      "o_da cob = DA_class cda" "cl_object_data_area_size cda + 44 \<le> 2 ^ 32"
      unfolding std_env_def by meson
    with ob nc have "ob_data (pvm_root s r) \<noteq> p" by auto
    with c show ?thesis by auto
  qed
  ultimately show ?thesis using e by (simp add: std_env_def null_of_def)
qed

lemma std_env_created:
  assumes e: "std_env s" and cr: "created s s' r cls n fl d"
  shows "std_env s'"
proof -
  note D = createdD [OF cr] and S = created_stable [OF cr]
  have "\<exists>cob cda. heap s' (ob_data (pvm_root s r)) = Some cob \<and> ob_live cob \<and>
      o_da cob = DA_class cda \<and> cl_object_data_area_size cda + 44 \<le> 2 ^ 32" if r: "r \<in> class_roots" for r
    using D(5) [of "ob_data (pvm_root s r)"] std_envD(5) [OF e r] e r by (simp add: std_env_def)
  with D e show ?thesis by (auto simp: std_env_def S null_of_def)
qed

end
