(* ===== verification/Sample_Heap.thy ===== *)
theory Sample_Heap
  imports Object_Create
begin

text \<open>
  Concrete heaps for the witnesses: a list of objects laid out one after the other in the
  first arena, the other arenas free. Any such heap is well-formed.
\<close>

definition sample_ob :: "pvm_object \<Rightarrow> 32 word \<Rightarrow> data_area \<Rightarrow> pvm_object_storage" where
  "sample_ob cls fl d = \<lparr>object_start_marker = PVM_OBJECT_START_MARKER, refCount = 1,
     alloc_flags = AF_ALLOCATED, gc_flags = 0, exact_size = 64, o_class = cls,
     o_satellites = null_ref, o_flags = fl, o_da_size = 8, o_da = d\<rparr>"

definition spot :: "nat \<Rightarrow> addr" where
  "spot i = 1024 + 64 * i"

definition at_spot :: "nat \<Rightarrow> pvm_object" where
  "at_spot i = \<lparr>ob_data = spot i, ob_interface = 0\<rparr>"

definition laid_out :: "pvm_object_storage list \<Rightarrow> (root_slot \<Rightarrow> pvm_object) \<Rightarrow> vm_state" where
  "laid_out obs roots = (small_state (\<lambda>p.
       if 1024 \<le> p \<and> (p - 1024) mod 64 = 0 \<and> (p - 1024) div 64 < length obs
       then Some (obs ! ((p - 1024) div 64))
       else if p \<in> {spot (length obs), spot (length obs) + 4096, spot (length obs) + 8192,
                     spot (length obs) + 12288}
       then Some (block AF_FREE 4096 0 []) else None))
     \<lparr>space_start := 1024, space_end := spot (length obs) + 16384,
      start_a := [1024, spot (length obs), spot (length obs) + 4096, spot (length obs) + 8192,
                  spot (length obs) + 12288],
      end_a := [spot (length obs), spot (length obs) + 4096, spot (length obs) + 8192,
                spot (length obs) + 12288, spot (length obs) + 16384],
      curr_a := [1024, spot (length obs), spot (length obs) + 4096, spot (length obs) + 8192,
                 spot (length obs) + 12288],
      pvm_root := roots, sizeof_da := (\<lambda>_. 8)\<rparr>"

lemma laid_out_sel [simp]:
  "pvm_root (laid_out obs roots) = roots" "sizeof_da (laid_out obs roots) = (\<lambda>_. 8)"
  "i < length obs \<Longrightarrow> heap (laid_out obs roots) (spot i) = Some (obs ! i)"
  by (simp_all add: laid_out_def spot_def small_state_def)

lemma heap_laid_out:
  "heap (laid_out obs roots) p = Some ob \<Longrightarrow>
     (\<exists>i < length obs. p = spot i \<and> ob = obs ! i) \<or> \<not> ob_live ob"
  by (auto simp: laid_out_def small_state_def spot_def split: if_splits)

lemma spot_eq [simp]: "spot i = spot j \<longleftrightarrow> i = j"
  by (simp add: spot_def)

lemma at_spot_sel [simp]: "ob_data (at_spot i) = spot i" "ob_interface (at_spot i) = 0"
  by (simp_all add: at_spot_def)

lemma spot_pos [simp]: "0 < spot i"
  by (simp add: spot_def)

definition sample_ok :: "pvm_object_storage \<Rightarrow> bool" where
  "sample_ok ob \<longleftrightarrow> object_start_marker ob = PVM_OBJECT_START_MARKER \<and> 0 < refCount ob \<and>
     alloc_flags ob = AF_ALLOCATED \<and> exact_size ob = 64 \<and> o_da_size ob \<le> 16"

lemma sample_ob_ok [simp]: "sample_ok (sample_ob cls fl d)"
  by (simp add: sample_ok_def sample_ob_def)

lemma sample_ob_sel [simp]:
  "o_class (sample_ob cls fl d) = cls" "o_flags (sample_ob cls fl d) = fl"
  "o_da (sample_ob cls fl d) = d" "refCount (sample_ob cls fl d) = 1" "o_da_size (sample_ob cls fl d) = 8"
  by (simp_all add: sample_ob_def)

lemma sample_ok_live: "sample_ok ob \<Longrightarrow> ob_live ob"
  by (simp add: sample_ok_def ob_live_def has_flag_def alloc_flag_defs)

lemma sample_ob_live [simp]: "ob_live (sample_ob cls fl d)"
  by (rule sample_ok_live) simp

definition samples :: "pvm_object_storage list \<Rightarrow> bool" where
  "samples obs \<longleftrightarrow> (\<forall>ob \<in> set obs. sample_ok ob) \<and> 0 < length obs \<and> length obs < 1000"

lemma samplesD: "samples obs \<Longrightarrow> i < length obs \<Longrightarrow> sample_ok (obs ! i)"
  by (auto simp: samples_def)

lemma laid_out_geometry [simp]:
  "start_a (laid_out obs roots) = [1024, spot (length obs), spot (length obs) + 4096,
     spot (length obs) + 8192, spot (length obs) + 12288]"
  "end_a (laid_out obs roots) = [spot (length obs), spot (length obs) + 4096,
     spot (length obs) + 8192, spot (length obs) + 12288, spot (length obs) + 16384]"
  "curr_a (laid_out obs roots) = [1024, spot (length obs), spot (length obs) + 4096,
     spot (length obs) + 8192, spot (length obs) + 12288]"
  "space_start (laid_out obs roots) = 1024" "space_end (laid_out obs roots) = spot (length obs) + 16384"
  by (simp_all add: laid_out_def small_state_def)

lemma live_laid_out:
  assumes "samples obs"
  shows "live (laid_out obs roots) = spot ` {0..<length obs}"
proof
  show "live (laid_out obs roots) \<subseteq> spot ` {0..<length obs}"
    using heap_laid_out unfolding live_def by fastforce
  show "spot ` {0..<length obs} \<subseteq> live (laid_out obs roots)"
    using samplesD [OF assms] by (auto simp: live_def sample_ok_live)
qed

lemma tiles_laid_out:
  assumes ok: "samples obs"
  shows "m \<le> length obs \<Longrightarrow> tiles (heap (laid_out obs roots)) (spot (length obs - m))
    (map spot [length obs - m..<length obs]) (spot (length obs))"
proof (induction m)
  case (Suc m)
  let ?i = "length obs - Suc m"
  have i: "?i < length obs" "Suc ?i = length obs - m" using Suc.prems by auto
  then have up: "[?i..<length obs] = ?i # [length obs - m..<length obs]" by (simp add: upt_rec)
  have "sample_ok (obs ! ?i)" by (rule samplesD [OF ok i(1)])
  moreover have "spot ?i + 64 = spot (length obs - m)" by (simp add: spot_def i(2) [symmetric])
  ultimately show ?case
    using Suc i unfolding up
    by (simp add: tile_ok_def sample_ok_def has_flag_def alloc_flag_defs)
qed simp

lemma laid_out_arena:
  assumes ok: "samples obs"
  shows "\<forall>k < ARENAS. arena_ok (laid_out obs roots) k"
proof -
  let ?s = "laid_out obs roots" and ?e = "spot (length obs)"
  have n: "0 < length obs" "length obs < 1000" using ok by (auto simp: samples_def)
  have "tiles (heap ?s) 1024 (map spot [0..<length obs]) ?e"
    using tiles_laid_out [OF ok, of "length obs"] by (simp add: spot_def)
  moreover have "map spot [0..<length obs] = 1024 # map spot [1..<length obs]"
    using n(1) by (simp add: upt_rec [of 0] spot_def)
  ultimately have 0: "arena_inv ?s 1024 ?e ([] @ 1024 # map spot [1..<length obs])"
    using live_laid_out [OF ok] n by (auto simp: arena_inv_def spot_def)
  have free: "arena_inv ?s (?e + d) (?e + d + 4096) ([] @ [?e + d])" if "d \<in> {0, 4096, 8192, 12288}" for d
    using that n live_laid_out [OF ok] by (auto simp: arena_inv_def laid_out_def small_state_def spot_def)
  show ?thesis
    unfolding all_arenas
    using arena_okI [of ?s 0 "[]" "map spot [1..<length obs]"] arena_okI [of ?s 1 "[]" "[]"]
      arena_okI [of ?s 2 "[]" "[]"] arena_okI [of ?s 3 "[]" "[]"] arena_okI [of ?s 4 "[]" "[]"]
      0 free [of 0] free [of 4096] free [of 8192] free [of 12288]
    by (simp add: add.assoc)
qed

lemma heap_ok_laid_out:
  assumes ok: "samples obs"
  shows "heap_ok (laid_out obs roots)"
  unfolding heap_ok_def
proof (intro conjI laid_out_arena [OF ok] allI impI)
  let ?s = "laid_out obs roots"
  have n: "0 < length obs" "length obs < 1000" using ok by (auto simp: samples_def)
  show "arenas_ok ?s"
    unfolding arenas_ok_def all_arenas using n
    by (simp add: ARENAS_def PVM_MIN_FRAGMENT_SIZE_def sizeof_pvm_object_storage_def spot_def)
  show "live ?s \<subseteq> {space_start ?s..<space_end ?s}"
    unfolding live_laid_out [OF ok] by (auto simp: spot_def)
  fix p ob assume p: "heap ?s p = Some ob" "ob_live ob"
  then obtain i where i: "i < length obs" "p = spot i" "ob = obs ! i" using heap_laid_out by blast
  then have "sample_ok ob" using samplesD [OF ok] by simp
  moreover have "u32_sub (space_end ?s) p = space_end ?s - p"
    by (rule u32_sub_le) (use i n in \<open>simp_all add: spot_def\<close>)
  ultimately show "pvm_object_is_allocated ?s p ob"
    using i by (simp add: pvm_object_is_allocated_def sample_ok_def u32_def has_flag_def alloc_flag_defs
        sizeof_pvm_object_storage_def PVM_MIN_FRAGMENT_SIZE_def spot_def)
qed

lemma std_env_laid_out:
  assumes ok: "samples obs" and null: "ob_data (roots R_null_object) = spot i" "i < length obs"
    and cls: "\<And>r. r \<in> class_roots \<Longrightarrow> \<exists>j < length obs. ob_data (roots r) = spot j \<and>
      (\<exists>cda. o_da (obs ! j) = DA_class cda \<and> cl_object_data_area_size cda + 44 \<le> 2 ^ 32)"
  shows "std_env (laid_out obs roots)"
  unfolding std_env_def
proof (intro conjI ballI)
  show "heap_ok (laid_out obs roots)" by (rule heap_ok_laid_out [OF ok])
  show "null_of (laid_out obs roots) \<in> live (laid_out obs roots)"
    unfolding live_laid_out [OF ok] using null by (simp add: null_of_def)
  show "\<forall>c. sizeof_da (laid_out obs roots) c + 44 \<le> 2 ^ 32" by simp
  fix r assume "r \<in> class_roots"
  with cls obtain j cda where j: "j < length obs" "ob_data (roots r) = spot j"
    "o_da (obs ! j) = DA_class cda" "cl_object_data_area_size cda + 44 \<le> 2 ^ 32" by blast
  with samplesD [OF ok j(1)] show "\<exists>cob cda. heap (laid_out obs roots) (ob_data (pvm_root (laid_out obs roots) r)) =
      Some cob \<and> ob_live cob \<and> o_da cob = DA_class cda \<and> cl_object_data_area_size cda + 44 \<le> 2 ^ 32"
    by (auto simp: sample_ok_live)
qed

definition sample_class :: "32 word \<Rightarrow> data_area" where
  "sample_class fl = DA_class (zero_class\<lparr>cl_object_data_area_size := 8, cl_object_flags := fl\<rparr>)"

text \<open>The null object at the first place, one class for everything at the second.\<close>

definition sample_roots :: "root_slot \<Rightarrow> pvm_object" where
  "sample_roots r = (if r = R_null_object then at_spot 0 else at_spot 1)"

definition sample_state :: "32 word \<Rightarrow> data_area list \<Rightarrow> vm_state" where
  "sample_state fl ds = laid_out (sample_ob (at_spot 1) IS_CHILDFREE DA_zero #
     sample_ob (at_spot 1) (IS_INTERNAL OR IS_CLASS) (sample_class fl) #
     map (sample_ob (at_spot 1) fl) ds) sample_roots"

lemma sample_state_samples:
  "length ds < 900 \<Longrightarrow> samples (sample_ob (at_spot 1) IS_CHILDFREE DA_zero #
     sample_ob (at_spot 1) (IS_INTERNAL OR IS_CLASS) (sample_class fl) #
     map (sample_ob (at_spot 1) fl) ds)"
  by (auto simp: samples_def)

lemma sample_state_env: "length ds < 900 \<Longrightarrow> std_env (sample_state fl ds)"
  unfolding sample_state_def
  by (rule std_env_laid_out [OF sample_state_samples, where i = 0])
    (auto simp: sample_roots_def at_spot_def class_roots_def sample_class_def zero_class_def
      intro!: exI [of _ "Suc 0"])

lemma sample_state_heap:
  "i < length ds \<Longrightarrow> heap (sample_state fl ds) (spot (Suc (Suc i))) = Some (sample_ob (at_spot 1) fl (ds ! i))"
  by (simp add: sample_state_def)

lemma sample_state_null [simp]: "null_of (sample_state fl ds) = spot 0"
  by (simp add: sample_state_def null_of_def sample_roots_def at_spot_def)

end
