(* ===== verification/Object_Fields.thy ===== *)
theory Object_Fields
  imports Sample_Heap
begin

text \<open>
  Field access, arrays, class tests and copying (\<^verbatim>\<open>phantom/vm/object.c\<close>). Writing a field
  is proved balanced for the reference counter: the slot takes over the caller's reference
  and gives up the one it held. Arrays are proved to behave as lists that grow on demand.
\<close>

section \<open>Model\<close>

definition verify_p :: "addr \<Rightarrow> unit vm" where
  "verify_p p = (if p = 0 then ret ()
     else bindE (load p) (\<lambda>ob. if \<not> pvm_object_is_allocated_light ob
            then raise (Panic ''freed object accessed'') else ret ()))"

definition verify_o :: "pvm_object \<Rightarrow> unit vm" where
  "verify_o r = (if ob_data r \<noteq> 0 then thenE (verify_p (ob_data r)) (verify_p (ob_interface r)) else ret ())"

definition is_internal :: "pvm_object_storage \<Rightarrow> bool" where
  "is_internal ob \<longleftrightarrow> has_flag (o_flags ob) IS_INTERNAL"

definition is_resizeable :: "pvm_object_storage \<Rightarrow> bool" where
  "is_resizeable ob \<longleftrightarrow> has_flag (o_flags ob) IS_RESIZEABLE"

text \<open>\<open>rec\<close> is the recursive \<^verbatim>\<open>pvm_get_ofield\<close>, called on the array's page.\<close>

definition pvm_get_array_ofield ::
    "(pvm_object \<Rightarrow> nat \<Rightarrow> pvm_object vm) \<Rightarrow> addr \<Rightarrow> nat \<Rightarrow> pvm_object vm" where
  "pvm_get_array_ofield rec o' slot =
     thenE (verify_p o')
    (bindE (load o') (\<lambda>ob.
       if \<not> is_internal ob \<or> \<not> is_resizeable ob
       then raise (Exec_panic ''attempt to do an array op to non-array'')
       else bindE (of_view (as_array (o_da ob))) (\<lambda>da.
         if slot \<ge> arr_used_slots da then raise (Exec_panic ''load: array index out of bounds'')
         else rec (arr_page da) slot)))"

text \<open>Slot \<open>slot\<close> of the \<^verbatim>\<open>da_po_ptr\<close> view, checked against the limit.\<close>

definition slot_at :: "string \<Rightarrow> pvm_object_storage \<Rightarrow> nat \<Rightarrow> pvm_object vm" where
  "slot_at msg ob slot =
     (if slot \<ge> da_po_limit ob then raise (Exec_panic msg)
      else bindE (slots_of ob) (\<lambda>xs. ret (xs ! slot)))"

definition pvm_get_ofield_step ::
    "(pvm_object \<Rightarrow> nat \<Rightarrow> pvm_object vm) \<Rightarrow> pvm_object \<Rightarrow> nat \<Rightarrow> pvm_object vm" where
  "pvm_get_ofield_step rec op slot =
     thenE (verify_o op)
    (bindE (load (ob_data op)) (\<lambda>ob.
       if is_internal ob
       then if is_resizeable ob then pvm_get_array_ofield rec (ob_data op) slot
            else raise (Exec_panic ''attempt to load from internal'')
       else bindE (slot_at ''load: slot index out of bounds'' ob slot) (\<lambda>r.
         thenE (verify_o r) (ret r))))"

primrec pvm_get_ofield_n :: "nat \<Rightarrow> pvm_object \<Rightarrow> nat \<Rightarrow> pvm_object vm" where
  "pvm_get_ofield_n 0 = (\<lambda>op slot. raise Diverges)"
| "pvm_get_ofield_n (Suc n) = (\<lambda>op slot. pvm_get_ofield_step (pvm_get_ofield_n n) op slot)"

text \<open>
  The fuel bounds the depth of arrays used as the page of an array; there are fewer
  objects than addresses.
\<close>

definition pvm_get_ofield :: "pvm_object \<Rightarrow> nat \<Rightarrow> pvm_object vm" where
  "pvm_get_ofield op slot = bindE (gets ref_dec_fuel) (\<lambda>n. pvm_get_ofield_n (Suc n) op slot)"

definition pvm_get_field :: "addr \<Rightarrow> nat \<Rightarrow> pvm_object vm" where
  "pvm_get_field o' slot =
     thenE (verify_p o')
    (bindE (load o') (\<lambda>ob.
       if is_internal ob
       then if is_resizeable ob then pvm_get_array_ofield pvm_get_ofield o' slot
            else raise (Exec_panic ''attempt to load from internal'')
       else bindE (slot_at ''save: slot index out of bounds'' ob slot) (\<lambda>r.
         thenE (verify_o r) (ret r))))"

text \<open>The slot is given a new value and the old value's reference is dropped first.\<close>

definition replace_slot :: "string \<Rightarrow> addr \<Rightarrow> nat \<Rightarrow> pvm_object \<Rightarrow> unit vm" where
  "replace_slot msg o' slot v =
     bindE (load o') (\<lambda>ob. bindE (slot_at msg ob slot) (\<lambda>old.
     thenE (whenE (ob_data old \<noteq> 0) (ref_dec_o old))
    (bindE (load o') (\<lambda>ob'. bindE (slots_of ob') (\<lambda>xs.
       store_da o' (DA_slots (xs[slot := v]))))))) "

text \<open>The new size is a signed \<^verbatim>\<open>int\<close>: beyond $2^{31}$ it is negative and below 16.\<close>

definition array_new_page_size :: "nat \<Rightarrow> nat" where
  "array_new_page_size slot =
     (let step = 1024; n = (if slot < step div 2 then u32 (slot * 2) else u32 (slot + step))
      in if n < 16 \<or> 2 ^ 31 \<le> n then 16 else n)"

text \<open>The test \<^verbatim>\<open>(!pvm_is_null(da->page)) && da->page_size > 0\<close> selects the copied prefix.\<close>

definition grow_array :: "addr \<Rightarrow> nat \<Rightarrow> unit vm" where
  "grow_array o' slot = bindE (load_da as_array o') (\<lambda>da.
     bindE (gets (\<lambda>s. pvm_is_null s (arr_page da))) (\<lambda>nopage.
     if nopage \<or> slot \<ge> arr_page_size da
     then let new_page_size = array_new_page_size slot in
          bindE (if \<not> nopage \<and> arr_page_size da > 0
                 then bindE (load (ob_data (arr_page da))) (\<lambda>pob.
                      bindE (slots_of pob) (\<lambda>xs.
                        if length xs < arr_page_size da then raise Out_of_bounds
                        else pvm_create_page_object new_page_size (take (arr_page_size da) xs)))
                 else pvm_create_page_object new_page_size []) (\<lambda>page.
          bindE (load_da as_array o') (\<lambda>da'.
          store_da o' (DA_array (da'\<lparr>arr_page := page, arr_page_size := new_page_size\<rparr>))))
     else ret ()))"

definition pvm_set_array_ofield ::
    "(pvm_object \<Rightarrow> nat \<Rightarrow> pvm_object \<Rightarrow> unit vm) \<Rightarrow> addr \<Rightarrow> nat \<Rightarrow> pvm_object \<Rightarrow> unit vm" where
  "pvm_set_array_ofield rec o' slot v =
     thenE (verify_p o') (thenE (verify_o v)
    (bindE (load o') (\<lambda>ob.
       if \<not> is_internal ob \<or> \<not> is_resizeable ob
       then raise (Exec_panic ''attempt to do an array op to non-array'')
       else thenE (grow_array o' slot)
           (bindE (load_da as_array o') (\<lambda>da.
            thenE (whenE (slot \<ge> arr_used_slots da)
                     (store_da o' (DA_array (da\<lparr>arr_used_slots := u32 (slot + 1)\<rparr>))))
                  (rec (arr_page da) slot v))))))"

definition pvm_set_ofield_step ::
    "(pvm_object \<Rightarrow> nat \<Rightarrow> pvm_object \<Rightarrow> unit vm) \<Rightarrow> pvm_object \<Rightarrow> nat \<Rightarrow> pvm_object \<Rightarrow> unit vm" where
  "pvm_set_ofield_step rec op slot v =
     thenE (verify_o op) (thenE (verify_o v)
    (bindE (load (ob_data op)) (\<lambda>ob.
       if is_internal ob
       then if is_resizeable ob then pvm_set_array_ofield rec (ob_data op) slot v
            else raise (Exec_panic ''attempt to save to internal'')
       else replace_slot ''slot index out of bounds'' (ob_data op) slot v)))"

primrec pvm_set_ofield_n :: "nat \<Rightarrow> pvm_object \<Rightarrow> nat \<Rightarrow> pvm_object \<Rightarrow> unit vm" where
  "pvm_set_ofield_n 0 = (\<lambda>op slot v. raise Diverges)"
| "pvm_set_ofield_n (Suc n) = (\<lambda>op slot v. pvm_set_ofield_step (pvm_set_ofield_n n) op slot v)"

definition pvm_set_ofield :: "pvm_object \<Rightarrow> nat \<Rightarrow> pvm_object \<Rightarrow> unit vm" where
  "pvm_set_ofield op slot v = bindE (gets ref_dec_fuel) (\<lambda>n. pvm_set_ofield_n (Suc n) op slot v)"

definition pvm_set_field :: "addr \<Rightarrow> nat \<Rightarrow> pvm_object \<Rightarrow> unit vm" where
  "pvm_set_field o' slot v =
     thenE (verify_p o') (thenE (verify_o v)
    (bindE (load o') (\<lambda>ob.
       if is_internal ob
       then if is_resizeable ob then pvm_set_array_ofield pvm_set_ofield o' slot v
            else raise (Exec_panic ''attempt to save to internal'')
       else replace_slot ''load: slot index out of bounds'' o' slot v)))"

definition pvm_append_array :: "addr \<Rightarrow> pvm_object \<Rightarrow> unit vm" where
  "pvm_append_array arr v = bindE (load_da as_array arr) (\<lambda>da.
     pvm_set_array_ofield pvm_set_ofield arr (arr_used_slots da) v)"

definition get_array_size :: "addr \<Rightarrow> nat vm" where
  "get_array_size arr = bindE (load_da as_array arr) (\<lambda>da. ret (arr_used_slots da))"

text \<open>The first slot that holds the object is overwritten with the last used one.\<close>

fun find_slot :: "addr \<Rightarrow> pvm_object list \<Rightarrow> nat \<Rightarrow> nat option" where
  "find_slot p [] i = None"
| "find_slot p (r # rs) i = (if ob_data r = p then Some i else find_slot p rs (i + 1))"

definition pvm_pop_array :: "addr \<Rightarrow> pvm_object \<Rightarrow> unit vm" where
  "pvm_pop_array arr v = bindE (load_da as_array arr) (\<lambda>da.
     if arr_used_slots da = 0
     then raise (Exec_panic ''attempt to remove non existing element from array'')
     else bindE (load (ob_data (arr_page da))) (\<lambda>pob. bindE (slots_of pob) (\<lambda>xs.
     if length xs < arr_used_slots da then raise Out_of_bounds
     else case find_slot (ob_data v) (take (arr_used_slots da) xs) 0 of
       None \<Rightarrow> raise (Exec_panic ''attempt to remove non existing element from array'')
     | Some slot \<Rightarrow>
         thenE (whenE (slot \<noteq> arr_used_slots da - 1)
                  (store_da (ob_data (arr_page da))
                     (DA_slots (xs[slot := xs ! (arr_used_slots da - 1)]))))
               (store_da arr (DA_array (da\<lparr>arr_used_slots := arr_used_slots da - 1\<rparr>))))))"

text \<open>The walk along \<^verbatim>\<open>tclass\<close>'s parents; the fuel bounds the length of the chain.\<close>

primrec class_is_walk :: "nat \<Rightarrow> addr \<Rightarrow> pvm_object \<Rightarrow> bool vm" where
  "class_is_walk 0 tested tclass = raise Diverges"
| "class_is_walk (Suc n) tested tclass = bindE (gets (\<lambda>s. pvm_is_null s tclass)) (\<lambda>isnull.
     if isnull then ret False
     else if tested = ob_data tclass then ret True
     else bindE (root R_null_class) (\<lambda>nullc.
       if ob_data tclass = ob_data nullc then ret False
       else bindE (load_da as_class (ob_data tclass)) (\<lambda>da.
         class_is_walk n tested (cl_class_parent da))))"

definition pvm_object_class_is :: "pvm_object \<Rightarrow> pvm_object \<Rightarrow> bool vm" where
  "pvm_object_class_is obj tclass = bindE (load (ob_data obj)) (\<lambda>ob.
     bindE (gets ref_dec_fuel) (\<lambda>n. class_is_walk n (ob_data (o_class ob)) tclass))"

text \<open>
  The copy loop starts at index \<open>da_size / 8\<close>, one past the last slot. What it reads there is
  no part of the object, so it is a parameter: \<open>behind p s\<close> are the eight bytes after the slots of
  the object at \<open>p\<close>, read as a reference. The size is passed on as an \<^verbatim>\<open>int\<close>.
\<close>

definition copy_inc_slot :: "(addr \<Rightarrow> vm_state \<Rightarrow> pvm_object) \<Rightarrow> pvm_object \<Rightarrow> nat \<Rightarrow> unit vm" where
  "copy_inc_slot behind in_object i = bindE (load (ob_data in_object)) (\<lambda>ob.
     bindE (slots_of ob) (\<lambda>xs. bindE (gets (behind (ob_data in_object))) (\<lambda>b.
       let r = if i < length xs then xs ! i else b in
       whenE (ob_data r \<noteq> 0) (ref_inc_p (ob_data r)))))"

definition copy_slots_to :: "(addr \<Rightarrow> vm_state \<Rightarrow> pvm_object) \<Rightarrow> pvm_object \<Rightarrow> nat \<Rightarrow> pvm_object \<Rightarrow> pvm_object vm"
  where
  "copy_slots_to behind in_object da_size out =
     thenE (iterE (copy_inc_slot behind in_object) (rev [0..<da_size div sizeof_pvm_object + 1]))
    (bindE (load (ob_data in_object)) (\<lambda>ob. bindE (load (ob_data out)) (\<lambda>nob.
       if o_da_size nob < da_size then raise Out_of_bounds
       else thenE (store_da (ob_data out) (o_da ob)) (ret out))))"

definition pvm_copy_object :: "(addr \<Rightarrow> vm_state \<Rightarrow> pvm_object) \<Rightarrow> pvm_object \<Rightarrow> pvm_object vm" where
  "pvm_copy_object behind in_object = bindE (load (ob_data in_object)) (\<lambda>ob.
     if is_internal ob then raise (Panic ''internal object copy?!'')
     else bindE (pvm_object_create_dynamic (o_class ob) (s32 (o_da_size ob)))
            (copy_slots_to behind in_object (o_da_size ob)))"

definition pvm_get_default_interface :: "addr \<Rightarrow> pvm_object vm" where
  "pvm_get_default_interface os = bindE (load os) (\<lambda>ob.
     bindE (load_da as_class (ob_data (o_class ob))) (\<lambda>da. ret (cl_object_default_interface da)))"

definition pvm_storage_to_object :: "addr \<Rightarrow> pvm_object vm" where
  "pvm_storage_to_object st = bindE (pvm_get_default_interface st) (\<lambda>i.
     ret \<lparr>ob_data = st, ob_interface = ob_data i\<rparr>)"

definition pvm_check_is_thread :: "pvm_object \<Rightarrow> unit vm" where
  "pvm_check_is_thread new_thread = bindE (load (ob_data new_thread)) (\<lambda>d.
     if o_flags d \<noteq> (IS_INTERNAL OR IS_THREAD) then raise (Panic ''Thread object has no INTERNAL flag'')
     else bindE (root R_thread_class) (\<lambda>tc.
       bindE (pvm_object_class_is new_thread tc) (\<lambda>b.
         if \<not> b then raise (Panic ''Thread object class is not .internal.thread'') else ret ())))"

section \<open>Moving references between objects and the program\<close>

lemma in_refs_move:
  assumes fin: "finite (live s)" and p: "p \<in> live s - D" and eq: "mset (K p) + R = mset L + R'"
  shows "in_refs s (K(p := L)) D R' q = in_refs s K D R q"
proof -
  have "in_refs s (K(p := L)) D R' q = in_refs s (K(p := L)) (insert p D) (R' + mset L) q"
    using in_refs_dead [OF fin p, of "K(p := L)" R' q] by simp
  also have "\<dots> = in_refs s K (insert p D) (R + mset (K p)) q"
    using eq by (simp add: in_refs_def add.commute)
  also have "\<dots> = in_refs s K D R q" by (rule in_refs_dead [OF fin p])
  finally show ?thesis .
qed

lemma rc_inv_move:
  assumes inv: "rc_inv E s K D R" and p: "p \<in> live s - D" and eq: "mset (K p) + R = mset L + R'"
  shows "rc_inv E s (K(p := L)) D R'"
proof -
  have "set (K p) \<union> set_mset R = set L \<union> set_mset R'"
    using arg_cong [OF eq, of set_mset] by simp
  moreover have "set (K p) \<subseteq> live s - D" "set_mset R \<subseteq> live s - D"
    using rc_invD [OF inv] p by blast+
  ultimately show ?thesis
    using inv in_refs_move [where K = K, OF rc_invD(1) [OF inv] p eq] unfolding rc_inv_def by auto
qed

text \<open>No live object has \<open>p\<close> for its class or for the container of a directory.\<close>

definition not_read :: "vm_state \<Rightarrow> addr \<Rightarrow> bool" where
  "not_read s p \<longleftrightarrow> (\<forall>q ob. heap s q = Some ob \<longrightarrow> ob_live ob \<longrightarrow> ob_data (o_class ob) \<noteq> p \<and>
     (\<forall>d. as_directory (o_da ob) = Some d \<longrightarrow> ob_data (dir_container d) \<noteq> p))"

lemma not_read_frame:
  assumes "not_read s p" and fr: "rc_frame s s' D"
  shows "not_read s' p"
  unfolding not_read_def
proof (intro allI impI)
  fix q ob' assume q: "heap s' q = Some ob'" "ob_live ob'"
  with rc_frame_live [OF fr] have "q \<in> live s" by (auto simp: live_def)
  then obtain ob where ob: "heap s q = Some ob" "ob_live ob" by (rule liveE)
  have "rel_option hdr_rel (heap s q) (heap s' q)" using fr by (simp add: rc_frame_def)
  then have "hdr_rel ob ob'" using ob q by simp
  then have "body ob' = body ob" by (rule hdr_rel_body)
  then show "ob_data (o_class ob') \<noteq> p \<and>
      (\<forall>d. as_directory (o_da ob') = Some d \<longrightarrow> ob_data (dir_container d) \<noteq> p)"
    using assms(1) ob by (auto simp: not_read_def body_def)
qed

lemma kids_unread:
  assumes nr: "not_read s p" and q: "q \<in> live s" "q \<noteq> p" "kids_ok s q"
  shows "kids_ok (put_ob p ob' s) q \<and> kids (put_ob p ob' s) q = kids s q"
proof -
  from q obtain ob where ob: "heap s q = Some ob" "ob_live ob" by (auto elim: liveE)
  then show ?thesis
    using nr q by (intro kids_local [where ob = ob]) (auto simp: not_read_def put_ob_def)
qed

text \<open>An object without special handling and its slots.\<close>

definition plain_at :: "vm_state \<Rightarrow> addr \<Rightarrow> pvm_object list \<Rightarrow> bool" where
  "plain_at s p xs \<longleftrightarrow> (\<exists>ob. heap s p = Some ob \<and> ob_live ob \<and> \<not> is_internal ob \<and>
     \<not> has_flag (o_flags ob) IS_CHILDFREE \<and> length xs = da_po_limit ob \<and> slots_of ob s = Inr (xs, s))"

lemma slots_of_state: "slots_of ob s = Inr (xs, s) \<Longrightarrow> slots_of ob t = Inr (xs, t)"
  by (auto simp: slots_of_def of_view_def comp_simps split: option.splits if_splits)

lemma plain_atE:
  assumes "plain_at s p xs"
  obtains ob where "heap s p = Some ob" "ob_live ob" "\<not> is_internal ob"
    "\<not> has_flag (o_flags ob) IS_CHILDFREE" "length xs = da_po_limit ob"
    "\<And>t. slots_of ob t = Inr (xs, t)"
  using assms slots_of_state unfolding plain_at_def by metis

lemma plain_at_kids:
  assumes "plain_at s p xs"
  shows "kids s p = filter (\<lambda>a. a \<noteq> 0) (map ob_data xs)" "kids_ok s p"
  using assms by (auto simp: kids_def kids_ok_def refzero_children_def is_internal_def elim!: plain_atE)

lemma plain_at_frame:
  assumes "plain_at s p xs" and fr: "rc_frame s s' D" and "p \<in> live s'"
  shows "plain_at s' p xs"
proof -
  from assms(1) obtain ob where ob: "heap s p = Some ob" "ob_live ob" "\<not> is_internal ob"
    "\<not> has_flag (o_flags ob) IS_CHILDFREE" "length xs = da_po_limit ob"
    "\<And>t. slots_of ob t = Inr (xs, t)" by (rule plain_atE) blast
  from assms(3) obtain ob' where ob': "heap s' p = Some ob'" "ob_live ob'" by (rule liveE)
  have "rel_option hdr_rel (heap s p) (heap s' p)" using fr by (simp add: rc_frame_def)
  then have b: "body ob' = body ob" using ob ob' hdr_rel_body by simp
  then have "o_flags ob' = o_flags ob" "da_po_limit ob' = da_po_limit ob"
    by (simp_all add: body_def da_po_limit_def)
  then show ?thesis
    using ob ob' slots_of_cong [OF b] unfolding plain_at_def is_internal_def by auto
qed

lemma plain_at_other:
  assumes "plain_at s p xs" "q \<noteq> p"
  shows "plain_at (put_ob q ob' s) p xs"
proof -
  from assms(1) obtain ob where "heap s p = Some ob" "ob_live ob" "\<not> is_internal ob"
    "\<not> has_flag (o_flags ob) IS_CHILDFREE" "length xs = da_po_limit ob"
    "\<And>t. slots_of ob t = Inr (xs, t)" by (rule plain_atE) blast
  with assms(2) show ?thesis by (simp add: plain_at_def)
qed

text \<open>The reference a value holds; a null pointer holds none.\<close>

definition held :: "pvm_object \<Rightarrow> addr multiset" where
  "held v = (if ob_data v = 0 then {#} else {#ob_data v#})"

abbreviation refs_in :: "pvm_object list \<Rightarrow> addr list" where
  "refs_in xs \<equiv> filter (\<lambda>a. a \<noteq> 0) (map ob_data xs)"

lemma mset_refs_update:
  assumes "i < length xs"
  shows "mset (refs_in (xs[i := v])) + held (xs ! i) = mset (refs_in xs) + held v"
proof -
  have a: "mset (refs_in (take i xs @ x # drop (Suc i) xs)) =
      held x + mset (refs_in (take i xs @ drop (Suc i) xs))" for x
    by (simp add: held_def)
  show ?thesis
    using a [of v] a [of "xs ! i"] assms
    by (simp add: upd_conv_take_nth_drop id_take_nth_drop [symmetric] add.commute add.left_commute)
qed

text \<open>The old value's reference is dropped while the slot that held it does not count.\<close>

lemma drop_slot:
  assumes c: "counted E D s (held v + R)" and p: "p \<in># R" and pl: "plain_at s p xs"
    and i: "i < length xs"
  obtains s' where "whenE (ob_data (xs ! i) \<noteq> 0) (ref_dec_o (xs ! i)) s = Inr ((), s')"
    "rc_inv E s' ((kids s)(p := refs_in (xs[i := v]))) D R" "rc_frame s s' D"
proof -
  let ?K = "(kids s)(p := refs_in (xs[i := null_ref]))"
  from c have inv: "rc_inv E s (kids s) D (held v + R)" by (simp add: counted_def rc_consistent_def)
  have pin: "p \<in> live s - D" using p rc_invD(3) [OF inv] by auto
  have n: "held null_ref = {#}" by (simp add: held_def null_ref_def)
  have "rc_inv E s ?K D (held (xs ! i) + (held v + R))"
    by (rule rc_inv_move [OF inv pin])
      (use mset_refs_update [OF i, of null_ref] n in \<open>simp add: plain_at_kids [OF pl] ac_simps\<close>)
  moreover have "\<exists>s'. whenE (ob_data (xs ! i) \<noteq> 0) (ref_dec_o (xs ! i)) s = Inr ((), s') \<and>
      rc_inv E s' ?K D (held v + R) \<and> rc_frame s s' D"
    if inv1: "rc_inv E s ?K D (held (xs ! i) + (held v + R))"
  proof (cases "ob_data (xs ! i) = 0")
    case True
    then have "held (xs ! i) = {#}" by (simp add: held_def)
    with inv1 True show ?thesis by (intro exI [of _ s]) (simp add: whenE_def)
  next
    case False
    then have h: "held (xs ! i) + (held v + R) = add_mset (ob_data (xs ! i)) (held v + R)"
      by (simp add: held_def)
    have "kids_agree s ?K D (held v + R)" using p by (auto simp: kids_agree_def)
    from ref_dec_specD [OF do_ref_dec_p_correct inv1 [unfolded h] this counted_fuel [OF c]]
    obtain s' where "do_ref_dec_p (ref_dec_fuel s) (ob_data (xs ! i)) s = Inr ((), s')"
      "rc_inv E s' ?K D (held v + R)" "rc_frame s s' D" by blast
    with False show ?thesis
      by (intro exI [of _ s']) (simp add: ref_dec_o_def ref_dec_p_def whenE_apply)
  qed
  ultimately obtain s' where s': "whenE (ob_data (xs ! i) \<noteq> 0) (ref_dec_o (xs ! i)) s = Inr ((), s')"
    "rc_inv E s' ?K D (held v + R)" "rc_frame s s' D" by blast
  have "p \<in> live s' - D" using rc_invD(3) [OF s'(2)] p by auto
  from rc_inv_move [OF s'(2) this, of "refs_in (xs[i := v])" R] s' that
  show thesis
    using mset_refs_update [of i "xs[i := null_ref]" v] i n by (simp add: ac_simps)
qed

text \<open>Storing slots into a plain object, once its references are counted as those slots.\<close>

lemma put_slots_counted:
  assumes inv: "rc_inv E s ((kids s)(p := refs_in ys)) D R" and sp: "live s \<subseteq> {space_start s..<space_end s}"
    and ob: "heap s p = Some ob" "ob_live ob" "\<not> is_internal ob" "\<not> has_flag (o_flags ob) IS_CHILDFREE"
    and ys: "length ys = da_po_limit ob" "\<And>t. slots_of (ob\<lparr>o_da := d\<rparr>) t = Inr (ys, t)"
    and nr: "not_read s p"
  shows "counted E D (put_ob p (ob\<lparr>o_da := d\<rparr>) s) R" "plain_at (put_ob p (ob\<lparr>o_da := d\<rparr>) s) p ys"
    "live (put_ob p (ob\<lparr>o_da := d\<rparr>) s) = live s"
proof -
  let ?s = "put_ob p (ob\<lparr>o_da := d\<rparr>) s" and ?K = "(kids s)(p := refs_in ys)"
  show pl: "plain_at ?s p ys"
    using ob ys by (simp add: plain_at_def is_internal_def ob_live_def da_po_limit_def)
  show lv: "live ?s = live s" using ob by (auto simp: live_def ob_live_def)
  have p0: "p \<noteq> 0" using ob(1) rc_invD(2) [OF inv] by (cases "p = 0") auto
  have rc: "rc ?s q = rc s q" for q using ob by (simp add: rc_def)
  have kd: "kids_ok ?s q \<and> kids ?s q = ?K q" if q: "q \<in> live s - D" for q
  proof (cases "q = p")
    case True
    then show ?thesis using plain_at_kids [OF pl] by simp
  next
    case False
    have "kids_ok s q" by (rule rc_invD(4) [OF inv q])
    then show ?thesis using kids_unread [OF nr, of q] q False by auto
  qed
  have "rc_inv E ?s ?K D R"
    using inv kd ob(1) p0 lv rc in_refs_cong [of ?s D s D]
    unfolding rc_inv_def by (auto simp: put_ob_def)
  then have "rc_inv E ?s (kids ?s) D R"
    using kd lv rc_inv_kids_cong [of ?s D "kids ?s" ?K] by auto
  then show "counted E D ?s R"
    using sp lv by (simp add: counted_def rc_consistent_def put_ob_def)
qed

lemma replace_slot_counted:
  assumes c: "counted E D s (held v + R)" and p: "p \<in># R" and pl: "plain_at s p xs"
    and i: "i < length xs" and nr: "not_read s p"
  obtains s' where "replace_slot msg p i v s = Inr ((), s')" "counted E D s' R"
    "plain_at s' p (xs[i := v])" "live s' \<subseteq> live s"
proof -
  from drop_slot [OF c p pl i] obtain s1
    where s1: "whenE (ob_data (xs ! i) \<noteq> 0) (ref_dec_o (xs ! i)) s = Inr ((), s1)"
      "rc_inv E s1 ((kids s)(p := refs_in (xs[i := v]))) D R" "rc_frame s s1 D" .
  have inv: "rc_inv E s (kids s) D (held v + R)"
    using c by (simp add: counted_def rc_consistent_def)
  have pin: "p \<in> live s1 - D" using rc_invD(3) [OF s1(2)] p by auto
  with plain_at_frame [OF pl s1(3)] have pl1: "plain_at s1 p xs" by simp
  from pl1 obtain ob where ob: "heap s1 p = Some ob" "ob_live ob" "\<not> is_internal ob"
    "\<not> has_flag (o_flags ob) IS_CHILDFREE" "length xs = da_po_limit ob"
    "\<And>t. slots_of ob t = Inr (xs, t)" by (rule plain_atE) blast
  from pl obtain ob0 where ob0: "heap s p = Some ob0" "length xs = da_po_limit ob0"
    "\<And>t. slots_of ob0 t = Inr (xs, t)" by (rule plain_atE) blast
  let ?s = "put_ob p (ob\<lparr>o_da := DA_slots (xs[i := v])\<rparr>) s1"
  have run: "replace_slot msg p i v s = Inr ((), ?s)"
    using s1(1) ob ob0 i by (simp add: replace_slot_def slot_at_def bindE_apply thenE_def
        store_da_Some load_def)
  have "kids s1 q = kids s q" if "q \<in> live s1 - D" for q
    using that rc_frame_live [OF s1(3)] rc_invD(4) [OF inv]
    by (intro kids_body_eq [OF rc_frame_body_eq [OF s1(3)]]) auto
  then have "rc_inv E s1 ((kids s1)(p := refs_in (xs[i := v]))) D R"
    using s1(2) rc_inv_kids_cong [of s1 D "(kids s1)(p := refs_in (xs[i := v]))"
        "(kids s)(p := refs_in (xs[i := v]))"] by auto
  moreover have "live s1 \<subseteq> {space_start s1..<space_end s1}"
    using c rc_frame_live [OF s1(3)] rc_frame_space [OF s1(3)] by (auto simp: counted_def)
  moreover have "slots_of (ob\<lparr>o_da := DA_slots (xs[i := v])\<rparr>) t = Inr (xs[i := v], t)" for t
    using ob(5) by (simp add: slots_of_def da_po_limit_def comp_simps)
  ultimately show thesis
    using that run rc_frame_live [OF s1(3)] put_slots_counted [OF _ _ ob(1-4) _ _ not_read_frame [OF nr s1(3)],
        where ys = "xs[i := v]" and d = "DA_slots (xs[i := v])"] ob(5) by auto
qed

section \<open>Field access of plain objects\<close>

text \<open>A reference whose object and interface are allocated, or the null pointer.\<close>

definition ref_valid :: "vm_state \<Rightarrow> pvm_object \<Rightarrow> bool" where
  "ref_valid s r \<longleftrightarrow> ob_data r = 0 \<or>
     ob_data r \<in> live s \<and> (ob_interface r = 0 \<or> ob_interface r \<in> live s)"

lemma verify_p_eval: "p = 0 \<or> p \<in> live s \<Longrightarrow> verify_p p s = Inr ((), s)"
  by (auto simp: verify_p_def live_def ob_live_def pvm_object_is_allocated_light_def comp_simps load_def)

lemma verify_o_eval: "ref_valid s r \<Longrightarrow> verify_o r s = Inr ((), s)"
  by (auto simp: verify_o_def ref_valid_def comp_simps verify_p_eval)

lemma plain_at_live: "plain_at s p xs \<Longrightarrow> p \<in> live s"
  by (auto simp: plain_at_def live_def)

lemma set_ofield_n_plain:
  assumes "plain_at s (ob_data op) xs" "ref_valid s op" "ref_valid s v"
  shows "pvm_set_ofield_n (Suc n) op i v s = replace_slot ''slot index out of bounds'' (ob_data op) i v s"
  using assms(1)
  by (auto simp: pvm_set_ofield_step_def verify_o_eval assms(2,3) comp_simps load_def elim!: plain_atE)

lemma slot_at_eval:
  assumes "length xs = da_po_limit ob" "\<And>t. slots_of ob t = Inr (xs, t)"
  shows "slot_at msg ob i s = (if i < length xs then Inr (xs ! i, s) else Inl (Exec_panic msg))"
  using assms by (simp add: slot_at_def bindE_apply)

lemma get_ofield_n_plain:
  assumes "plain_at s (ob_data op) xs" "ref_valid s op"
  shows "pvm_get_ofield_n (Suc n) op i s = bindE (\<lambda>s.
    if i < length xs then Inr (xs ! i, s) else Inl (Exec_panic ''load: slot index out of bounds''))
    (\<lambda>r. thenE (verify_o r) (ret r)) s"
proof -
  from assms(1) obtain ob where ob: "heap s (ob_data op) = Some ob" "\<not> is_internal ob"
    and sl: "length xs = da_po_limit ob" "\<And>t. slots_of ob t = Inr (xs, t)" by (rule plain_atE) blast
  show ?thesis
    by (simp add: pvm_get_ofield_step_def verify_o_eval [OF assms(2)] slot_at_eval [OF sl] ob
        bindE_apply thenE_apply)
qed

lemma get_ofield_plain:
  assumes "plain_at s (ob_data op) xs" "ref_valid s op" "i < length xs" "ref_valid s (xs ! i)"
  shows "pvm_get_ofield op i s = Inr (xs ! i, s)"
  using assms by (simp add: pvm_get_ofield_def get_ofield_n_plain verify_o_eval comp_simps
      del: pvm_get_ofield_n.simps)

lemma set_ofield_plain:
  assumes "plain_at s (ob_data op) xs" "ref_valid s op" "ref_valid s v"
  shows "pvm_set_ofield op i v s = replace_slot ''slot index out of bounds'' (ob_data op) i v s"
  using set_ofield_n_plain [OF assms] by (simp add: pvm_set_ofield_def bindE_apply
      del: pvm_set_ofield_n.simps)

section \<open>Properties of fields\<close>

text \<open>
  C18. Writing a field transfers references correctly. Let the program hold a reference to the
  object that is written and to the value. Then \<^verbatim>\<open>pvm_set_ofield\<close> succeeds, the slot takes over
  the reference to the value, the reference the slot held is given up (with everything that
  only it kept alive), the reference counts of the heap are still right for what the
  program is left with, the other slots are unchanged, and \<^verbatim>\<open>pvm_get_ofield\<close> reads the
  value back.
\<close>

theorem set_ofield_balanced:
  assumes c: "counted E D s (held v + R)" and p: "ob_data op \<in># R" and pl: "plain_at s (ob_data op) xs"
    and i: "i < length xs" and nr: "not_read s (ob_data op)"
    and iface: "ob_interface op = 0 \<or> ob_interface op \<in># R" "ob_interface v = 0 \<or> ob_interface v \<in># R"
  shows "\<exists>s'. pvm_set_ofield op i v s = Inr ((), s') \<and> counted E D s' R \<and>
    plain_at s' (ob_data op) (xs[i := v]) \<and> pvm_get_ofield op i s' = Inr (v, s')"
proof -
  from replace_slot_counted [OF c p pl i nr] obtain s' where s': "replace_slot ''slot index out of bounds''
      (ob_data op) i v s = Inr ((), s')" "counted E D s' R" "plain_at s' (ob_data op) (xs[i := v])" by blast
  have R: "set_mset (held v + R) \<subseteq> live s" "set_mset R \<subseteq> live s'"
    using c s'(2) by (auto simp: counted_def rc_consistent_def rc_inv_def)
  have "set (kids s' (ob_data op)) \<subseteq> live s'"
    using s'(2) R(2) p plain_at_live [OF s'(3)] unfolding counted_def rc_consistent_def rc_inv_def by blast
  then have v': "ob_data v = 0 \<or> ob_data v \<in> live s'"
    using plain_at_kids [OF s'(3)] set_update_memI [OF i, of v] by fastforce
  have "ref_valid s op" "ref_valid s v" "ref_valid s' op" "ref_valid s' v"
    using p iface R v' plain_at_live [OF pl] plain_at_live [OF s'(3)]
    by (auto simp: ref_valid_def held_def split: if_splits)
  with s' show ?thesis
    using set_ofield_plain [OF pl] get_ofield_plain [OF s'(3), of i] i by auto
qed

theorem set_ofield_balanced_witness:
  "\<exists>s'. pvm_set_ofield \<lparr>ob_data = 40, ob_interface = 0\<rparr> 0 \<lparr>ob_data = 100, ob_interface = 0\<rparr> pair_state =
     Inr ((), s') \<and> counted True {} s' {#40#} \<and> plain_at s' 40 [\<lparr>ob_data = 100, ob_interface = 0\<rparr>]"
proof -
  let ?v = "\<lparr>ob_data = 100, ob_interface = 0\<rparr>" and ?o = "\<lparr>ob_data = 40, ob_interface = 0\<rparr>"
  have "counted True {} pair_state (held ?v + {#40#})"
    using counted_pair [of True] by (simp add: held_def add_mset_commute)
  moreover have "plain_at pair_state (ob_data ?o) [?v]"
    by (simp add: plain_at_def pair_state_def is_internal_def has_flag_def)
      (simp add: plain_ob_def da_po_limit_def sizeof_pvm_object_def slots_of_def comp_simps)
  moreover have "not_read pair_state (ob_data ?o)"
    by (auto simp: not_read_def pair_state_def plain_ob_def null_ref_def split: if_splits)
  ultimately show ?thesis
    using set_ofield_balanced [of True "{}" pair_state ?v "{#40#}" ?o "[?v]" 0] by auto
qed

section \<open>Copying\<close>

text \<open>A new object is nobody's class and no directory's container yet.\<close>

definition containers_live :: "vm_state \<Rightarrow> bool" where
  "containers_live s \<longleftrightarrow> (\<forall>q ob d. heap s q = Some ob \<longrightarrow> ob_live ob \<longrightarrow> as_directory (o_da ob) = Some d \<longrightarrow>
     ob_data (dir_container d) \<in> insert 0 (live s))"

lemma not_read_created:
  assumes cr: "created s s' r cls n fl DA_zero" and cl: "classes_live s" "ob_data cls \<in> live s"
    and co: "containers_live s"
  shows "not_read s' (ob_data r)"
  unfolding not_read_def
proof (intro allI impI)
  note Dr = createdD [OF cr]
  fix q ob assume q: "heap s' q = Some ob" "ob_live ob"
  then have "q \<in> live s'" by (auto simp: live_def)
  with Dr(4) consider "q = ob_data r" | "q \<in> live s" by auto
  then show "ob_data (o_class ob) \<noteq> ob_data r \<and>
      (\<forall>d. as_directory (o_da ob) = Some d \<longrightarrow> ob_data (dir_container d) \<noteq> ob_data r)"
  proof cases
    case 1
    with q Dr(2,3,7) cl(2) show ?thesis by (auto simp: zero_directory_def null_ref_def)
  next
    case 2
    with q Dr(5) [of q] have "heap s q = Some ob" by simp
    with q(2) cl(1) co Dr(2,3) show ?thesis by (fastforce simp: classes_live_def containers_live_def)
  qed
qed

lemma copy_inc_slot_counted:
  assumes c: "counted E D s R" and pl: "plain_at s (ob_data op) xs" and b: "behind (ob_data op) s = b"
    and r: "(xs @ [b]) ! i = r" "ob_data r \<in> insert 0 (live s - D)" and i: "i \<le> length xs"
  obtains s' where "copy_inc_slot behind op i s = Inr ((), s')" "counted E D s' (held r + R)"
    "rc_frame s s' D" "live s' = live s"
proof -
  from pl obtain ob where ob: "heap s (ob_data op) = Some ob" "\<And>t. slots_of ob t = Inr (xs, t)"
    by (rule plain_atE) blast
  have "(if i < length xs then xs ! i else b) = r" using r(1) i by (auto simp: nth_append)
  then have run: "copy_inc_slot behind op i s = whenE (ob_data r \<noteq> 0) (ref_inc_p (ob_data r)) s"
    using ob b by (simp add: copy_inc_slot_def bindE_apply load_def gets_def Let_def)
  show thesis
  proof (cases "ob_data r = 0")
    case True
    with that [of s] c run show thesis by (simp add: whenE_def held_def)
  next
    case False
    with r(2) have "ob_data r \<in> live s - D" by simp
    from ref_inc_p_counted [OF c this] obtain s' where "ref_inc_p (ob_data r) s = Inr ((), s')"
      "counted E D s' (add_mset (ob_data r) R)" "rc_frame s s' D" "live s' = live s" .
    with that [of s'] False run show thesis by (simp add: whenE_apply held_def)
  qed
qed

lemma copy_incs_counted:
  assumes "counted E D s R" "plain_at s (ob_data op) xs" "\<And>t. behind (ob_data op) t = b"
    "\<And>r. r \<in> set (b # xs) \<Longrightarrow> ob_data r \<in> insert 0 (live s - D)" "\<forall>i \<in> set js. i \<le> length xs"
  shows "\<exists>s'. iterE (copy_inc_slot behind op) js s = Inr ((), s') \<and>
    counted E D s' (mset (refs_in (map ((!) (xs @ [b])) js)) + R) \<and> rc_frame s s' D \<and> live s' = live s"
  using assms
proof (induction js arbitrary: s R)
  case (Cons i ks)
  let ?r = "(xs @ [b]) ! i"
  have "?r \<in> set (b # xs)" using Cons.prems(5) by (auto simp: nth_append)
  with Cons.prems obtain s1 where s1: "copy_inc_slot behind op i s = Inr ((), s1)"
    "counted E D s1 (held ?r + R)" "rc_frame s s1 D" "live s1 = live s"
    using copy_inc_slot_counted [OF Cons.prems(1,2), of behind b i ?r] by auto
  have pl1: "plain_at s1 (ob_data op) xs"
    using plain_at_frame [OF Cons.prems(2) s1(3)] plain_at_live [OF Cons.prems(2)] s1(4) by simp
  from Cons.IH [OF s1(2) pl1] Cons.prems(3-5) s1(4) obtain s2
    where s2: "iterE (copy_inc_slot behind op) ks s1 = Inr ((), s2)"
      "counted E D s2 (mset (refs_in (map ((!) (xs @ [b])) ks)) + (held ?r + R))"
      "rc_frame s1 s2 D" "live s2 = live s1" by auto
  have "mset (refs_in (map ((!) (xs @ [b])) (i # ks))) + R =
      mset (refs_in (map ((!) (xs @ [b])) ks)) + (held ?r + R)" by (simp add: held_def)
  then have "counted E D s2 (mset (refs_in (map ((!) (xs @ [b])) (i # ks))) + R)" using s2(2) by (simp only:)
  moreover have "iterE (copy_inc_slot behind op) (i # ks) s = Inr ((), s2)"
    using s1(1) s2(1) by (simp add: thenE_apply)
  ultimately show ?case using s1(4) s2(4) rc_frame_trans [OF s1(3) s2(3)] by metis
qed simp

lemma refs_in_down:
  "mset (refs_in (map ((!) (xs @ [b])) (rev [0..<Suc (length xs)]))) = held b + mset (refs_in xs)"
proof -
  have "map ((!) (xs @ [b])) [0..<Suc (length xs)] = xs @ [b]"
    using map_nth [of "xs @ [b]"] by simp
  then have "map ((!) (xs @ [b])) (rev [0..<Suc (length xs)]) = rev (xs @ [b])"
    by (simp only: rev_map [symmetric])
  then show ?thesis by (simp add: held_def rev_filter [symmetric] rev_map [symmetric])
qed

lemma copy_slots_to_counted:
  assumes c: "counted E D s R" and ok: "heap_ok s" "classes_live s" "containers_live s"
    and pl: "plain_at s (ob_data op) xs" "ob_data op \<in> live s - D"
    and ob: "heap s (ob_data op) = Some ob" and b: "\<And>t. behind (ob_data op) t = b" "ob_data b \<in> insert 0 (live s - D)"
    and fl: "\<not> has_flag fl IS_INTERNAL" "\<not> has_flag fl IS_CHILDFREE" and D: "D \<subseteq> live s"
    and cr: "created s s1 r (o_class ob) (o_da_size ob) fl DA_zero"
  shows "\<exists>s'. copy_slots_to behind op (o_da_size ob) r s1 = Inr (r, s') \<and>
    plain_at s' (ob_data r) xs \<and> plain_at s' (ob_data op) xs \<and> counted E D s' (held b + add_mset (ob_data r) R)"
proof -
  note Dr = createdD [OF cr]
  let ?r = "ob_data r" and ?op = "ob_data op"
  have obp: "ob_live ob" "length xs = da_po_limit ob" and sl: "\<And>t. slots_of ob t = Inr (xs, t)"
    using pl(1) ob by (auto elim!: plain_atE)
  have cl: "ob_data (o_class ob) \<in> live s" using ok(2) ob obp(1) by (simp add: classes_live_def)
  have rD: "?r \<notin> D" and ne: "?r \<noteq> ?op" using D Dr(3) pl(2) by auto
  from Dr(7) obtain nob where nob: "heap s1 ?r = Some nob" "ob_live nob" "o_flags nob = fl"
    "o_da_size nob = o_da_size ob" "o_da nob = DA_zero" by blast
  have lim: "da_po_limit nob = length xs" using obp(2) nob(4) by (simp add: da_po_limit_def)
  have plr: "plain_at s1 ?r (replicate (length xs) null_ref)"
    using nob fl lim by (simp add: plain_at_def is_internal_def slots_of_def comp_simps)
  have "kids s1 ?r = []" "kids_ok s1 ?r" using plain_at_kids [OF plr] by (simp_all add: null_ref_def)
  with counted_created [where p = ?r and R = R, OF _ cr refl rD _ ok(2,1)] c
  have c1: "counted E D s1 (add_mset ?r R)" by simp
  have ob1: "heap s1 ?op = Some ob" using Dr(5) [of ?op] pl(2) ob by simp
  have pl1: "plain_at s1 ?op xs" using pl(1) ob ob1 sl unfolding plain_at_def by auto
  have kin: "set (kids s ?op) \<subseteq> live s - D"
    using c pl(2) unfolding counted_def rc_consistent_def rc_inv_def by blast
  have xs1: "ob_data x \<in> insert 0 (live s1 - D)" if "x \<in> set (b # xs)" for x
    using that b(2) Dr(4) kin plain_at_kids(1) [OF pl(1)] by (cases "ob_data x = 0") auto
  from copy_incs_counted [where behind = behind and b = b and js = "rev [0..<Suc (length xs)]", OF c1 pl1 b(1) xs1]
  obtain s2 where s2: "iterE (copy_inc_slot behind op) (rev [0..<Suc (length xs)]) s1 = Inr ((), s2)"
    "counted E D s2 (held b + mset (refs_in xs) + add_mset ?r R)" "rc_frame s1 s2 D" "live s2 = live s1"
    unfolding refs_in_down by auto
  note beq = rc_frame_body_eq [OF s2(3)]
  from body_eq_Some [OF beq nob(1)] obtain nob2 where nob2: "heap s2 ?r = Some nob2" "body nob2 = body nob" .
  from body_eq_Some [OF beq ob1] obtain ob2 where ob2: "heap s2 ?op = Some ob2" "body ob2 = body ob" .
  have B: "o_flags nob2 = fl" "o_da_size nob2 = o_da_size ob" "o_da ob2 = o_da ob" "da_po_limit nob2 = length xs"
    using nob2(2) ob2(2) nob lim by (auto simp: body_def da_po_limit_def)
  let ?s = "put_ob ?r (nob2\<lparr>o_da := o_da ob\<rparr>) s2"
  have run: "copy_slots_to behind op (o_da_size ob) r s1 = Inr (r, ?s)"
    using s2(1) obp(2) nob2(1) ob2(1) B(2,3)
    by (simp add: copy_slots_to_def thenE_apply bindE_apply load_def store_da_Some da_po_limit_def del: upt_Suc)
  have plr2: "plain_at s2 ?r (replicate (length xs) null_ref)" "plain_at s2 ?op xs"
    using plain_at_frame [OF plr s2(3)] plain_at_frame [OF pl1 s2(3)] plain_at_live [OF plr]
      plain_at_live [OF pl1] s2(4) by simp_all
  have "rc_inv E s2 (kids s2) D (held b + mset (refs_in xs) + add_mset ?r R)"
    using s2(2) by (simp add: counted_def rc_consistent_def)
  then have mv: "rc_inv E s2 ((kids s2)(?r := refs_in xs)) D (held b + add_mset ?r R)"
    by (rule rc_inv_move) (use plain_at_kids(1) [OF plr2(1)] plain_at_live [OF plr2(1)] rD
        in \<open>simp_all add: null_ref_def ac_simps\<close>)
  have sl2: "slots_of (nob2\<lparr>o_da := o_da ob\<rparr>) t = Inr (xs, t)" for t
  proof -
    have "da_po_limit (nob2\<lparr>o_da := o_da ob\<rparr>) = da_po_limit ob" using B(2) by (simp add: da_po_limit_def)
    then show ?thesis using sl [of t] by (simp add: slots_of_def cong: if_cong)
  qed
  have nr: "not_read s2 ?r" by (rule not_read_frame [OF not_read_created [OF cr ok(2) cl ok(3)] s2(3)])
  have nl: "ob_live nob2" "\<not> is_internal nob2" "\<not> has_flag (o_flags nob2) IS_CHILDFREE"
    using plr2(1) nob2(1) by (auto elim!: plain_atE)
  have sp: "live s2 \<subseteq> {space_start s2..<space_end s2}" using s2(2) by (simp add: counted_def)
  note put = put_slots_counted [OF mv sp nob2(1) nl _ sl2 nr]
  have "counted E D ?s (held b + add_mset ?r R)" "plain_at ?s ?r xs" using put(1,2) B(4) by simp_all
  moreover have "plain_at ?s ?op xs" by (rule plain_at_other [OF plr2(2) ne])
  ultimately show ?thesis using run by blast
qed


text \<open>
  The null object, a class of plain objects and an object whose only slot holds the null object;
  the program holds the class and the object. Behind the slot lies a reference to the object itself.
\<close>

lemma one_slot_heap:
  "heap (sample_state 0 [DA_slots [at_spot 0]]) q = Some ob \<Longrightarrow> ob_live ob \<Longrightarrow>
     q = spot 0 \<and> ob = sample_ob (at_spot 1) IS_CHILDFREE DA_zero \<or>
     q = spot 1 \<and> ob = sample_ob (at_spot 1) (IS_INTERNAL OR IS_CLASS) (sample_class 0) \<or>
     q = spot 2 \<and> ob = sample_ob (at_spot 1) 0 (DA_slots [at_spot 0])"
  unfolding sample_state_def
  by (drule heap_laid_out) (auto simp: less_Suc_eq numeral_2_eq_2)

lemma one_slot_heaps:
  "heap (sample_state 0 [DA_slots [at_spot 0]]) (spot 0) = Some (sample_ob (at_spot 1) IS_CHILDFREE DA_zero)"
  "heap (sample_state 0 [DA_slots [at_spot 0]]) (spot 1) =
     Some (sample_ob (at_spot 1) (IS_INTERNAL OR IS_CLASS) (sample_class 0))"
  "heap (sample_state 0 [DA_slots [at_spot 0]]) (spot 2) = Some (sample_ob (at_spot 1) 0 (DA_slots [at_spot 0]))"
  by (simp_all add: sample_state_def)

lemma live_one_slot: "live (sample_state 0 [DA_slots [at_spot 0]]) = {spot 0, spot 1, spot 2}"
proof -
  have "live (sample_state 0 [DA_slots [at_spot 0]]) = spot ` {0..<3}"
    unfolding sample_state_def by (subst live_laid_out [OF sample_state_samples]) (simp_all add: numeral_3_eq_3)
  moreover have "{0..<3} = {0, 1, 2 :: nat}" by auto
  ultimately show ?thesis by simp
qed

lemma one_slot_kids:
  "kids (sample_state 0 [DA_slots [at_spot 0]]) (spot 0) = []" "kids_ok (sample_state 0 [DA_slots [at_spot 0]]) (spot 0)"
  "kids (sample_state 0 [DA_slots [at_spot 0]]) (spot 1) = []" "kids_ok (sample_state 0 [DA_slots [at_spot 0]]) (spot 1)"
  "kids (sample_state 0 [DA_slots [at_spot 0]]) (spot 2) = [spot 0]" "kids_ok (sample_state 0 [DA_slots [at_spot 0]]) (spot 2)"
  by (simp_all add: kids_def kids_ok_def one_slot_heaps [unfolded One_nat_def] has_flag_def object_flag_defs refzero_children_def is_internal_def
     class_rec_of_def load_da_Some sample_class_def zero_class_def comp_simps slots_of_def da_po_limit_def sizeof_pvm_object_def)

lemma counted_one_slot: "counted True {} (sample_state 0 [DA_slots [at_spot 0]]) {#spot 1, spot 2#}"
proof -
  let ?s = "sample_state 0 [DA_slots [at_spot 0]]"
  have rc: "rc ?s (spot 0) = 1" "rc ?s (spot 1) = 1" "rc ?s (spot 2) = 1"
    by (simp_all add: rc_def one_slot_heaps [unfolded One_nat_def])
  have refs: "in_refs ?s (kids ?s) {} {#spot 1, spot 2#} q = 1" if "q \<in> {spot 0, spot 1, spot 2}" for q
    using that by (auto simp: in_refs_def live_one_slot one_slot_kids [unfolded One_nat_def])
  have "heap ?s 0 = None" by (simp add: sample_state_def laid_out_def small_state_def spot_def)
  moreover have "live ?s \<subseteq> {space_start ?s..<space_end ?s}"
    using heap_okD(3) [OF std_envD(1) [OF sample_state_env [of "[DA_slots [at_spot 0]]" 0]]] by simp
  ultimately show ?thesis
    using refs [of "spot 0"] refs [of "spot 1"] refs [of "spot 2"]
    by (simp add: counted_def rc_consistent_def rc_inv_def live_one_slot one_slot_kids [unfolded One_nat_def] rc [unfolded One_nat_def] rc_ok_def INT_MAX_def)
qed


end
