(* ===== verification/Array_List.thy ===== *)
theory Array_List
  imports Object_Fields
begin

text \<open>
  Arrays (\<^verbatim>\<open>phantom/vm/object.c\<close>) refine lists: an array object keeps its elements in a page
  object that is replaced by a larger one when an append finds it full. Appending, indexing,
  removing and the size are proved to agree with the list of elements. Removing leaves a stale
  reference behind the elements; the last property shows what a later append makes of it.
\<close>

section \<open>Representation\<close>

text \<open>The null object's count is saturated and pages are plain objects.\<close>

definition array_env :: "vm_state \<Rightarrow> bool" where
  "array_env s \<longleftrightarrow> std_env s \<and>
     (\<exists>nob. heap s (null_of s) = Some nob \<and> ob_live nob \<and> refCount nob = INT_MAX) \<and>
     (\<exists>cob cda. heap s (ob_data (pvm_root s R_page_class)) = Some cob \<and> o_da cob = DA_class cda \<and>
        cl_object_flags cda = 0 \<and> (ob_data (cl_object_default_interface cda) = 0 \<or>
          ob_data (cl_object_default_interface cda) \<in> live s))"

text \<open>The page \<open>r\<close> holds the slots \<open>ys\<close>.\<close>

definition page_ok :: "vm_state \<Rightarrow> pvm_object \<Rightarrow> pvm_object list \<Rightarrow> bool" where
  "page_ok s r ys \<longleftrightarrow> \<not> pvm_is_null s r \<and> (ob_interface r = 0 \<or> ob_interface r \<in> live s) \<and>
     (\<exists>pob. heap s (ob_data r) = Some pob \<and> ob_live pob \<and> \<not> is_internal pob \<and>
        \<not> has_flag (o_flags pob) IS_CHILDFREE \<and> o_da pob = DA_slots ys \<and> length ys = da_po_limit pob)"

definition array_at :: "vm_state \<Rightarrow> addr \<Rightarrow> data_area_4_array \<Rightarrow> bool" where
  "array_at s p da \<longleftrightarrow> (\<exists>ob. heap s p = Some ob \<and> ob_live ob \<and> is_internal ob \<and> is_resizeable ob \<and>
     o_da ob = DA_array da)"

text \<open>The elements are a prefix of the page; the rest of the page holds the null object.\<close>

definition filled :: "vm_state \<Rightarrow> data_area_4_array \<Rightarrow> pvm_object list \<Rightarrow> bool" where
  "filled s da xs \<longleftrightarrow> page_ok s (arr_page da)
     (xs @ replicate (arr_page_size da - length xs) (pvm_root s R_null_object)) \<and>
     length xs \<le> arr_page_size da"

definition array_rep :: "vm_state \<Rightarrow> addr \<Rightarrow> pvm_object list \<Rightarrow> bool" where
  "array_rep s p xs \<longleftrightarrow> (\<exists>da. array_at s p da \<and> arr_used_slots da = length xs \<and>
     (if pvm_is_null s (arr_page da) then xs = [] else filled s da xs))"

text \<open>In general anything may be left in the slots behind the elements.\<close>

definition holds_in :: "vm_state \<Rightarrow> addr \<Rightarrow> data_area_4_array \<Rightarrow> pvm_object list \<Rightarrow> pvm_object list \<Rightarrow> bool" where
  "holds_in s p da xs tail \<longleftrightarrow> array_at s p da \<and> arr_used_slots da = length xs \<and>
     page_ok s (arr_page da) (xs @ tail) \<and> length (xs @ tail) = arr_page_size da"

definition array_holds :: "vm_state \<Rightarrow> addr \<Rightarrow> pvm_object list \<Rightarrow> bool" where
  "array_holds s p xs \<longleftrightarrow> xs = [] \<and> (\<exists>da. array_at s p da \<and> arr_used_slots da = 0) \<or>
     (\<exists>da tail. holds_in s p da xs tail)"

lemma array_rep_holds: "array_rep s p xs \<Longrightarrow> array_holds s p xs"
  by (fastforce simp: array_rep_def array_holds_def holds_in_def filled_def split: if_splits)

lemma array_rep_holds_in:
  assumes "array_rep s p xs" "xs \<noteq> []"
  shows "\<exists>da n. holds_in s p da xs (replicate n (pvm_root s R_null_object))"
  using assms unfolding array_rep_def holds_in_def filled_def
  by (metis (no_types, lifting) length_append length_replicate le_add_diff_inverse)

lemma holds_in_rep: "holds_in s p da xs (replicate n (pvm_root s R_null_object)) \<Longrightarrow> array_rep s p xs"
  unfolding array_rep_def
  by (intro exI [of _ da]) (auto simp: holds_in_def filled_def page_ok_def)

section \<open>Frames\<close>

lemma array_env_put:
  assumes e: "array_env s" and ob: "heap s q = Some ob" and nc: "\<And>c. o_da ob \<noteq> DA_class c"
  shows "array_env (put_ob q (ob\<lparr>o_da := d\<rparr>) s)"
proof -
  let ?t = "put_ob q (ob\<lparr>o_da := d\<rparr>) s"
  have r: "pvm_root ?t = pvm_root s" "null_of ?t = null_of s" by (simp_all add: put_ob_def null_of_def)
  have l: "live ?t = live s" using ob by (auto simp: live_def ob_live_def)
  have "std_env ?t" using e by (intro std_env_put [OF _ ob nc]) (simp add: array_env_def)
  moreover have "ob_data (pvm_root s R_page_class) \<noteq> q" using e ob nc by (auto simp: array_env_def)
  ultimately show ?thesis
    using e ob unfolding array_env_def r l by (auto simp: ob_live_def split: if_splits)
qed

lemma array_env_created:
  assumes e: "array_env s" and cr: "created s s' r cls n fl d"
  shows "array_env s'"
proof -
  note D = createdD [OF cr] and S = created_stable [OF cr]
  have se: "std_env s" using e by (simp add: array_env_def)
  have "null_of s' = null_of s" by (simp add: null_of_def S)
  moreover have "heap s' (null_of s) = heap s (null_of s)" using D(5) std_envD(2) [OF se] by simp
  moreover have "heap s' (ob_data (pvm_root s R_page_class)) = heap s (ob_data (pvm_root s R_page_class))"
    using D(5) std_envD(5) [OF se, of R_page_class] by (simp add: class_roots_def)
  ultimately show ?thesis
    using e std_env_created [OF se cr] D(4) unfolding array_env_def S by auto
qed

lemma page_ok_frame:
  assumes "page_ok s r ys" "heap t (ob_data r) = heap s (ob_data r)" "live s \<subseteq> live t"
    "pvm_root t = pvm_root s"
  shows "page_ok t r ys"
  using assms by (auto simp: page_ok_def pvm_is_null_def)

lemma page_plain: "page_ok s r ys \<Longrightarrow> plain_at s (ob_data r) ys \<and> ref_valid s r"
  by (auto simp: page_ok_def plain_at_def ref_valid_def live_def slots_of_def comp_simps)

lemma ref_dec_null:
  assumes "array_env s"
  shows "whenE (ob_data (pvm_root s R_null_object) \<noteq> 0) (ref_dec_o (pvm_root s R_null_object)) s = Inr ((), s)"
  using assms ref_dec_step_saturated [of s "null_of s"]
  by (auto simp: array_env_def null_of_def whenE_apply ref_dec_o_def ref_dec_p_def ref_dec_fuel_def)

section \<open>Growing and appending\<close>

lemma load_array: "array_at s p da \<Longrightarrow> load_da as_array p s = Inr (da, s)"
  by (auto simp: array_at_def load_da_Some)

lemma new_page_size_gt: "n + 1024 < 2 ^ 28 \<Longrightarrow> n < array_new_page_size n \<and> array_new_page_size n < 2 ^ 28"
  by (simp add: array_new_page_size_def Let_def u32_def)

lemma store_array:
  assumes a: "array_at s p da" and e: "array_env s"
  obtains s' where "store_da p (DA_array da') s = Inr ((), s')" "array_at s' p da'" "array_env s'"
    "live s' = live s" "pvm_root s' = pvm_root s" "\<And>q. q \<noteq> p \<Longrightarrow> heap s' q = heap s q"
proof -
  from a obtain ob where ob: "heap s p = Some ob" "ob_live ob" "is_internal ob" "is_resizeable ob"
    "o_da ob = DA_array da" by (auto simp: array_at_def)
  let ?s = "put_ob p (ob\<lparr>o_da := DA_array da'\<rparr>) s"
  show thesis
  proof (rule that)
    show "store_da p (DA_array da') s = Inr ((), ?s)" by (rule store_da_Some [OF ob(1)])
    show "array_at ?s p da'" using ob by (simp add: array_at_def ob_live_def is_internal_def is_resizeable_def)
    show "array_env ?s" by (rule array_env_put [OF e ob(1)]) (simp add: ob)
    show "live ?s = live s" using ob by (auto simp: live_def ob_live_def)
  qed (simp_all add: put_ob_def)
qed

lemma array_not_page: "array_at s p da \<Longrightarrow> page_ok s r ys \<Longrightarrow> ob_data r \<noteq> p"
  by (auto simp: array_at_def page_ok_def)

lemma filled_other:
  assumes "filled s da xs" "array_at s p da0" "live s \<subseteq> live t" "pvm_root t = pvm_root s"
    "\<And>q. q \<noteq> p \<Longrightarrow> q \<in> live s \<Longrightarrow> heap t q = heap s q"
    "arr_page da' = arr_page da" "arr_page_size da' = arr_page_size da"
  shows "filled t da' xs"
proof -
  let ?ys = "xs @ replicate (arr_page_size da - length xs) (pvm_root s R_null_object)"
  have p: "page_ok s (arr_page da) ?ys" using assms by (simp add: filled_def)
  then have "ob_data (arr_page da) \<in> live s" by (auto simp: page_ok_def live_def)
  with p assms array_not_page [OF assms(2) p] have "page_ok t (arr_page da) ?ys"
    by (intro page_ok_frame [OF p]) auto
  with assms show ?thesis by (simp add: filled_def)
qed

text \<open>After the growth step the page has room for one more element.\<close>

lemma grow_room:
  assumes e: "array_env s" and rep: "array_rep s p xs" and n: "length xs + 1024 < 2 ^ 28"
  shows "yields (grow_array p (length xs)) s (\<lambda>_ s'. array_env s' \<and> live s \<subseteq> live s' \<and>
    (\<exists>da. array_at s' p da \<and> arr_used_slots da = length xs \<and> filled s' da xs \<and>
       length xs < arr_page_size da))"
proof -
  from rep obtain da where da: "array_at s p da" "arr_used_slots da = length xs"
    "if pvm_is_null s (arr_page da) then xs = [] else filled s da xs" by (auto simp: array_rep_def)
  show ?thesis
  proof (cases "pvm_is_null s (arr_page da) \<or> length xs \<ge> arr_page_size da")
    case False
    with da e show ?thesis
      by (intro yields_exact [where x = "()" and s' = s])
        (auto simp: grow_array_def load_array comp_simps)
  next
    case True
    let ?n = "array_new_page_size (length xs)"
    have se: "std_env s" using e by (simp add: array_env_def)
    from e obtain cda where cda: "class_at s (pvm_root s R_page_class) cda" "cl_object_flags cda = 0"
      "ob_data (cl_object_default_interface cda) = 0 \<or> ob_data (cl_object_default_interface cda) \<in> live s"
      by (auto simp: array_env_def class_at_def)
    have full: "xs = [] \<and> (pvm_is_null s (arr_page da) \<or> arr_page_size da = 0) \<or>
        \<not> pvm_is_null s (arr_page da) \<and> 0 < arr_page_size da \<and> page_ok s (arr_page da) xs \<and>
        length xs = arr_page_size da"
      using True da(3) by (cases "xs = []") (auto simp: filled_def split: if_splits simp flip: length_greater_0_conv)
    have run: "grow_array p (length xs) s = bindE (pvm_create_page_object ?n xs) (\<lambda>page.
          bindE (load_da as_array p) (\<lambda>da'.
          store_da p (DA_array (da'\<lparr>arr_page := page, arr_page_size := ?n\<rparr>)))) s"
      using True full page_plain [of s "arr_page da" xs]
      by (auto simp: grow_array_def load_array [OF da(1)] comp_simps Let_def load_def elim!: plain_atE)
    have nn: "?n * 8 < 2 ^ 31" "length xs < ?n" using new_page_size_gt [OF n] by simp_all
    have "yields (bindE (pvm_create_page_object ?n xs) (\<lambda>page. bindE (load_da as_array p) (\<lambda>da'.
          store_da p (DA_array (da'\<lparr>arr_page := page, arr_page_size := ?n\<rparr>))))) s
       (\<lambda>_ s'. array_env s' \<and> live s \<subseteq> live s' \<and> (\<exists>da. array_at s' p da \<and>
          arr_used_slots da = length xs \<and> filled s' da xs \<and> length xs < arr_page_size da))"
    proof (rule yields_bind [OF create_page_yields [OF std_envD(1) [OF se] cda(1) nn]])
      fix r s1
      let ?ys = "xs @ replicate (?n - length xs) (pvm_root s R_null_object)"
      assume c: "created s s1 r (pvm_root s R_page_class) (?n * 8) (cl_object_flags cda) (DA_slots ?ys) \<and>
        ob_interface r = ob_data (cl_object_default_interface cda)"
      note D = createdD [OF conjunct1 [OF c]] and S = created_stable [OF conjunct1 [OF c]]
      have pl: "p \<in> live s" using da(1) by (auto simp: array_at_def live_def)
      have a1: "array_at s1 p da" using da(1) D(5) [of p] pl by (simp add: array_at_def)
      have e1: "array_env s1" by (rule array_env_created [OF e conjunct1 [OF c]])
      let ?da = "da\<lparr>arr_page := r, arr_page_size := ?n\<rparr>"
      have "null_of s \<in> live s" by (rule std_envD(2) [OF se])
      then have pg: "page_ok s1 r ?ys"
        using D(2,3,4,7) c cda nn(2) by (auto simp: page_ok_def pvm_is_null_def S null_of_def
            is_internal_def has_flag_def da_po_limit_def sizeof_pvm_object_def)
      from store_array [OF a1 e1, of ?da] obtain s2
        where s2: "store_da p (DA_array ?da) s1 = Inr ((), s2)" "array_at s2 p ?da" "array_env s2"
          "live s2 = live s1" "pvm_root s2 = pvm_root s1" "\<And>q. q \<noteq> p \<Longrightarrow> heap s2 q = heap s1 q" by blast
      have "ob_data r \<noteq> p" using D(3) pl by auto
      then have "page_ok s2 r ?ys" using s2 by (intro page_ok_frame [OF pg]) simp_all
      then have "filled s2 ?da xs" using nn s2(5) by (simp add: filled_def S)
      with s2 D(4) da(2) nn show "yields (bindE (load_da as_array p) (\<lambda>da'.
          store_da p (DA_array (da'\<lparr>arr_page := r, arr_page_size := ?n\<rparr>)))) s1 (\<lambda>_ s'. array_env s' \<and>
          live s \<subseteq> live s' \<and> (\<exists>da. array_at s' p da \<and> arr_used_slots da = length xs \<and>
            filled s' da xs \<and> length xs < arr_page_size da))"
        by (auto simp: yields_def bindE_apply load_array [OF a1] intro!: exI [of _ ?da])
    qed
    then show ?thesis using run by (simp add: yields_def)
  qed
qed


lemma page_store:
  assumes pg: "page_ok s r ys" and n: "length zs = length ys"
  obtains s' where "store_da (ob_data r) (DA_slots zs) s = Inr ((), s')" "array_env s \<Longrightarrow> array_env s'" "page_ok s' r zs"
    "live s' = live s" "pvm_root s' = pvm_root s" "\<And>q. q \<noteq> ob_data r \<Longrightarrow> heap s' q = heap s q"
proof -
  from pg obtain pob where pob: "heap s (ob_data r) = Some pob" "ob_live pob" "o_da pob = DA_slots ys"
    "length ys = da_po_limit pob" by (auto simp: page_ok_def)
  let ?s = "put_ob (ob_data r) (pob\<lparr>o_da := DA_slots zs\<rparr>) s"
  have l: "live ?s = live s" using pob by (auto simp: live_def ob_live_def)
  show thesis
  proof (rule that)
    show "store_da (ob_data r) (DA_slots zs) s = Inr ((), ?s)" by (rule store_da_Some [OF pob(1)])
    show "array_env ?s" if "array_env s" by (rule array_env_put [OF that pob(1)]) (simp add: pob)
    show "page_ok ?s r zs"
      using pg pob n unfolding page_ok_def l
      by (auto simp: pvm_is_null_def ob_live_def is_internal_def da_po_limit_def put_ob_def)
    show "live ?s = live s" by (rule l)
  qed (simp_all add: put_ob_def)
qed

text \<open>Writing into an unused slot of a page.\<close>

lemma page_slots:
  assumes "page_ok s r ys"
  obtains pob where "heap s (ob_data r) = Some pob" "length ys = da_po_limit pob"
    "\<And>t. slots_of pob t = Inr (ys, t)"
  using assms by (auto simp: page_ok_def slots_of_def comp_simps)

lemma page_write:
  assumes e: "array_env s" and pg: "page_ok s r ys" and i: "i < length ys"
    and null: "ys ! i = pvm_root s R_null_object" and v: "ref_valid s v"
  obtains s' where "pvm_set_ofield r i v s = Inr ((), s')" "array_env s'" "page_ok s' r (ys[i := v])"
    "live s' = live s" "pvm_root s' = pvm_root s" "\<And>q. q \<noteq> ob_data r \<Longrightarrow> heap s' q = heap s q"
proof -
  from pg obtain pob where pob: "heap s (ob_data r) = Some pob" "length ys = da_po_limit pob"
    and sl: "\<And>t. slots_of pob t = Inr (ys, t)" by (rule page_slots) blast
  have n: "length (ys[i := v]) = length ys" by simp
  obtain s' where
    s': "store_da (ob_data r) (DA_slots (ys[i := v])) s = Inr ((), s')" "array_env s \<Longrightarrow> array_env s'"
      "page_ok s' r (ys[i := v])" "live s' = live s" "pvm_root s' = pvm_root s"
      "\<And>q. q \<noteq> ob_data r \<Longrightarrow> heap s' q = heap s q" by (rule page_store [OF pg n]) blast
  have "replace_slot msg (ob_data r) i v s = Inr ((), s')" for msg
    using pob(1) i null s'(1) by (simp add: replace_slot_def bindE_apply thenE_apply slot_at_eval [OF pob(2) sl]
        ref_dec_null [OF e, simplified] sl load_def)
  then have "pvm_set_ofield r i v s = Inr ((), s')"
    using set_ofield_plain [of s r ys v i] page_plain [OF pg] v by simp
  then show thesis by (rule that) (use s' e in simp_all)
qed

lemma append_run:
  assumes da: "array_at s p da" "arr_used_slots da = length xs" and v: "ref_valid s v"
  shows "pvm_append_array p v s = thenE (grow_array p (length xs)) (bindE (load_da as_array p) (\<lambda>da.
      thenE (whenE (length xs \<ge> arr_used_slots da)
               (store_da p (DA_array (da\<lparr>arr_used_slots := u32 (length xs + 1)\<rparr>))))
            (pvm_set_ofield (arr_page da) (length xs) v))) s"
proof -
  from da(1) obtain ob where ob: "heap s p = Some ob" "ob_live ob" "is_internal ob" "is_resizeable ob"
    by (auto simp: array_at_def)
  then have "p \<in> live s" by (auto simp: live_def)
  with da ob v show ?thesis
    by (simp add: pvm_append_array_def pvm_set_array_ofield_def load_array bindE_apply thenE_apply
        verify_p_eval verify_o_eval)
qed

lemma append_yields:
  assumes e: "array_env s" and rep: "array_rep s p xs" and n: "length xs + 1024 < 2 ^ 28" and v: "ref_valid s v"
  shows "yields (pvm_append_array p v) s (\<lambda>_ s'. array_env s' \<and> live s \<subseteq> live s' \<and> array_rep s' p (xs @ [v]))"
proof -
  from rep obtain da where "array_at s p da" "arr_used_slots da = length xs" by (auto simp: array_rep_def)
  note run = append_run [OF this v]
  have "yields (thenE (grow_array p (length xs)) (bindE (load_da as_array p) (\<lambda>da.
      thenE (whenE (length xs \<ge> arr_used_slots da)
               (store_da p (DA_array (da\<lparr>arr_used_slots := u32 (length xs + 1)\<rparr>))))
            (pvm_set_ofield (arr_page da) (length xs) v)))) s
     (\<lambda>_ s'. array_env s' \<and> live s \<subseteq> live s' \<and> array_rep s' p (xs @ [v]))"
  proof (rule yields_then [OF grow_room [OF e rep n]])
    fix u s1 assume A: "array_env s1 \<and> live s \<subseteq> live s1 \<and> (\<exists>da. array_at s1 p da \<and>
        arr_used_slots da = length xs \<and> filled s1 da xs \<and> length xs < arr_page_size da)"
    then obtain d where d: "array_at s1 p d" "arr_used_slots d = length xs" "filled s1 d xs"
      "length xs < arr_page_size d" and e1: "array_env s1" and l1: "live s \<subseteq> live s1" by blast
    let ?d = "d\<lparr>arr_used_slots := length xs + 1\<rparr>"
    have u: "u32 (Suc (length xs)) = Suc (length xs)" using n by (simp add: u32_def)
    from store_array [OF d(1) e1, of ?d] obtain s2 where s2: "store_da p (DA_array ?d) s1 = Inr ((), s2)"
      "array_at s2 p ?d" "array_env s2" "live s2 = live s1" "pvm_root s2 = pvm_root s1"
      "\<And>q. q \<noteq> p \<Longrightarrow> heap s2 q = heap s1 q" by blast
    have f2: "filled s2 ?d xs" by (rule filled_other [OF d(3,1)]) (use s2 in simp_all)
    let ?ys = "xs @ replicate (arr_page_size d - length xs) (pvm_root s2 R_null_object)"
    from f2 have pg: "page_ok s2 (arr_page d) ?ys" by (simp add: filled_def)
    have "ref_valid s2 v" using v l1 s2(4) by (auto simp: ref_valid_def)
    moreover have "?ys ! length xs = pvm_root s2 R_null_object" using d(4) by (simp add: nth_append)
    ultimately obtain s3
      where s3: "pvm_set_ofield (arr_page d) (length xs) v s2 = Inr ((), s3)" "array_env s3"
      "page_ok s3 (arr_page d) (?ys[length xs := v])" "live s3 = live s2" "pvm_root s3 = pvm_root s2"
      "\<And>q. q \<noteq> ob_data (arr_page d) \<Longrightarrow> heap s3 q = heap s2 q"
      using page_write [OF s2(3) pg, of "length xs" v] d(4) by auto
    have ys: "?ys[length xs := v] = (xs @ [v]) @
        replicate (arr_page_size d - length (xs @ [v])) (pvm_root s3 R_null_object)"
      using d(4) s3(5) by (cases "arr_page_size d - length xs") (auto simp: list_update_append)
    have "array_at s3 p ?d" using s2(2) s3(6) [of p] array_not_page [OF s2(2) pg] by (simp add: array_at_def)
    moreover have "filled s3 ?d (xs @ [v])" using s3(3) ys d(4) by (simp add: filled_def)
    moreover have "\<not> pvm_is_null s3 (arr_page d)" using s3(3) by (simp add: page_ok_def)
    ultimately have r3: "array_rep s3 p (xs @ [v])"
      unfolding array_rep_def by (intro exI [of _ ?d]) simp
    show "yields (bindE (load_da as_array p) (\<lambda>da.
      thenE (whenE (length xs \<ge> arr_used_slots da)
               (store_da p (DA_array (da\<lparr>arr_used_slots := u32 (length xs + 1)\<rparr>))))
            (pvm_set_ofield (arr_page da) (length xs) v))) s1
     (\<lambda>_ s'. array_env s' \<and> live s \<subseteq> live s' \<and> array_rep s' p (xs @ [v]))"
      using d(2) s2(1,4) s3(1,2,4) r3 l1 by (simp add: yields_def comp_simps load_array [OF d(1)] u)
  qed
  then show ?thesis by (simp add: yields_def run)
qed


section \<open>Reading and removing\<close>

lemma array_holdsE:
  assumes "array_holds s p xs"
  obtains da where "array_at s p da" "arr_used_slots da = length xs"
    "xs = [] \<or> (\<exists>tail. page_ok s (arr_page da) (xs @ tail))"
  using assms by (auto simp: array_holds_def holds_in_def)

lemma array_get:
  assumes rep: "array_holds s (ob_data op) xs" and op: "ref_valid s op"
    and v: "\<And>x. x \<in> set xs \<Longrightarrow> ref_valid s x"
  shows "pvm_get_ofield op i s =
    (if i < length xs then Inr (xs ! i, s) else Inl (Exec_panic ''load: array index out of bounds''))"
proof -
  from rep obtain da where da: "array_at s (ob_data op) da" "arr_used_slots da = length xs"
    "xs = [] \<or> (\<exists>tail. page_ok s (arr_page da) (xs @ tail))" by (rule array_holdsE)
  then obtain ob where ob: "heap s (ob_data op) = Some ob" "ob_live ob" "is_internal ob" "is_resizeable ob"
    "o_da ob = DA_array da" by (auto simp: array_at_def)
  have "ob_data op \<in> live s" using ob by (auto simp: live_def)
  then have run: "pvm_get_ofield_n (Suc m) op i s = (if i < length xs then pvm_get_ofield_n m (arr_page da) i s
      else Inl (Exec_panic ''load: array index out of bounds''))" for m
    using ob da(2) by (simp add: pvm_get_ofield_step_def pvm_get_array_ofield_def verify_o_eval [OF op]
        verify_p_eval comp_simps)
  show ?thesis
  proof (cases "i < length xs")
    case True
    with da(3) obtain tail where "page_ok s (arr_page da) (xs @ tail)" by auto
    then have pg: "plain_at s (ob_data (arr_page da)) (xs @ tail)" "ref_valid s (arr_page da)"
      using page_plain by auto
    have "0 < ref_dec_fuel s" by (simp add: ref_dec_fuel_def)
    then obtain m where m: "ref_dec_fuel s = Suc m" by (cases "ref_dec_fuel s") auto
    have "pvm_get_ofield_n (Suc m) (arr_page da) i s = Inr (xs ! i, s)"
      using True v by (simp add: get_ofield_n_plain [OF pg] nth_append verify_o_eval comp_simps
          del: pvm_get_ofield_n.simps)
    with True show ?thesis
      by (simp add: pvm_get_ofield_def bindE_apply run m del: pvm_get_ofield_n.simps)
  next
    case False
    then show ?thesis by (simp add: pvm_get_ofield_def bindE_apply run del: pvm_get_ofield_n.simps)
  qed
qed

lemma find_slot_first:
  "ob_data w = a \<Longrightarrow> a \<notin> ob_data ` set us \<Longrightarrow> find_slot a (us @ w # vs) k = Some (k + length us)"
  by (induction us arbitrary: k) auto

lemma find_slot_none: "a \<notin> ob_data ` set xs \<Longrightarrow> find_slot a xs k = None"
  by (induction xs arbitrary: k) auto

lemma pop_missing:
  assumes h: "array_holds s p xs" and v: "ob_data v \<notin> ob_data ` set xs"
  shows "pvm_pop_array p v s = Inl (Exec_panic ''attempt to remove non existing element from array'')"
proof -
  from h obtain da where da: "array_at s p da" "arr_used_slots da = length xs"
    "xs = [] \<or> (\<exists>tail. page_ok s (arr_page da) (xs @ tail))" by (rule array_holdsE)
  show ?thesis
  proof (cases "xs = []")
    case True
    with da show ?thesis by (simp add: pvm_pop_array_def load_array bindE_apply)
  next
    case False
    with da(3) obtain tail where "page_ok s (arr_page da) (xs @ tail)" by blast
    then obtain pob where "heap s (ob_data (arr_page da)) = Some pob"
      "\<And>t. slots_of pob t = Inr (xs @ tail, t)" by (rule page_slots) blast
    with False da(2) find_slot_none [OF v] show ?thesis
      by (simp add: pvm_pop_array_def load_array [OF da(1)] bindE_apply load_def)
  qed
qed

text \<open>
  The last element takes the place of the removed one. It also stays behind the elements, and
  no count changes.
\<close>

lemma pop_found:
  assumes e: "array_env s" and h: "holds_in s p da xs tail"
    and xs: "xs = us @ w # vs" "ob_data w = ob_data v" "ob_data v \<notin> ob_data ` set us"
  obtains s' where "pvm_pop_array p v s = Inr ((), s')" "array_env s'" "live s' = live s"
    "pvm_root s' = pvm_root s"
    "holds_in s' p (da\<lparr>arr_used_slots := length xs - 1\<rparr>) (butlast (us @ last xs # vs)) (last xs # tail)"
    "\<And>q. q \<noteq> p \<Longrightarrow> q \<noteq> ob_data (arr_page da) \<Longrightarrow> heap s' q = heap s q"
proof -
  let ?zs = "us @ last xs # vs" and ?da = "da\<lparr>arr_used_slots := length xs - 1\<rparr>" and ?r = "arr_page da"
  from h have da: "array_at s p da" "arr_used_slots da = length xs" "page_ok s ?r (xs @ tail)"
    "length (xs @ tail) = arr_page_size da" by (simp_all add: holds_in_def)
  from da(3) obtain pob where pob: "heap s (ob_data ?r) = Some pob"
    and sl: "\<And>t. slots_of pob t = Inr (xs @ tail, t)" by (rule page_slots) blast
  have n: "length (?zs @ tail) = length (xs @ tail)" using xs(1) by simp
  have up: "(xs @ tail)[length us := (xs @ tail) ! (length xs - 1)] = ?zs @ tail"
  proof -
    have "(xs @ tail)[length us := x] = us @ x # vs @ tail" for x using xs(1) by simp
    moreover have "xs \<noteq> []" using xs(1) by simp
    ultimately show ?thesis by (simp add: nth_append last_conv_nth)
  qed
  have same: "?zs = xs" if "length us = length xs - 1" using that xs(1) by simp
  obtain s1 where s1: "store_da (ob_data ?r) (DA_slots (?zs @ tail)) s = Inr ((), s1)"
    "array_env s \<Longrightarrow> array_env s1" "page_ok s1 ?r (?zs @ tail)" "live s1 = live s" "pvm_root s1 = pvm_root s"
    "\<And>q. q \<noteq> ob_data ?r \<Longrightarrow> heap s1 q = heap s q" by (rule page_store [OF da(3) n]) blast
  obtain s2 where s2: "whenE (length us \<noteq> length xs - 1) (store_da (ob_data ?r) (DA_slots (?zs @ tail))) s = Inr ((), s2)"
    "array_env s2" "page_ok s2 ?r (?zs @ tail)" "live s2 = live s" "pvm_root s2 = pvm_root s"
    "\<And>q. q \<noteq> ob_data ?r \<Longrightarrow> heap s2 q = heap s q"
    using s1 same e da(3) by (cases "length us = length xs - 1") (auto simp: whenE_def)
  have "array_at s2 p da" using da(1) s2(6) [of p] array_not_page [OF da(1,3)] by (simp add: array_at_def)
  from store_array [OF this s2(2), of ?da] obtain s3 where s3: "store_da p (DA_array ?da) s2 = Inr ((), s3)"
    "array_at s3 p ?da" "array_env s3" "live s3 = live s2" "pvm_root s3 = pvm_root s2"
    "\<And>q. q \<noteq> p \<Longrightarrow> heap s3 q = heap s2 q" by blast
  have "page_ok s3 ?r (?zs @ tail)"
    by (rule page_ok_frame [OF s2(3)]) (use s3 array_not_page [OF da(1,3)] in simp_all)
  moreover have "?zs @ tail = butlast ?zs @ last xs # tail"
    using xs(1) by (cases vs rule: rev_cases) (auto simp: butlast_append)
  ultimately have "page_ok s3 ?r (butlast ?zs @ last xs # tail)" by (simp only:)
  then have h3: "holds_in s3 p ?da (butlast ?zs) (last xs # tail)"
    using s3(2) n da(4) xs(1) by (simp add: holds_in_def)
  have run: "pvm_pop_array p v s = Inr ((), s3)"
    using s2(1) s3(1) xs da(2) find_slot_first [OF xs(2,3), of vs 0] up
    by (simp add: pvm_pop_array_def load_array [OF da(1)] bindE_apply load_def pob sl thenE_apply)
  have "heap s3 q = heap s q" if "q \<noteq> p" "q \<noteq> ob_data ?r" for q using that s2(6) s3(6) by simp
  then show thesis using that [OF run s3(3) _ _ h3] s2(4,5) s3(4,5) by simp
qed

section \<open>Appending over a stale reference\<close>

lemma live_nonzero: "array_env s \<Longrightarrow> p \<in> live s \<Longrightarrow> p \<noteq> 0"
proof -
  assume e: "array_env s" "p \<in> live s"
  then have ok: "heap_ok s" by (simp add: array_env_def std_env_def)
  then have "0 < space_start s"
    using heap_okD(1) [OF ok] by (simp add: arenas_ok_def PVM_MIN_FRAGMENT_SIZE_def sizeof_pvm_object_storage_def)
  with heap_okD(3) [OF ok] e(2) show "p \<noteq> 0" by auto
qed

text \<open>An object that is internal, no array, and referred to more than once.\<close>

definition shared_at :: "vm_state \<Rightarrow> addr \<Rightarrow> bool" where
  "shared_at s p \<longleftrightarrow> (\<exists>ob. heap s p = Some ob \<and> ob_live ob \<and> is_internal ob \<and> \<not> is_resizeable ob \<and>
     1 < refCount ob \<and> refCount ob < INT_MAX)"

lemma shared_elsewhere:
  "shared_at s q \<Longrightarrow> array_at s p da \<Longrightarrow> q \<noteq> p" "shared_at s q \<Longrightarrow> page_ok s r ys \<Longrightarrow> q \<noteq> ob_data r"
  by (auto simp: shared_at_def array_at_def page_ok_def)

lemma dec_shared:
  assumes sh: "shared_at s q" and q: "q \<noteq> 0"
  obtains s' where "ref_dec_p q s = Inr ((), s')" "rc s' q = rc s q - 1" "live s' = live s"
    "pvm_root s' = pvm_root s" "\<And>a. a \<noteq> q \<Longrightarrow> heap s' a = heap s a"
proof -
  from sh obtain ob where ob: "heap s q = Some ob" "ob_live ob" "is_internal ob" "refCount ob < INT_MAX" "1 < refCount ob"
    by (auto simp: shared_at_def)
  let ?s = "put_ob q (ob\<lparr>refCount := refCount ob - 1\<rparr>) s"
  have "ref_dec_nonzero q ?s = Inr ((), ?s)"
    using ob(3) by (simp add: ref_dec_nonzero_def bindE_apply load_def is_internal_def whenE_def)
  with ref_dec_step_survives [OF ob(1,2,4,5) q] have "ref_dec_p q s = Inr ((), ?s)"
    by (simp add: ref_dec_p_def ref_dec_fuel_def)
  moreover have "live ?s = live s" using ob by (auto simp: live_def ob_live_def)
  ultimately show thesis using that [of ?s] ob by (simp add: rc_def put_ob_def)
qed

lemma append_over:
  assumes e: "array_env s" and h: "holds_in s p da xs (y # tail)" and y: "shared_at s (ob_data y)"
    and w: "ref_valid s w" and n: "length xs + 1 < 2 ^ 32"
  obtains s' where "pvm_append_array p w s = Inr ((), s')" "pvm_root s' = pvm_root s"
    "holds_in s' p (da\<lparr>arr_used_slots := length xs + 1\<rparr>) (xs @ [w]) tail"
    "rc s' (ob_data y) = rc s (ob_data y) - 1"
proof -
  let ?r = "arr_page da" and ?da = "da\<lparr>arr_used_slots := length xs + 1\<rparr>" and ?ys = "xs @ y # tail"
  from h have da: "array_at s p da" "arr_used_slots da = length xs" "page_ok s ?r ?ys"
    "length ?ys = arr_page_size da" by (simp_all add: holds_in_def)
  have ne: "ob_data y \<noteq> p" "ob_data y \<noteq> ob_data ?r" "ob_data ?r \<noteq> p"
    using shared_elsewhere [OF y] da(1,3) array_not_page [OF da(1,3)] by auto
  from store_array [OF da(1) e, of ?da] obtain s2 where s2: "store_da p (DA_array ?da) s = Inr ((), s2)"
    "array_at s2 p ?da" "array_env s2" "live s2 = live s" "pvm_root s2 = pvm_root s"
    "\<And>q. q \<noteq> p \<Longrightarrow> heap s2 q = heap s q" by blast
  have pg2: "page_ok s2 ?r ?ys" by (rule page_ok_frame [OF da(3)]) (use s2 ne in simp_all)
  have y2: "shared_at s2 (ob_data y)" using y s2(6) [OF ne(1)] by (simp add: shared_at_def)
  then have "ob_data y \<in> live s2" by (auto simp: shared_at_def live_def)
  with dec_shared [OF y2] live_nonzero [OF s2(3)] obtain s3 where y0: "ob_data y \<noteq> 0"
    and s3: "ref_dec_p (ob_data y) s2 = Inr ((), s3)" "rc s3 (ob_data y) = rc s2 (ob_data y) - 1"
      "live s3 = live s2" "pvm_root s3 = pvm_root s2" "\<And>a. a \<noteq> ob_data y \<Longrightarrow> heap s3 a = heap s2 a" by metis
  have pg3: "page_ok s3 ?r ?ys" by (rule page_ok_frame [OF pg2]) (use s3 ne in simp_all)
  have len: "length (xs @ w # tail) = length ?ys" by simp
  obtain s4 where s4: "store_da (ob_data ?r) (DA_slots (xs @ w # tail)) s3 = Inr ((), s4)"
    "page_ok s4 ?r (xs @ w # tail)" "live s4 = live s3" "pvm_root s4 = pvm_root s3"
    "\<And>q. q \<noteq> ob_data ?r \<Longrightarrow> heap s4 q = heap s3 q" by (rule page_store [OF pg3 len]) blast
  from pg2 obtain pob where pob: "heap s2 (ob_data ?r) = Some pob" "length ?ys = da_po_limit pob"
    and sl: "\<And>t. slots_of pob t = Inr (?ys, t)" by (rule page_slots) blast
  have "replace_slot msg (ob_data ?r) (length xs) w s2 = Inr ((), s4)" for msg
    using pob(1) s3(1,5) s4(1) y0 ne(2) by (simp add: replace_slot_def bindE_apply thenE_apply
        slot_at_eval [OF pob(2) sl] sl load_def ref_dec_o_def whenE_def)
  moreover have "ref_valid s2 w" using w s2(4) by (simp add: ref_valid_def)
  ultimately have set: "pvm_set_ofield ?r (length xs) w s2 = Inr ((), s4)"
    using set_ofield_plain [of s2 ?r ?ys w "length xs"] page_plain [OF pg2] by simp
  have grow: "grow_array p (length xs) s = Inr ((), s)"
    using da by (simp add: grow_array_def load_array bindE_apply page_ok_def)
  have run: "pvm_append_array p w s = Inr ((), s4)"
    using append_run [OF da(1,2) w] grow set s2(1) n da(2)
    by (simp add: thenE_apply bindE_apply load_array [OF da(1)] u32_def whenE_def)
  have "array_at s4 p ?da" using s2(2) s3(5) [of p] s4(5) [of p] ne by (simp add: array_at_def)
  then have "holds_in s4 p ?da (xs @ [w]) tail" using s4(2) da(4) by (simp add: holds_in_def)
  moreover have "rc s4 (ob_data y) = rc s (ob_data y) - 1"
    using s3(2) s4(5) s2(6) ne by (simp add: rc_def)
  ultimately show thesis using that [OF run] s2(5) s3(4) s4(4) by simp
qed

section \<open>Properties\<close>

text \<open>
  C16. An array behaves as the list of its elements: \<^verbatim>\<open>get_array_size\<close> is the length;
  \<^verbatim>\<open>pvm_get_ofield\<close> reads the element at an index in range and panics at any other;
  \<^verbatim>\<open>pvm_pop_array\<close> panics when the value is not in the array, and otherwise puts the last element
  in the place of its first occurrence and drops the last place, whatever the slots behind the
  elements hold; \<^verbatim>\<open>pvm_append_array\<close>, unless memory runs out, adds the value at the end, whether the
  page has room, is full, or does not exist yet (the copy into the larger page never fails its
  assertion). The clause on appending is for an array whose slots behind the elements hold
  the null object (\<open>array_rep\<close>: a new array, and any array after appends, but not after a
  removal) and that is short enough for the byte size of the next page to fit into an \<^verbatim>\<open>int\<close>.
\<close>

theorem array_refines_list:
  assumes e: "array_env s" and rep: "array_holds s p xs"
    and op: "ob_data op = p" "ref_valid s op" and xs: "\<forall>x \<in> set xs. ref_valid s x" and v: "ref_valid s v"
  shows "get_array_size p s = Inr (length xs, s) \<and>
    (\<forall>i. pvm_get_ofield op i s = (if i < length xs then Inr (xs ! i, s)
       else Inl (Exec_panic ''load: array index out of bounds''))) \<and>
    (ob_data v \<notin> ob_data ` set xs \<longrightarrow> pvm_pop_array p v s =
       Inl (Exec_panic ''attempt to remove non existing element from array'')) \<and>
    (\<forall>us w vs. xs = us @ w # vs \<longrightarrow> ob_data w = ob_data v \<longrightarrow> ob_data v \<notin> ob_data ` set us \<longrightarrow>
       (\<exists>s'. pvm_pop_array p v s = Inr ((), s') \<and> array_env s' \<and>
          array_holds s' p (butlast (us @ last xs # vs)))) \<and>
    (array_rep s p xs \<longrightarrow> length xs + 1024 < 2 ^ 28 \<longrightarrow>
       yields (pvm_append_array p v) s (\<lambda>_ s'. array_env s' \<and> array_rep s' p (xs @ [v]) \<and>
         pvm_get_ofield op (length xs) s' = Inr (v, s')))"
proof (intro conjI allI impI)
  show "get_array_size p s = Inr (length xs, s)"
    using rep by (auto simp: get_array_size_def load_array bindE_apply elim!: array_holdsE)
  show "pvm_get_ofield op i s = (if i < length xs then Inr (xs ! i, s)
       else Inl (Exec_panic ''load: array index out of bounds''))" for i
    using array_get [of s op xs i] rep op xs by simp
  show "pvm_pop_array p v s = Inl (Exec_panic ''attempt to remove non existing element from array'')"
    if "ob_data v \<notin> ob_data ` set xs" by (rule pop_missing [OF rep that])
next
  fix us w vs assume x: "xs = us @ w # vs" "ob_data w = ob_data v" "ob_data v \<notin> ob_data ` set us"
  with rep obtain da tail where h: "holds_in s p da xs tail" by (auto simp: array_holds_def)
  from pop_found [OF e h x] show "\<exists>s'. pvm_pop_array p v s = Inr ((), s') \<and> array_env s' \<and>
      array_holds s' p (butlast (us @ last xs # vs))"
    unfolding array_holds_def by metis
next
  assume r: "array_rep s p xs" "length xs + 1024 < 2 ^ 28"
  show "yields (pvm_append_array p v) s (\<lambda>_ s'. array_env s' \<and> array_rep s' p (xs @ [v]) \<and>
      pvm_get_ofield op (length xs) s' = Inr (v, s'))"
  proof (rule yields_mono [OF append_yields [OF e r v]])
    fix u s' assume A: "array_env s' \<and> live s \<subseteq> live s' \<and> array_rep s' p (xs @ [v])"
    then have "ref_valid s r \<Longrightarrow> ref_valid s' r" for r by (auto simp: ref_valid_def)
    with A op xs v show "array_env s' \<and> array_rep s' p (xs @ [v]) \<and> pvm_get_ofield op (length xs) s' = Inr (v, s')"
      using array_get [of s' op "xs @ [v]" "length xs"] array_rep_holds [of s' p "xs @ [v]"] by auto
  qed
qed

text \<open>An array with a page of two slots that hold two objects; the second one has two references.\<close>

definition array_obs :: "pvm_object_storage list" where
  "array_obs = [(sample_ob (at_spot 1) IS_CHILDFREE DA_zero)\<lparr>refCount := INT_MAX\<rparr>,
     sample_ob (at_spot 1) (IS_INTERNAL OR IS_CLASS) (sample_class 0),
     sample_ob (at_spot 1) (IS_INTERNAL OR IS_RESIZEABLE)
       (DA_array \<lparr>arr_page = at_spot 3, arr_page_size = 2, arr_used_slots = 2\<rparr>),
     (sample_ob (at_spot 1) 0 (DA_slots [at_spot 4, at_spot 5]))\<lparr>o_da_size := 16\<rparr>,
     sample_ob (at_spot 1) IS_INTERNAL (DA_int 7),
     (sample_ob (at_spot 1) IS_INTERNAL (DA_int 8))\<lparr>refCount := 2\<rparr>]"

definition array_state :: vm_state where
  "array_state = laid_out array_obs sample_roots"

lemma array_obs_ok: "samples array_obs" "length array_obs = 6"
  by (simp_all add: array_obs_def samples_def sample_ok_def sample_ob_def INT_MAX_def)

lemma array_state_heap: "i < 6 \<Longrightarrow> heap array_state (spot i) = Some (array_obs ! i)"
  unfolding array_state_def by (rule laid_out_sel) (simp add: array_obs_ok)

lemma array_state_live: "i < 6 \<Longrightarrow> spot i \<in> live array_state"
  using live_laid_out [OF array_obs_ok(1)] by (simp add: array_state_def array_obs_ok)

lemma array_state_root: "pvm_root array_state = sample_roots"
  by (simp add: array_state_def)

lemma array_state_env: "array_env array_state"
proof -
  have "std_env array_state"
    unfolding array_state_def
    by (rule std_env_laid_out [OF array_obs_ok(1), where i = 0])
      (auto simp: array_obs_def sample_roots_def at_spot_def class_roots_def sample_class_def zero_class_def
        intro!: exI [of _ "Suc 0"])
  then show ?thesis
    using array_state_heap [of 0] array_state_heap [of "Suc 0"]
    by (simp add: array_env_def null_of_def array_state_root sample_roots_def sample_class_def ob_live_def
        array_obs_def sample_ob_def has_flag_def alloc_flag_defs zero_class_def null_ref_def)
qed

lemma array_state_rep: "array_rep array_state (spot 2) [at_spot 4, at_spot 5]"
proof -
  let ?da = "\<lparr>arr_page = at_spot 3, arr_page_size = 2, arr_used_slots = 2\<rparr>"
  have "array_at array_state (spot 2) ?da"
    using array_state_heap [of 2] by (simp add: array_at_def array_obs_def is_internal_def is_resizeable_def
        has_flag_def object_flag_defs)
  moreover have "page_ok array_state (at_spot 3) [at_spot 4, at_spot 5]"
    using array_state_heap [of 3] by (simp add: page_ok_def pvm_is_null_def array_state_root sample_roots_def
        array_obs_def is_internal_def has_flag_def da_po_limit_def sizeof_pvm_object_def ob_live_def sample_ob_def
        alloc_flag_defs)
  ultimately have "holds_in array_state (spot 2) ?da [at_spot 4, at_spot 5] (replicate 0 (pvm_root array_state R_null_object))"
    by (simp add: holds_in_def)
  then show ?thesis by (rule holds_in_rep)
qed

lemma array_state_valid: "i < 6 \<Longrightarrow> ref_valid array_state (at_spot i)"
  by (simp add: ref_valid_def array_state_live)

theorem array_refines_list_witness:
  "get_array_size (spot 2) array_state = Inr (2, array_state) \<and>
   pvm_get_ofield (at_spot 2) 1 array_state = Inr (at_spot 5, array_state) \<and>
   (\<exists>s'. pvm_pop_array (spot 2) (at_spot 4) array_state = Inr ((), s') \<and> array_holds s' (spot 2) [at_spot 5]) \<and>
   yields (pvm_append_array (spot 2) (at_spot 4)) array_state
     (\<lambda>_ s'. array_rep s' (spot 2) [at_spot 4, at_spot 5, at_spot 4])"
proof -
  have v: "ref_valid array_state (at_spot 2)" "ref_valid array_state (at_spot 4)"
    "\<forall>x \<in> set [at_spot 4, at_spot 5]. ref_valid array_state x" by (simp_all add: array_state_valid)
  note A = array_refines_list [OF array_state_env array_rep_holds [OF array_state_rep] at_spot_sel(1) v(1,3,2)]
  have "\<exists>s'. pvm_pop_array (spot 2) (at_spot 4) array_state = Inr ((), s') \<and> array_env s' \<and>
      array_holds s' (spot 2) (butlast ([] @ last [at_spot 4, at_spot 5] # [at_spot 5]))"
    using A [THEN conjunct2, THEN conjunct2, THEN conjunct2, THEN conjunct1, THEN spec, of "[]", THEN spec,
      of "at_spot 4", THEN spec, of "[at_spot 5]"] by simp
  with A array_state_rep show ?thesis by (auto elim: yields_mono)
qed

text \<open>
  C40. Removing an element and appending another takes a reference away from an element that stays.
  \<^verbatim>\<open>pvm_pop_array\<close> moves the last element into the place of the removed one and leaves a copy of it
  behind the elements, which is not counted; the next \<^verbatim>\<open>pvm_append_array\<close> overwrites that slot
  through \<^verbatim>\<open>pvm_set_ofield\<close>, which gives up the reference it finds there. For a last element \<open>x\<close>
  that is an internal object other than an array, such as a thread in the list of threads, with
  more than one reference, the array is then the right list, and the count of \<open>x\<close> is one lower
  than before, though the array holds it as before.
\<close>

theorem append_after_pop_loses_reference:
  assumes e: "array_env s" and rep: "array_rep s p (us @ v # vs @ [x])" and first: "ob_data v \<notin> ob_data ` set us"
    and x: "shared_at s (ob_data x)" and w: "ref_valid s w" and n: "length (us @ vs) + 2 < 2 ^ 32"
  shows "\<exists>s'. thenE (pvm_pop_array p v) (pvm_append_array p w) s = Inr ((), s') \<and>
    array_rep s' p (us @ x # vs @ [w]) \<and> rc s' (ob_data x) = rc s (ob_data x) - 1"
proof -
  let ?xs = "us @ v # vs @ [x]"
  from array_rep_holds_in [OF rep] obtain da k where h: "holds_in s p da ?xs (replicate k (pvm_root s R_null_object))" by auto
  have at: "array_at s p da" "page_ok s (arr_page da) (?xs @ replicate k (pvm_root s R_null_object))"
    using h by (simp_all add: holds_in_def)
  from pop_found [OF e h refl refl first] obtain s1 where s1: "pvm_pop_array p v s = Inr ((), s1)" "array_env s1"
    "live s1 = live s" "pvm_root s1 = pvm_root s"
    "holds_in s1 p (da\<lparr>arr_used_slots := length ?xs - 1\<rparr>) (butlast (us @ last ?xs # vs @ [x]))
       (last ?xs # replicate k (pvm_root s R_null_object))"
    "\<And>q. q \<noteq> p \<Longrightarrow> q \<noteq> ob_data (arr_page da) \<Longrightarrow> heap s1 q = heap s q" by metis
  have hx: "heap s1 (ob_data x) = heap s (ob_data x)"
    using s1(6) shared_elsewhere(1) [OF x at(1)] shared_elsewhere(2) [OF x at(2)] by blast
  have b: "last ?xs = x" "butlast (us @ x # vs @ [x]) = us @ x # vs" by (simp_all add: butlast_append)
  note h1 = s1(5) [unfolded b]
  have x1: "shared_at s1 (ob_data x)" "ref_valid s1 w" using x w hx s1(3) by (simp_all add: shared_at_def ref_valid_def)
  have n1: "length (us @ x # vs) + 1 < 2 ^ 32" using n by simp
  obtain s2 d where s2: "pvm_append_array p w s1 = Inr ((), s2)" "pvm_root s2 = pvm_root s1"
    "holds_in s2 p d ((us @ x # vs) @ [w]) (replicate k (pvm_root s R_null_object))"
    "rc s2 (ob_data x) = rc s1 (ob_data x) - 1" by (rule append_over [OF s1(2) h1 x1 n1]) blast
  have "array_rep s2 p (us @ x # vs @ [w])"
    using s2(2,3) s1(4) holds_in_rep by (metis append.assoc append_Cons)
  then show ?thesis using s1(1) s2(1,4) hx by (simp add: thenE_apply rc_def)
qed

theorem append_after_pop_loses_reference_witness:
  "rc array_state (spot 5) = 2 \<and>
   (\<exists>s'. thenE (pvm_pop_array (spot 2) (at_spot 4)) (pvm_append_array (spot 2) (at_spot 4)) array_state = Inr ((), s') \<and>
      array_rep s' (spot 2) [at_spot 5, at_spot 4] \<and> rc s' (spot 5) = 1)"
proof -
  have h: "heap array_state (spot 5) = Some ((sample_ob (at_spot 1) IS_INTERNAL (DA_int 8))\<lparr>refCount := 2\<rparr>)"
    using array_state_heap [of 5] by (simp add: array_obs_def)
  then have "shared_at array_state (ob_data (at_spot 5))" "rc array_state (spot 5) = 2"
    by (simp_all add: shared_at_def rc_def is_internal_def is_resizeable_def has_flag_def object_flag_defs INT_MAX_def
        ob_live_def sample_ob_def alloc_flag_defs)
  then show ?thesis
    using append_after_pop_loses_reference [OF array_state_env, of "spot 2" "[]" "at_spot 4" "[]" "at_spot 5" "at_spot 4"]
      array_state_rep array_state_valid [of 4] by simp
qed

end
