(* ===== verification/Object_Init.thy ===== *)
theory Object_Init
  imports Array_List
begin

text \<open>
  Creation of objects of any class: the look-up functions of the class table
  (\<^verbatim>\<open>phantom/vm/internal.c\<close>), the \<^verbatim>\<open>pvm_internal_init_*\<close> functions and the general
  \<^verbatim>\<open>pvm_create_object\<close> (\<^verbatim>\<open>phantom/vm/create.c\<close>), threads and their list, and the reflection
  functions of \<^verbatim>\<open>phantom/vm/backtrace.c\<close>. The initialisation of windows and terminals calls
  the video drivers; it is the parameter \<open>ui_init\<close>.
\<close>

section \<open>The class table\<close>

fun find_index :: "('a \<Rightarrow> bool) \<Rightarrow> 'a list \<Rightarrow> nat option" where
  "find_index P [] = None"
| "find_index P (x # xs) = (if P x then Some 0 else map_option Suc (find_index P xs))"

definition pvm_iclass_by_root_index :: "nat \<Rightarrow> nat vm" where
  "pvm_iclass_by_root_index index = bindE (gets sizeof_da) (\<lambda>szof.
     case find_index (\<lambda>c. ic_root_index c = index) (pvm_internal_classes szof) of
       Some i \<Rightarrow> ret i | None \<Rightarrow> raise (Panic ''no iclass with root index''))"

definition pvm_iclass_by_class :: "addr \<Rightarrow> nat vm" where
  "pvm_iclass_by_class cs = bindE (gets iclass_object) (\<lambda>col.
     case find_index (\<lambda>i. ob_data (col i) = cs) [0..<pvm_n_internal_classes] of
       Some i \<Rightarrow> ret i | None \<Rightarrow> raise (Panic ''no iclass for object''))"

text \<open>The comparison takes the length of the argument, so a prefix of a name matches.\<close>

definition pvm_iclass_by_name :: "string \<Rightarrow> nat vm" where
  "pvm_iclass_by_name name = bindE (gets sizeof_da) (\<lambda>szof.
     case find_index (\<lambda>c. take (length name) (ic_name c) = name) (pvm_internal_classes szof) of
       Some i \<Rightarrow> ret i | None \<Rightarrow> raise (Panic ''no iclass named''))"

definition bytes_of :: "string \<Rightarrow> u8 list" where
  "bytes_of cs = map (\<lambda>c. word_of_nat (of_char c)) cs"

text \<open>\<^verbatim>\<open>EQ_STRING_P2C\<close>: a string object against a C string, by length and \<^verbatim>\<open>strncmp\<close>.\<close>

definition EQ_STRING_P2C :: "pvm_object \<Rightarrow> string \<Rightarrow> bool vm" where
  "EQ_STRING_P2C obj cs = bindE (load_da as_string (ob_data obj)) (\<lambda>(len, dat).
     ret (len = length cs \<and> c_strncmp dat (bytes_of cs) len = 0))"

primrec lookup_iclass :: "pvm_object \<Rightarrow> internal_class list \<Rightarrow> nat \<Rightarrow> pvm_object vm" where
  "lookup_iclass name [] i = ret null_ref"
| "lookup_iclass name (c # cs) i = bindE (EQ_STRING_P2C name (ic_name c)) (\<lambda>eq.
     if eq then bindE (gets iclass_object) (\<lambda>col. ret (col i)) else lookup_iclass name cs (i + 1))"

definition pvm_lookup_internal_class :: "pvm_object \<Rightarrow> pvm_object vm" where
  "pvm_lookup_internal_class name = bindE (EQ_STRING_P2C name ''.internal.object'') (\<lambda>isobj.
     if isobj then bindE (gets iclass_object) (\<lambda>col. ret (col 0))
     else bindE (gets sizeof_da) (\<lambda>szof. lookup_iclass name (pvm_internal_classes szof) 0))"

section \<open>Shadow registers of a thread\<close>

text \<open>\<open>da\<close> is the address of the thread object.\<close>

definition pvm_exec_load_fast_acc :: "addr \<Rightarrow> unit vm" where
  "pvm_exec_load_fast_acc da = bindE (load_da as_thread da) (\<lambda>t.
     bindE (load_da as_call_frame (ob_data (th_call_frame t))) (\<lambda>cf.
     store_da da (DA_thread (t\<lparr>th_IP_max := cf_IP_max cf, th_code := cf_code cf, th_IP := cf_IP cf,
       th_this_object := cf_this_object cf, th_istack := ob_data (cf_istack cf),
       th_ostack := ob_data (cf_ostack cf), th_estack := ob_data (cf_estack cf)\<rparr>))))"

definition pvm_exec_save_fast_acc :: "addr \<Rightarrow> unit vm" where
  "pvm_exec_save_fast_acc da = bindE (load_da as_thread da) (\<lambda>t.
     bindE (load_da as_call_frame (ob_data (th_call_frame t))) (\<lambda>cf.
     store_da (ob_data (th_call_frame t)) (DA_call_frame (cf\<lparr>cf_IP := th_IP t\<rparr>))))"

section \<open>Initialisation of internal objects\<close>

definition pvm_internal_init_page :: "addr \<Rightarrow> unit vm" where
  "pvm_internal_init_page os = bindE (load os) (\<lambda>ob.
     thenE (assertE ''da_size % sizeof(pvm_object) == 0'' (o_da_size ob mod sizeof_pvm_object = 0))
    (bindE (root R_null_object) (\<lambda>null.
     store_da os (DA_slots (replicate (o_da_size ob div sizeof_pvm_object) null)))))"

definition pvm_internal_init_interface :: "addr \<Rightarrow> unit vm" where
  "pvm_internal_init_interface os = store_da os DA_zero"

text \<open>\<open>create\<close> is the recursive \<^verbatim>\<open>pvm_create_object\<close>.\<close>

definition pvm_internal_init_class :: "(pvm_object \<Rightarrow> pvm_object vm) \<Rightarrow> addr \<Rightarrow> unit vm" where
  "pvm_internal_init_class create os = bindE (load_da as_class os) (\<lambda>da.
     bindE (root R_null_class) (\<lambda>nullc. bindE (root R_null_object) (\<lambda>null.
     thenE (store_da os (DA_class (da\<lparr>cl_object_data_area_size := 0, cl_object_flags := 0,
        cl_object_default_interface := nullc, cl_sys_table_id := no_sys_table,
        cl_class_name := null, cl_class_parent := nullc\<rparr>)))
    (bindE (root R_array_class) (\<lambda>ac. bindE (create ac) (\<lambda>arr.
     bindE (load_da as_class os) (\<lambda>da.
     store_da os (DA_class (da\<lparr>cl_static_vars := arr\<rparr>)))))))))"

definition pvm_internal_init_thread :: "addr \<Rightarrow> unit vm" where
  "pvm_internal_init_thread os = bindE pvm_create_call_frame_object (\<lambda>cf.
     bindE (load_da as_thread os) (\<lambda>da.
     thenE (store_da os (DA_thread (da\<lparr>th_call_frame := cf, th_stack_depth := 1,
        th_owner := (th_owner da)\<lparr>ob_data := 0\<rparr>, th_environment := (th_environment da)\<lparr>ob_data := 0\<rparr>,
        th_code := 0, th_IP := 0, th_IP_max := 0\<rparr>)))
    (pvm_exec_load_fast_acc os)))"

definition pvm_internal_init_code :: "addr \<Rightarrow> unit vm" where
  "pvm_internal_init_code os = bindE (load_da as_code os) (\<lambda>(n, bs). store_da os (DA_code 0 bs))"

definition pvm_internal_init_array :: "addr \<Rightarrow> unit vm" where
  "pvm_internal_init_array os = bindE (load_da as_array os) (\<lambda>da.
     store_da os (DA_array (da\<lparr>arr_used_slots := 0, arr_page_size := 16,
       arr_page := (arr_page da)\<lparr>ob_data := 0\<rparr>\<rparr>)))"

text \<open>Mutex, condition variable and semaphore only get their list of waiting threads.\<close>

definition init_waiting_list :: "(pvm_object \<Rightarrow> pvm_object vm) \<Rightarrow> addr \<Rightarrow> unit vm" where
  "init_waiting_list create os = bindE (root R_array_class) (\<lambda>ac. bindE (create ac) (\<lambda>arr.
     bindE (load_da as_lock os) (\<lambda>da. store_da os (DA_lock (da\<lparr>lk_waiting_threads_array := arr\<rparr>)))))"

definition pvm_internal_init_mutex :: "(pvm_object \<Rightarrow> pvm_object vm) \<Rightarrow> addr \<Rightarrow> unit vm" where
  "pvm_internal_init_mutex create os = init_waiting_list create os"

definition pvm_internal_init_cond :: "(pvm_object \<Rightarrow> pvm_object vm) \<Rightarrow> addr \<Rightarrow> unit vm" where
  "pvm_internal_init_cond create os = init_waiting_list create os"

definition pvm_internal_init_sema :: "(pvm_object \<Rightarrow> pvm_object vm) \<Rightarrow> addr \<Rightarrow> unit vm" where
  "pvm_internal_init_sema create os = init_waiting_list create os"

definition pvm_internal_init_closure :: "addr \<Rightarrow> unit vm" where
  "pvm_internal_init_closure os = bindE (load_da as_closure os) (\<lambda>(r, m).
     store_da os (DA_closure (r\<lparr>ob_data := 0\<rparr>) m))"

definition pvm_internal_init_directory :: "addr \<Rightarrow> unit vm" where
  "pvm_internal_init_directory os = bindE (load_da as_directory os) (\<lambda>da.
     thenE (store_da os (DA_directory (da\<lparr>dir_elSize := 256, dir_capacity := 16, dir_nEntries := 0\<rparr>)))
    (bindE (pvm_create_binary_object (256 * 16) None) (\<lambda>bin.
     bindE (load_da as_directory os) (\<lambda>da.
     store_da os (DA_directory (da\<lparr>dir_container := bin\<rparr>))))))"

text \<open>
  The \<^verbatim>\<open>init\<close> column of the class table. The functions for void, int, long, boot, binary,
  bitmap and world objects are empty; that of a connection sets fields of the kernel's side only.
\<close>

definition pvm_internal_init ::
    "(iclass \<Rightarrow> addr \<Rightarrow> unit vm) \<Rightarrow> (pvm_object \<Rightarrow> pvm_object vm) \<Rightarrow> iclass \<Rightarrow> addr \<Rightarrow> unit vm" where
  "pvm_internal_init ui_init create cn os = (case cn of
       C_class \<Rightarrow> pvm_internal_init_class create os
     | C_interface \<Rightarrow> pvm_internal_init_interface os
     | C_code \<Rightarrow> pvm_internal_init_code os
     | C_string \<Rightarrow> pvm_internal_init_string os
     | C_array \<Rightarrow> pvm_internal_init_array os
     | C_page \<Rightarrow> pvm_internal_init_page os
     | C_thread \<Rightarrow> pvm_internal_init_thread os
     | C_call_frame \<Rightarrow> pvm_internal_init_call_frame os
     | C_istack \<Rightarrow> pvm_internal_init_istack os
     | C_ostack \<Rightarrow> pvm_internal_init_ostack os
     | C_estack \<Rightarrow> pvm_internal_init_estack os
     | C_mutex \<Rightarrow> pvm_internal_init_mutex create os
     | C_cond \<Rightarrow> pvm_internal_init_cond create os
     | C_sema \<Rightarrow> pvm_internal_init_sema create os
     | C_closure \<Rightarrow> pvm_internal_init_closure os
     | C_directory \<Rightarrow> pvm_internal_init_directory os
     | C_window \<Rightarrow> ui_init C_window os
     | C_tty \<Rightarrow> ui_init C_tty os
     | _ \<Rightarrow> ret ())"

definition pvm_create_object_step ::
    "(iclass \<Rightarrow> addr \<Rightarrow> unit vm) \<Rightarrow> (pvm_object \<Rightarrow> pvm_object vm) \<Rightarrow> pvm_object \<Rightarrow> pvm_object vm" where
  "pvm_create_object_step ui_init create typ =
     bindE (pvm_object_create_fixed typ) (\<lambda>r.
     bindE (load_da as_class (ob_data typ)) (\<lambda>cda.
     if has_flag (cl_object_flags cda) IS_INTERNAL
     then bindE (pvm_iclass_by_class (ob_data typ)) (\<lambda>rec. bindE (gets sizeof_da) (\<lambda>szof.
            thenE (pvm_internal_init ui_init create (ic_fns (pvm_internal_classes szof ! rec)) (ob_data r))
           (ret r)))
     else ret r))"

text \<open>
  An initialisation creates at most one object with \<^verbatim>\<open>pvm_create_object\<close>, an array. Three
  levels are enough: the initialisation of an array creates nothing.
\<close>

primrec pvm_create_object_n :: "nat \<Rightarrow> (iclass \<Rightarrow> addr \<Rightarrow> unit vm) \<Rightarrow> pvm_object \<Rightarrow> pvm_object vm" where
  "pvm_create_object_n 0 ui_init typ = raise Diverges"
| "pvm_create_object_n (Suc n) ui_init typ =
     pvm_create_object_step ui_init (pvm_create_object_n n ui_init) typ"

definition pvm_create_object :: "(iclass \<Rightarrow> addr \<Rightarrow> unit vm) \<Rightarrow> pvm_object \<Rightarrow> pvm_object vm" where
  "pvm_create_object ui_init typ = pvm_create_object_n 3 ui_init typ"

definition pvm_create_directory_object :: "pvm_object vm" where
  "pvm_create_directory_object = bindE (root R_directory_class) (\<lambda>c. pvm_object_create_fixed c)"

definition pvm_create_connection_object :: "pvm_object vm" where
  "pvm_create_connection_object = bindE (root R_connection_class) (\<lambda>c. pvm_object_create_fixed c)"

section \<open>Threads\<close>

definition pvm_create_thread_object :: "pvm_object \<Rightarrow> pvm_object vm" where
  "pvm_create_thread_object start_cf = bindE (root R_thread_class) (\<lambda>tc.
     bindE (pvm_object_create_fixed tc) (\<lambda>r.
     bindE (load_da as_thread (ob_data r)) (\<lambda>da.
     thenE (store_da (ob_data r) (DA_thread (da\<lparr>th_call_frame := start_cf, th_stack_depth := 1\<rparr>)))
    (thenE (pvm_exec_load_fast_acc (ob_data r))
    (bindE (root R_threads_list) (\<lambda>tl.
     thenE (pvm_append_array (ob_data tl) r)
    (thenE (ref_inc_o r) (ret r))))))))"

definition pvm_release_thread_object :: "pvm_object \<Rightarrow> unit vm" where
  "pvm_release_thread_object thread = bindE (root R_threads_list) (\<lambda>tl.
     thenE (pvm_pop_array (ob_data tl) thread) (ref_dec_o thread))"

section \<open>Reflection\<close>

definition pvm_get_class :: "pvm_object \<Rightarrow> pvm_object vm" where
  "pvm_get_class r = bindE (gets (\<lambda>s. pvm_is_null s r)) (\<lambda>isnull.
     if isnull then ret r else bindE (load (ob_data r)) (\<lambda>ob. ret (o_class ob)))"

definition pvm_get_method_name :: "pvm_object \<Rightarrow> nat \<Rightarrow> pvm_object vm" where
  "pvm_get_method_name tclass method_ordinal = bindE (load_da as_class (ob_data tclass)) (\<lambda>cda.
     bindE (gets (\<lambda>s. pvm_is_null s (cl_method_names cda))) (\<lambda>isnull.
     if isnull then pvm_create_null_object else pvm_get_ofield (cl_method_names cda) method_ordinal))"

definition pvm_get_method_name_count :: "pvm_object \<Rightarrow> nat vm" where
  "pvm_get_method_name_count tclass = bindE (load_da as_class (ob_data tclass)) (\<lambda>cda.
     bindE (gets (\<lambda>s. pvm_is_null s (cl_method_names cda))) (\<lambda>isnull.
     if isnull then ret 0 else get_array_size (ob_data (cl_method_names cda))))"

primrec ordinal_loop :: "pvm_object \<Rightarrow> pvm_object \<Rightarrow> nat list \<Rightarrow> int vm" where
  "ordinal_loop mnames mname [] = ret (-1)"
| "ordinal_loop mnames mname (i # is) = bindE (pvm_get_ofield mnames i) (\<lambda>curr_mname.
     bindE (pvm_strcmp curr_mname mname) (\<lambda>diff.
       if diff = 0 then ret (int i) else ordinal_loop mnames mname is))"

definition pvm_get_method_ordinal :: "pvm_object \<Rightarrow> pvm_object \<Rightarrow> int vm" where
  "pvm_get_method_ordinal tclass mname = bindE (load_da as_class (ob_data tclass)) (\<lambda>cda.
     let mnames = cl_method_names cda in
     bindE (gets (\<lambda>s. pvm_is_null s mnames \<or> pvm_is_null s mname)) (\<lambda>isnull.
     if isnull then ret (-1)
     else bindE (root R_string_class) (\<lambda>sc. bindE (pvm_object_class_is mname sc) (\<lambda>isstr.
       if \<not> isstr then ret (-1)
       else bindE (get_array_size (ob_data mnames)) (\<lambda>nitems.
         ordinal_loop mnames mname [0..<nitems])))))"

definition pvm_get_field_name :: "pvm_object \<Rightarrow> nat \<Rightarrow> pvm_object vm" where
  "pvm_get_field_name tclass ordinal = bindE (load_da as_class (ob_data tclass)) (\<lambda>cda.
     bindE (gets (\<lambda>s. pvm_is_null s (cl_field_names cda))) (\<lambda>isnull.
     if isnull then pvm_create_null_object else pvm_get_ofield (cl_field_names cda) ordinal))"

definition pvm_get_field_name_count :: "pvm_object \<Rightarrow> nat vm" where
  "pvm_get_field_name_count tclass = bindE (load_da as_class (ob_data tclass)) (\<lambda>cda.
     bindE (gets (\<lambda>s. pvm_is_null s (cl_field_names cda))) (\<lambda>isnull.
     if isnull then ret 0 else get_array_size (ob_data (cl_field_names cda))))"

end
