(* ===== verification/Exec_Stacks.thy ===== *)
theory Exec_Stacks
  imports Object_Create
begin

text \<open>
  The paged stacks of the bytecode interpreter (\<^verbatim>\<open>phantom/vm/stacks.c\<close>): the object,
  integer and exception stack of a call frame. A stack is a doubly linked chain of page
  objects; the root page knows the current one. The C macros are written once for every
  kind of stack, and so are the definitions here: a \<open>stack_kind\<close> carries what the macros
  are parameterised by. The theory \<open>Stack_Refine\<close> shows that a chain implements a list: push appends, pop takes
  the last element, absolute access indexes from the bottom, and an empty stack panics.
\<close>

section \<open>Model\<close>

record 'a stack_kind =
  sk_view :: "data_area \<Rightarrow> 'a stack_page option"
  sk_mk :: "'a stack_page \<Rightarrow> data_area"
  sk_make :: "pvm_object vm"

definition istack_kind :: "i32 stack_kind" where
  "istack_kind = \<lparr>sk_view = as_istack, sk_mk = DA_istack, sk_make = pvm_create_istack_object\<rparr>"

definition ostack_kind :: "pvm_object stack_kind" where
  "ostack_kind = \<lparr>sk_view = as_ostack, sk_mk = DA_ostack, sk_make = pvm_create_ostack_object\<rparr>"

definition estack_kind :: "pvm_exception_handler stack_kind" where
  "estack_kind = \<lparr>sk_view = as_estack, sk_mk = DA_estack, sk_make = pvm_create_estack_object\<rparr>"

definition page_at :: "'a stack_kind \<Rightarrow> addr \<Rightarrow> 'a stack_page vm" where
  "page_at k p = load_da (sk_view k) p"

definition set_page :: "'a stack_kind \<Rightarrow> addr \<Rightarrow> ('a stack_page \<Rightarrow> 'a stack_page) \<Rightarrow> unit vm" where
  "set_page k p f = bindE (page_at k p) (\<lambda>pg. store_da p (sk_mk k (f pg)))"

text \<open>The page macros.\<close>

definition page_is_empty :: "'a stack_page \<Rightarrow> bool" where
  "page_is_empty pg \<longleftrightarrow> sp_free_cell_ptr pg = 0"

definition page_is_full :: "'a stack_page \<Rightarrow> bool" where
  "page_is_full pg \<longleftrightarrow> sp_free_cell_ptr pg \<ge> sp_sSize pg"

definition page_push :: "'a stack_kind \<Rightarrow> addr \<Rightarrow> 'a \<Rightarrow> unit vm" where
  "page_push k s v = bindE (page_at k s) (\<lambda>pg.
     if sp_free_cell_ptr pg < length (sp_stack pg)
     then set_page k s (\<lambda>pg. pg\<lparr>sp_stack := (sp_stack pg)[sp_free_cell_ptr pg := v],
            sp_free_cell_ptr := sp_free_cell_ptr pg + 1\<rparr>)
     else raise Out_of_bounds)"

definition page_top :: "'a stack_kind \<Rightarrow> addr \<Rightarrow> 'a vm" where
  "page_top k s = bindE (page_at k s) (\<lambda>pg.
     if 0 < sp_free_cell_ptr pg \<and> sp_free_cell_ptr pg \<le> length (sp_stack pg)
     then ret (sp_stack pg ! (sp_free_cell_ptr pg - 1)) else raise Out_of_bounds)"

definition page_pop :: "'a stack_kind \<Rightarrow> addr \<Rightarrow> 'a vm" where
  "page_pop k s = bindE (page_top k s) (\<lambda>v.
     thenE (set_page k s (\<lambda>pg. pg\<lparr>sp_free_cell_ptr := sp_free_cell_ptr pg - 1\<rparr>)) (ret v))"

definition is_null_ref :: "pvm_object \<Rightarrow> bool vm" where
  "is_null_ref r = gets (\<lambda>s. pvm_is_null s r)"

definition set_me :: "'a stack_kind \<Rightarrow> addr \<Rightarrow> pvm_object \<Rightarrow> addr vm" where
  "set_me k rootda to =
     thenE (set_page k rootda (\<lambda>pg. pg\<lparr>sp_curr := to, sp_curr_da := ob_data to\<rparr>))
           (ret (ob_data to))"

definition check_underflow :: "'a stack_kind \<Rightarrow> addr \<Rightarrow> addr \<Rightarrow> addr vm" where
  "check_underflow k rootda s = bindE (page_at k s) (\<lambda>pg.
     if page_is_empty pg
     then bindE (is_null_ref (sp_prev pg)) (\<lambda>no_prev.
            if no_prev then raise (Exec_panic ''stack underflow'')
            else set_me k rootda (sp_prev pg))
     else ret s)"

definition set_next_prev :: "'a stack_kind \<Rightarrow> addr \<Rightarrow> pvm_object \<Rightarrow> unit vm" where
  "set_next_prev k rootda nxt = bindE (page_at k rootda) (\<lambda>r.
     set_page k (ob_data nxt) (\<lambda>pg. pg\<lparr>sp_prev := sp_curr r, sp_root := sp_root r\<rparr>))"

definition check_overflow :: "'a stack_kind \<Rightarrow> addr \<Rightarrow> addr \<Rightarrow> addr vm" where
  "check_overflow k rootda s = bindE (page_at k s) (\<lambda>pg.
     if page_is_full pg
     then bindE (is_null_ref (sp_next pg)) (\<lambda>no_next.
            thenE (whenE no_next (bindE (sk_make k) (\<lambda>nxt.
                     thenE (set_page k s (\<lambda>pg. pg\<lparr>sp_next := nxt\<rparr>))
                           (set_next_prev k rootda nxt))))
           (bindE (page_at k s) (\<lambda>pg. set_me k rootda (sp_next pg))))
     else ret s)"

text \<open>The current page of the stack whose root page is \<open>rootda\<close>.\<close>

definition curr_da :: "'a stack_kind \<Rightarrow> addr \<Rightarrow> addr vm" where
  "curr_da k rootda = bindE (page_at k rootda) (\<lambda>pg. ret (sp_curr_da pg))"

definition stack_push :: "'a stack_kind \<Rightarrow> addr \<Rightarrow> 'a \<Rightarrow> unit vm" where
  "stack_push k rootda v = bindE (curr_da k rootda) (\<lambda>s0.
     bindE (check_overflow k rootda s0) (\<lambda>s. page_push k s v))"

definition stack_pop :: "'a stack_kind \<Rightarrow> addr \<Rightarrow> 'a vm" where
  "stack_pop k rootda = bindE (curr_da k rootda) (\<lambda>s0.
     bindE (check_underflow k rootda s0) (\<lambda>s. page_pop k s))"

definition stack_top :: "'a stack_kind \<Rightarrow> addr \<Rightarrow> 'a vm" where
  "stack_top k rootda = bindE (curr_da k rootda) (\<lambda>s0.
     bindE (check_underflow k rootda s0) (\<lambda>s. page_top k s))"

definition stack_empty :: "'a stack_kind \<Rightarrow> addr \<Rightarrow> bool vm" where
  "stack_empty k rootda = bindE (curr_da k rootda) (\<lambda>s.
     bindE (page_at k s) (\<lambda>pg. bindE (is_null_ref (sp_prev pg)) (\<lambda>no_prev.
       ret (page_is_empty pg \<and> no_prev))))"

text \<open>
  The loop of the absolute accesses. Each round needs \<open>pagesize \<le> abs_pos\<close>, so more rounds
  than the position itself are never made as long as pages are not empty. The comparison
  is made on unsigned numbers.
\<close>

primrec abs_walk :: "'a stack_kind \<Rightarrow> string \<Rightarrow> nat \<Rightarrow> nat \<Rightarrow> pvm_object \<Rightarrow> nat \<Rightarrow>
    (pvm_object \<times> nat) vm" where
  "abs_walk k msg 0 pagesize c abs_pos = raise Diverges"
| "abs_walk k msg (Suc n) pagesize c abs_pos =
     (if abs_pos \<ge> pagesize
      then bindE (page_at k (ob_data c)) (\<lambda>pg. bindE (is_null_ref (sp_next pg)) (\<lambda>isnull.
             if isnull then raise (Exec_panic msg)
             else abs_walk k msg n pagesize (sp_next pg) (abs_pos - pagesize)))
      else ret (c, abs_pos))"

definition abs_cell :: "'a stack_kind \<Rightarrow> string \<Rightarrow> addr \<Rightarrow> nat \<Rightarrow> (pvm_object \<times> nat) vm" where
  "abs_cell k msg rootda abs_pos = bindE (page_at k rootda) (\<lambda>r.
     abs_walk k msg (Suc abs_pos) (sp_sSize r) (sp_root r) abs_pos)"

definition get_cell :: "'a stack_kind \<Rightarrow> pvm_object \<Rightarrow> nat \<Rightarrow> 'a vm" where
  "get_cell k c i = bindE (page_at k (ob_data c)) (\<lambda>pg.
     if i < length (sp_stack pg) then ret (sp_stack pg ! i) else raise Out_of_bounds)"

definition set_cell :: "'a stack_kind \<Rightarrow> pvm_object \<Rightarrow> nat \<Rightarrow> 'a \<Rightarrow> unit vm" where
  "set_cell k c i v = bindE (page_at k (ob_data c)) (\<lambda>pg.
     if i < length (sp_stack pg)
     then set_page k (ob_data c) (\<lambda>pg. pg\<lparr>sp_stack := (sp_stack pg)[i := v]\<rparr>)
     else raise Out_of_bounds)"

definition stack_abs_get :: "'a stack_kind \<Rightarrow> string \<Rightarrow> addr \<Rightarrow> nat \<Rightarrow> 'a vm" where
  "stack_abs_get k msg rootda abs_pos = bindE (abs_cell k msg rootda abs_pos) (\<lambda>(c, i). get_cell k c i)"

subsection \<open>The object stack\<close>

definition pvm_ostack_push :: "addr \<Rightarrow> pvm_object \<Rightarrow> unit vm" where
  "pvm_ostack_push rootda v = bindE (curr_da ostack_kind rootda) (\<lambda>s0.
     bindE (check_overflow ostack_kind rootda s0) (\<lambda>s.
     bindE (page_at ostack_kind s) (\<lambda>pg.
       if page_is_full pg then raise (Panic ''opush page full after mkpage'')
       else page_push ostack_kind s v)))"

definition pvm_ostack_pop :: "addr \<Rightarrow> pvm_object vm" where
  "pvm_ostack_pop rootda = bindE (curr_da ostack_kind rootda) (\<lambda>s0.
     bindE (check_underflow ostack_kind rootda s0) (\<lambda>s.
     bindE (page_at ostack_kind s) (\<lambda>pg.
       if page_is_empty pg then raise (Panic ''opop page empty'') else page_pop ostack_kind s)))"

definition pvm_ostack_top :: "addr \<Rightarrow> pvm_object vm" where
  "pvm_ostack_top rootda = bindE (curr_da ostack_kind rootda) (\<lambda>s0.
     bindE (check_underflow ostack_kind rootda s0) (\<lambda>s.
     bindE (page_at ostack_kind s) (\<lambda>pg.
       if page_is_empty pg then raise (Panic ''otop page empty'') else page_top ostack_kind s)))"

definition pvm_ostack_empty :: "addr \<Rightarrow> bool vm" where
  "pvm_ostack_empty rootda = stack_empty ostack_kind rootda"

definition pvm_ostack_abs_set :: "addr \<Rightarrow> nat \<Rightarrow> pvm_object \<Rightarrow> unit vm" where
  "pvm_ostack_abs_set rootda abs_pos v =
     bindE (abs_cell ostack_kind ''o abs_set: out of stack'' rootda abs_pos) (\<lambda>(c, i).
     bindE (get_cell ostack_kind c i) (\<lambda>old.
     thenE (whenE (ob_data old \<noteq> 0) (ref_dec_o old))
           (set_cell ostack_kind c i v)))"

definition pvm_ostack_abs_get :: "addr \<Rightarrow> nat \<Rightarrow> pvm_object vm" where
  "pvm_ostack_abs_get rootda abs_pos =
     stack_abs_get ostack_kind ''o abs_get: out of stack'' rootda abs_pos"

text \<open>The loop of the relative access, which walks towards older pages.\<close>

primrec pull_walk :: "nat \<Rightarrow> nat \<Rightarrow> pvm_object \<Rightarrow> int \<Rightarrow> (pvm_object \<times> nat) vm" where
  "pull_walk 0 pagesize c displ = raise Diverges"
| "pull_walk (Suc n) pagesize c displ =
     (if displ < 0
      then bindE (page_at ostack_kind (ob_data c)) (\<lambda>pg. bindE (is_null_ref (sp_prev pg)) (\<lambda>isnull.
             if isnull then raise (Exec_panic ''stack pull: underflow'')
             else pull_walk n pagesize (sp_prev pg) (displ + int pagesize)))
      else ret (c, nat displ))"

definition pvm_ostack_pull :: "addr \<Rightarrow> int \<Rightarrow> pvm_object vm" where
  "pvm_ostack_pull rootda depth =
     (if depth < 0 then raise (Exec_panic ''stack pull: overflow'')
      else bindE (curr_da ostack_kind rootda) (\<lambda>s.
        bindE (page_at ostack_kind s) (\<lambda>pg.
        bindE (pull_walk (nat depth + 2) (sp_sSize pg) (sp_curr pg)
                 (int (sp_free_cell_ptr pg) - depth - 1)) (\<lambda>(c, i).
          get_cell ostack_kind c i))))"

subsection \<open>The integer stack\<close>

definition pvm_istack_push :: "addr \<Rightarrow> i32 \<Rightarrow> unit vm" where
  "pvm_istack_push rootda v = stack_push istack_kind rootda v"

definition pvm_istack_pop :: "addr \<Rightarrow> i32 vm" where
  "pvm_istack_pop rootda = stack_pop istack_kind rootda"

definition pvm_istack_top :: "addr \<Rightarrow> i32 vm" where
  "pvm_istack_top rootda = stack_top istack_kind rootda"

definition pvm_istack_empty :: "addr \<Rightarrow> bool vm" where
  "pvm_istack_empty rootda = stack_empty istack_kind rootda"

definition pvm_istack_abs_set :: "addr \<Rightarrow> nat \<Rightarrow> i32 \<Rightarrow> unit vm" where
  "pvm_istack_abs_set rootda abs_pos v =
     bindE (abs_cell istack_kind ''i abs_set: out of stack'' rootda abs_pos) (\<lambda>(c, i).
       set_cell istack_kind c i v)"

definition pvm_istack_abs_get :: "addr \<Rightarrow> nat \<Rightarrow> i32 vm" where
  "pvm_istack_abs_get rootda abs_pos =
     stack_abs_get istack_kind ''i abs_get: out of stack'' rootda abs_pos"

subsection \<open>Long access to the integer stack\<close>

text \<open>
  The long macros look at the cell array as an array of 64-bit numbers and index it with
  the same counter: cell \<open>i\<close> occupies the integer cells \<open>2 * i\<close> (low half) and
  \<open>2 * i + 1\<close>.
\<close>

definition lpage_is_empty :: "'a stack_page \<Rightarrow> bool" where
  "lpage_is_empty pg \<longleftrightarrow> sp_free_cell_ptr pg < 2"

definition lpage_is_full :: "'a stack_page \<Rightarrow> bool" where
  "lpage_is_full pg \<longleftrightarrow> sp_free_cell_ptr pg \<ge> u32_sub (sp_sSize pg) 1"

definition lcheck_underflow :: "addr \<Rightarrow> addr \<Rightarrow> addr vm" where
  "lcheck_underflow rootda s = bindE (page_at istack_kind s) (\<lambda>pg.
     if lpage_is_empty pg
     then bindE (is_null_ref (sp_prev pg)) (\<lambda>no_prev.
            if no_prev then raise (Exec_panic ''stack underflow'')
            else set_me istack_kind rootda (sp_prev pg))
     else ret s)"

definition lcheck_overflow :: "addr \<Rightarrow> addr \<Rightarrow> addr vm" where
  "lcheck_overflow rootda s = bindE (page_at istack_kind s) (\<lambda>pg.
     if lpage_is_full pg
     then bindE (is_null_ref (sp_next pg)) (\<lambda>no_next.
            thenE (whenE no_next (bindE (sk_make istack_kind) (\<lambda>nxt.
                     thenE (set_page istack_kind s (\<lambda>pg. pg\<lparr>sp_next := nxt\<rparr>))
                           (set_next_prev istack_kind rootda nxt))))
           (bindE (page_at istack_kind s) (\<lambda>pg. set_me istack_kind rootda (sp_next pg))))
     else ret s)"

definition lpage_push :: "addr \<Rightarrow> i64 \<Rightarrow> unit vm" where
  "lpage_push s v = bindE (page_at istack_kind s) (\<lambda>pg.
     let i = 2 * sp_free_cell_ptr pg in
     if i + 1 < length (sp_stack pg)
     then set_page istack_kind s (\<lambda>pg. pg\<lparr>
            sp_stack := (sp_stack pg)[i := ucast v, i + 1 := ucast (drop_bit 32 v)],
            sp_free_cell_ptr := sp_free_cell_ptr pg + 1\<rparr>)
     else raise Out_of_bounds)"

definition lpage_top :: "addr \<Rightarrow> i64 vm" where
  "lpage_top s = bindE (page_at istack_kind s) (\<lambda>pg.
     let i = 2 * (sp_free_cell_ptr pg - 1) in
     if 0 < sp_free_cell_ptr pg \<and> i + 1 < length (sp_stack pg)
     then ret (ucast (sp_stack pg ! i) OR push_bit 32 (ucast (sp_stack pg ! (i + 1))))
     else raise Out_of_bounds)"

definition lpage_pop :: "addr \<Rightarrow> i64 vm" where
  "lpage_pop s = bindE (lpage_top s) (\<lambda>v.
     thenE (set_page istack_kind s (\<lambda>pg. pg\<lparr>sp_free_cell_ptr := sp_free_cell_ptr pg - 1\<rparr>))
           (ret v))"

definition pvm_lstack_push :: "addr \<Rightarrow> i64 \<Rightarrow> unit vm" where
  "pvm_lstack_push rootda v = bindE (curr_da istack_kind rootda) (\<lambda>s0.
     bindE (lcheck_overflow rootda s0) (\<lambda>s. lpage_push s v))"

definition pvm_lstack_pop :: "addr \<Rightarrow> i64 vm" where
  "pvm_lstack_pop rootda = bindE (curr_da istack_kind rootda) (\<lambda>s0.
     bindE (lcheck_underflow rootda s0) (\<lambda>s. lpage_pop s))"

text \<open>The top is returned as an \<^verbatim>\<open>int\<close>.\<close>

definition pvm_lstack_top :: "addr \<Rightarrow> i32 vm" where
  "pvm_lstack_top rootda = bindE (curr_da istack_kind rootda) (\<lambda>s0.
     bindE (lcheck_underflow rootda s0) (\<lambda>s.
     bindE (lpage_top s) (\<lambda>v. ret (ucast v))))"

subsection \<open>The exception stack\<close>

definition pvm_estack_push :: "addr \<Rightarrow> pvm_exception_handler \<Rightarrow> unit vm" where
  "pvm_estack_push rootda e = stack_push estack_kind rootda e"

definition pvm_estack_pop :: "addr \<Rightarrow> pvm_exception_handler vm" where
  "pvm_estack_pop rootda = stack_pop estack_kind rootda"

definition pvm_estack_top :: "addr \<Rightarrow> pvm_exception_handler vm" where
  "pvm_estack_top rootda = stack_top estack_kind rootda"

definition pvm_estack_empty :: "addr \<Rightarrow> bool vm" where
  "pvm_estack_empty rootda = stack_empty estack_kind rootda"

text \<open>
  The search through the handlers, newest first; the C callback returns a truth value and
  leaves its result in a variable, here it returns that result as an option.
\<close>

primrec e_cells_foreach ::
    "(pvm_exception_handler \<Rightarrow> 'b option vm) \<Rightarrow> pvm_exception_handler list \<Rightarrow> 'b option vm" where
  "e_cells_foreach func [] = ret None"
| "e_cells_foreach func (e # es) = bindE (func e) (\<lambda>r.
     if r \<noteq> None then ret r else e_cells_foreach func es)"

definition e_page_foreach ::
    "pvm_exception_handler stack_page \<Rightarrow> (pvm_exception_handler \<Rightarrow> 'b option vm) \<Rightarrow> 'b option vm" where
  "e_page_foreach s func =
     (if sp_free_cell_ptr s \<le> length (sp_stack s)
      then e_cells_foreach func (rev (take (sp_free_cell_ptr s) (sp_stack s)))
      else raise Out_of_bounds)"

primrec estack_pages_foreach ::
    "nat \<Rightarrow> pvm_object \<Rightarrow> (pvm_exception_handler \<Rightarrow> 'b option vm) \<Rightarrow> 'b option vm" where
  "estack_pages_foreach 0 c func = raise Diverges"
| "estack_pages_foreach (Suc n) c func = bindE (is_null_ref c) (\<lambda>isnull.
     if isnull then ret None
     else bindE (page_at estack_kind (ob_data c)) (\<lambda>pg.
       bindE (e_page_foreach pg func) (\<lambda>r.
         if r \<noteq> None then ret r
         else bindE (page_at estack_kind (ob_data c)) (\<lambda>pg.
           estack_pages_foreach n (sp_prev pg) func))))"

definition pvm_estack_foreach ::
    "addr \<Rightarrow> (pvm_exception_handler \<Rightarrow> 'b option vm) \<Rightarrow> 'b option vm" where
  "pvm_estack_foreach rootda func = bindE (curr_da estack_kind rootda) (\<lambda>s.
     bindE (page_at estack_kind s) (\<lambda>pg. bindE (gets ref_dec_fuel) (\<lambda>fuel.
       estack_pages_foreach fuel (sp_curr pg) func)))"

end
