(* ===== verification/Stack_Refine.thy ===== *)
theory Stack_Refine
  imports Exec_Stacks Sample_Heap
begin

text \<open>
  The paged stacks implement lists. The first part is about chains of pages as such: the
  links, the current page and the fill levels (\<open>chain_ok\<close>), and the list of used cells.
  The locale \<open>paged_stack\<close> states what the stack operations rely on (a page can be written
  and read back, a new page is fresh and empty) and proves their list behaviour once; it
  is interpreted for the integer, object and exception stacks.
\<close>

section \<open>Chains of pages\<close>

definition null_addr :: "addr \<Rightarrow> addr \<Rightarrow> bool" where
  "null_addr nul a \<longleftrightarrow> a = 0 \<or> a = nul"

definition page_linked :: "nat \<Rightarrow> addr \<Rightarrow> addr list \<Rightarrow> nat \<Rightarrow> nat \<Rightarrow> 'a stack_page \<Rightarrow> bool" where
  "page_linked N nul ps c i pg \<longleftrightarrow>
     sp_sSize pg = N \<and> length (sp_stack pg) = N \<and> ob_data (sp_root pg) = ps ! 0 \<and>
     (if Suc i < length ps then ob_data (sp_next pg) = ps ! Suc i
      else null_addr nul (ob_data (sp_next pg))) \<and>
     (if i = 0 then null_addr nul (ob_data (sp_prev pg)) else ob_data (sp_prev pg) = ps ! (i - 1)) \<and>
     ob_data (sp_curr pg) = (if i = 0 then ps ! c else ps ! i) \<and>
     (i = 0 \<longrightarrow> sp_curr_da pg = ps ! c) \<and>
     sp_free_cell_ptr pg \<le> N \<and> (i < c \<longrightarrow> sp_free_cell_ptr pg = N) \<and>
     (c < i \<longrightarrow> sp_free_cell_ptr pg = 0)"

definition chain_ok :: "nat \<Rightarrow> addr \<Rightarrow> addr list \<Rightarrow> 'a stack_page list \<Rightarrow> nat \<Rightarrow> bool" where
  "chain_ok N nul ps pgs c \<longleftrightarrow> distinct ps \<and> length pgs = length ps \<and> c < length ps \<and>
     (\<forall>p \<in> set ps. \<not> null_addr nul p) \<and> (\<forall>i < length ps. page_linked N nul ps c i (pgs ! i))"

definition used_cells :: "'a stack_page \<Rightarrow> 'a list" where
  "used_cells pg = take (sp_free_cell_ptr pg) (sp_stack pg)"

definition stack_cells :: "'a stack_page list \<Rightarrow> 'a list" where
  "stack_cells pgs = concat (map used_cells pgs)"

lemma chain_okD:
  assumes "chain_ok N nul ps pgs c"
  shows "distinct ps" "length pgs = length ps" "c < length ps"
    "i < length ps \<Longrightarrow> \<not> null_addr nul (ps ! i)"
    "i < length ps \<Longrightarrow> page_linked N nul ps c i (pgs ! i)"
  using assms by (auto simp: chain_ok_def)

lemma length_used_cells: "page_linked N nul ps c i pg \<Longrightarrow> length (used_cells pg) = sp_free_cell_ptr pg"
  by (auto simp: used_cells_def page_linked_def)

text \<open>A page whose links stay and whose fill level stays admissible.\<close>

lemma chain_update:
  assumes ch: "chain_ok N nul ps pgs c" and i: "i < length ps"
    and pg: "page_linked N nul ps c i pg"
  shows "chain_ok N nul ps (pgs[i := pg]) c"
  using assms by (auto simp: chain_ok_def nth_list_update)

lemma stack_cells_prefix:
  assumes ch: "chain_ok N nul ps pgs c" and j: "j \<le> c"
  shows "length (stack_cells (take j pgs)) = j * N"
  using j
proof (induction j)
  case (Suc m)
  then have m: "m < length pgs" "m < c" using chain_okD(2,3) [OF ch] by auto
  with chain_okD(5) [OF ch, of m] chain_okD(2) [OF ch] have "length (used_cells (pgs ! m)) = N"
    by (auto simp: page_linked_def used_cells_def)
  with Suc m show ?case by (simp add: take_Suc_conv_app_nth stack_cells_def)
qed (simp add: stack_cells_def)

lemma stack_cells_split:
  assumes ch: "chain_ok N nul ps pgs c"
  shows "stack_cells pgs = stack_cells (take c pgs) @ used_cells (pgs ! c)"
    "length (stack_cells (take c pgs)) = c * N"
proof -
  note D = chain_okD [OF ch]
  have "used_cells pg = []" if "pg \<in> set (drop (Suc c) pgs)" for pg
  proof -
    from that obtain j where "j < length pgs - Suc c" "pg = pgs ! (Suc c + j)"
      by (auto simp: in_set_conv_nth)
    with D(5) [of "Suc c + j"] D(2) show ?thesis by (auto simp: page_linked_def used_cells_def)
  qed
  then have "stack_cells (drop (Suc c) pgs) = []" by (auto simp: stack_cells_def)
  moreover have "pgs = take c pgs @ pgs ! c # drop (Suc c) pgs" using D(2,3) by (simp add: id_take_nth_drop)
  ultimately show "stack_cells pgs = stack_cells (take c pgs) @ used_cells (pgs ! c)"
    by (metis (no_types, lifting) append_Nil2 concat.simps(2) concat_append list.simps(9) map_append
        stack_cells_def)
  show "length (stack_cells (take c pgs)) = c * N" by (rule stack_cells_prefix [OF ch order_refl])
qed

lemma stack_cells_update:
  assumes ch: "chain_ok N nul ps pgs c" and ch': "chain_ok N nul ps (pgs[c := pg]) c"
  shows "stack_cells (pgs[c := pg]) = stack_cells (take c pgs) @ used_cells pg"
  using stack_cells_split(1) [OF ch'] chain_okD(2,3) [OF ch] by simp

lemma map_update_same: "i < length xs \<Longrightarrow> f y = f (xs ! i) \<Longrightarrow> map f (xs[i := y]) = map f xs"
  by (simp add: map_update list_update_same_conv)

lemma last_take: "0 < n \<Longrightarrow> n \<le> length xs \<Longrightarrow> last (take n xs) = xs ! (n - 1)"
  by (subst last_conv_nth) (auto simp: min_def)

lemma zero_less: "c < n \<Longrightarrow> 0 < n" for n :: nat
  by simp

text \<open>The root page is told the new current page, a neighbour of the old one.\<close>

lemma chain_move:
  assumes ch: "chain_ok N nul ps pgs c" and to: "ob_data to = ps ! c'" "c' < length ps"
    and move: "c' = Suc c \<and> sp_free_cell_ptr (pgs ! c) = N \<or>
      c = Suc c' \<and> sp_free_cell_ptr (pgs ! c) = 0"
  shows "chain_ok N nul ps (pgs[0 := (pgs ! 0)\<lparr>sp_curr := to, sp_curr_da := ob_data to\<rparr>]) c'"
    "stack_cells (pgs[0 := (pgs ! 0)\<lparr>sp_curr := to, sp_curr_da := ob_data to\<rparr>]) = stack_cells pgs"
proof -
  note D = chain_okD [OF ch]
  have "page_linked N nul ps c' i (pgs[0 := (pgs ! 0)\<lparr>sp_curr := to, sp_curr_da := ob_data to\<rparr>] ! i)"
    if i: "i < length ps" for i
  proof (cases "i = 0")
    case True
    with D(5) [OF i] D(2) i move to show ?thesis by (auto simp: page_linked_def)
  next
    case False
    then have "pgs[0 := (pgs ! 0)\<lparr>sp_curr := to, sp_curr_da := ob_data to\<rparr>] ! i = pgs ! i" by simp
    moreover have "i < c' \<Longrightarrow> i < c \<or> i = c \<and> sp_free_cell_ptr (pgs ! c) = N"
      "c' < i \<Longrightarrow> c < i \<or> i = c \<and> sp_free_cell_ptr (pgs ! c) = 0" using move by auto
    ultimately show ?thesis using D(5) [OF i] False by (auto simp: page_linked_def)
  qed
  then show "chain_ok N nul ps (pgs[0 := (pgs ! 0)\<lparr>sp_curr := to, sp_curr_da := ob_data to\<rparr>]) c'"
    using ch to by (auto simp: chain_ok_def)
  have "map used_cells (pgs[0 := (pgs ! 0)\<lparr>sp_curr := to, sp_curr_da := ob_data to\<rparr>]) = map used_cells pgs"
    using D(2,3) by (intro map_update_same) (auto simp: used_cells_def)
  then show "stack_cells (pgs[0 := (pgs ! 0)\<lparr>sp_curr := to, sp_curr_da := ob_data to\<rparr>]) = stack_cells pgs"
    by (simp add: stack_cells_def)
qed

text \<open>A new page is hooked to the last one.\<close>

lemma chain_append:
  assumes ch: "chain_ok N nul ps pgs c" and last: "Suc c = length ps"
    and new: "ob_data r \<notin> set ps" "\<not> null_addr nul (ob_data r)" and z: "null_addr nul 0"
    and rt: "rt = sp_root (pgs ! 0)" and prev: "prev = sp_curr (pgs[c := (pgs ! c)\<lparr>sp_next := r\<rparr>] ! 0)"
  shows "chain_ok N nul (ps @ [ob_data r]) (pgs[c := (pgs ! c)\<lparr>sp_next := r\<rparr>] @
      [(stack_page_init r N zero)\<lparr>sp_prev := prev, sp_root := rt\<rparr>]) c"
    "stack_cells (pgs[c := (pgs ! c)\<lparr>sp_next := r\<rparr>] @
      [(stack_page_init r N zero)\<lparr>sp_prev := prev, sp_root := rt\<rparr>]) = stack_cells pgs"
proof -
  note D = chain_okD [OF ch]
  let ?new = "(stack_page_init r N zero)\<lparr>sp_prev := prev, sp_root := rt\<rparr>"
  let ?pgs = "pgs[c := (pgs ! c)\<lparr>sp_next := r\<rparr>] @ [?new]"
  have p0: "ob_data prev = ps ! c" "ob_data rt = ps ! 0"
    using D(5) [OF zero_less [OF D(3)]] D(2,3) prev rt
    by (cases "c = 0"; simp add: page_linked_def)+
  have "page_linked N nul (ps @ [ob_data r]) c i (?pgs ! i)" if i: "i < Suc (length ps)" for i
  proof (cases "i = length ps")
    case True
    then show ?thesis using p0 D(2,3) z
      by (auto simp: page_linked_def stack_page_init_def nth_append null_ref_def simp flip: last)
  next
    case False
    with i have i': "i < length ps" by simp
    with D(5) [OF i'] D(2,3) last show ?thesis
      by (cases "i = c") (auto simp: page_linked_def nth_append nth_list_update split: if_splits)
  qed
  then show "chain_ok N nul (ps @ [ob_data r]) ?pgs c"
    using ch new by (auto simp: chain_ok_def)
  have "map used_cells (pgs[c := (pgs ! c)\<lparr>sp_next := r\<rparr>]) = map used_cells pgs"
    using D(2,3) by (intro map_update_same) (auto simp: used_cells_def)
  then show "stack_cells ?pgs = stack_cells pgs"
    by (simp add: stack_cells_def used_cells_def stack_page_init_def)
qed

section \<open>Chains in memory\<close>

definition pages_at :: "'a stack_kind \<Rightarrow> vm_state \<Rightarrow> addr list \<Rightarrow> 'a stack_page list \<Rightarrow> bool" where
  "pages_at k s ps pgs \<longleftrightarrow> length pgs = length ps \<and> (\<forall>i < length ps. \<exists>ob. heap s (ps ! i) = Some ob \<and>
     ob_live ob \<and> sk_view k (o_da ob) = Some (pgs ! i))"

text \<open>The pages at \<open>ps\<close> hold the list \<open>xs\<close>, its newest element last.\<close>

definition stack_rep :: "'a stack_kind \<Rightarrow> nat \<Rightarrow> vm_state \<Rightarrow> addr list \<Rightarrow> 'a list \<Rightarrow> bool" where
  "stack_rep k N s ps xs \<longleftrightarrow> (\<exists>pgs c. pages_at k s ps pgs \<and> chain_ok N (null_of s) ps pgs c \<and>
     xs = stack_cells pgs)"

text \<open>One object is rewritten, or objects outside \<open>A\<close> keep what they were and new ones may appear.\<close>

definition wrote :: "vm_state \<Rightarrow> vm_state \<Rightarrow> addr \<Rightarrow> bool" where
  "wrote s s' p \<longleftrightarrow> s' = s\<lparr>heap := heap s'\<rparr> \<and> live s' = live s \<and> (\<forall>q. q \<noteq> p \<longrightarrow> heap s' q = heap s q)"

definition keeps :: "vm_state \<Rightarrow> vm_state \<Rightarrow> addr set \<Rightarrow> bool" where
  "keeps s s' A \<longleftrightarrow> s' = s\<lparr>heap := heap s', curr_a := curr_a s'\<rparr> \<and> live s \<subseteq> live s' \<and>
     (\<forall>q \<in> live s - A. heap s' q = heap s q)"

lemma keeps_refl [simp]: "keeps s s A"
  by (simp add: keeps_def)

lemma keeps_trans:
  assumes 1: "keeps s t A" and 2: "keeps t u B" and AB: "B \<inter> live s \<subseteq> A"
  shows "keeps s u A"
proof -
  have "t = s\<lparr>heap := heap t, curr_a := curr_a t\<rparr>" "u = t\<lparr>heap := heap u, curr_a := curr_a u\<rparr>"
    using 1 2 by (auto simp: keeps_def)
  then have "u = s\<lparr>heap := heap u, curr_a := curr_a u\<rparr>" by (cases s; cases t; cases u) simp
  moreover have "heap u q = heap s q" if q: "q \<in> live s - A" for q
  proof -
    from q 1 AB have "heap t q = heap s q" "q \<in> live t - B" by (auto simp: keeps_def)
    with 2 show ?thesis by (auto simp: keeps_def)
  qed
  ultimately show ?thesis using 1 2 by (auto simp: keeps_def)
qed

lemma wrote_keeps: "wrote s s' p \<Longrightarrow> p \<in> A \<Longrightarrow> keeps s s' A"
  unfolding wrote_def keeps_def by (cases s; cases s') auto

lemma created_keeps: "created s s' r cls n fl d \<Longrightarrow> keeps s s' A"
  unfolding keeps_def using createdD [of s s' r cls n fl d] by blast

lemma wrote_trans: "wrote s t p \<Longrightarrow> wrote t u p \<Longrightarrow> wrote s u p"
  unfolding wrote_def by (cases s; cases t; cases u) simp

lemma keeps_root: "keeps s s' A \<Longrightarrow> pvm_root s' = pvm_root s" "keeps s s' A \<Longrightarrow> sizeof_da s' = sizeof_da s"
  unfolding keeps_def by (cases s; cases s'; simp)+

lemma keeps_null: "keeps s s' A \<Longrightarrow> null_of s' = null_of s"
  by (simp add: null_of_def keeps_root)

lemma wrote_null: "wrote s s' p \<Longrightarrow> null_of s' = null_of s"
  using keeps_null [OF wrote_keeps [of s s' p "{p}"]] by simp

lemma pvm_is_null_addr: "pvm_is_null s r = null_addr (null_of s) (ob_data r)"
  by (simp add: pvm_is_null_def null_addr_def null_of_def)

lemma pages_at_live: "pages_at k s ps pgs \<Longrightarrow> set ps \<subseteq> live s"
  by (fastforce simp: pages_at_def in_set_conv_nth live_def)

lemma stack_rep_live: "stack_rep k N s ps xs \<Longrightarrow> set ps \<subseteq> live s"
  unfolding stack_rep_def using pages_at_live by blast

text \<open>Nothing that happens outside its pages concerns a stack.\<close>

lemma pages_at_keeps:
  assumes "pages_at k s ps pgs" "keeps s s' A" "set ps \<inter> A = {}"
  shows "pages_at k s' ps pgs"
proof -
  have "heap s' (ps ! i) = heap s (ps ! i)" if "i < length ps" for i
  proof -
    have "ps ! i \<in> live s - A" using pages_at_live [OF assms(1)] assms(3) nth_mem [OF that] by auto
    with assms(2) show ?thesis by (auto simp: keeps_def)
  qed
  with assms(1) show ?thesis by (simp add: pages_at_def)
qed

lemma stack_rep_keeps:
  "stack_rep k N s ps xs \<Longrightarrow> keeps s s' A \<Longrightarrow> set ps \<inter> A = {} \<Longrightarrow> stack_rep k N s' ps xs"
  unfolding stack_rep_def using pages_at_keeps keeps_null by metis

section \<open>The stack operations on lists\<close>

locale paged_stack =
  fixes k :: "'a stack_kind" and N :: nat and env :: "vm_state \<Rightarrow> bool"
  assumes N_pos: "0 < N"
    and view_mk: "sk_view k (sk_mk k pg) = Some pg"
    and env_write: "env s \<Longrightarrow> heap s p = Some ob \<Longrightarrow> sk_view k (o_da ob) = Some pg \<Longrightarrow>
      env (put_ob p (ob\<lparr>o_da := sk_mk k pg'\<rparr>) s)"
    and env_null: "env s \<Longrightarrow> null_of s \<in> live s"
    and make_page: "env s \<Longrightarrow> yields (sk_make k) s (\<lambda>r s'. env s' \<and>
      (\<exists>cls n fl z. created s s' r cls n fl (sk_mk k (stack_page_init r N z))))"
begin

lemma page_at_eval: "pages_at k s ps pgs \<Longrightarrow> i < length ps \<Longrightarrow> page_at k (ps ! i) s = Inr (pgs ! i, s)"
  by (auto simp: pages_at_def page_at_def dest!: spec [of _ i] intro: load_da_Some)

lemma set_page_eval:
  assumes pa: "pages_at k s ps pgs" and d: "distinct ps" and i: "i < length ps" and e: "env s"
  shows "\<exists>s'. set_page k (ps ! i) f s = Inr ((), s') \<and> pages_at k s' ps (pgs[i := f (pgs ! i)]) \<and>
    env s' \<and> wrote s s' (ps ! i)"
proof -
  from pa i obtain ob where ob: "heap s (ps ! i) = Some ob" "ob_live ob"
    "sk_view k (o_da ob) = Some (pgs ! i)" by (auto simp: pages_at_def)
  let ?ob = "ob\<lparr>o_da := sk_mk k (f (pgs ! i))\<rparr>"
  let ?s = "put_ob (ps ! i) ?ob s"
  have "set_page k (ps ! i) f s = Inr ((), ?s)"
    by (simp add: set_page_def bindE_apply page_at_eval [OF pa i] store_da_Some [OF ob(1)])
  moreover have "pages_at k ?s ps (pgs[i := f (pgs ! i)])"
    using pa i d ob(2) unfolding pages_at_def
    by (auto simp: nth_list_update nth_eq_iff_index_eq view_mk ob_live_def)
  moreover have "env ?s" by (rule env_write [OF e ob(1,3)])
  moreover have "wrote s ?s (ps ! i)"
    using ob by (auto simp: wrote_def put_ob_def live_def ob_live_def)
  ultimately show ?thesis by blast
qed

lemma set_me_eval:
  assumes pa: "pages_at k s ps pgs" and ch: "chain_ok N (null_of s) ps pgs c" and e: "env s"
    and to: "ob_data to = ps ! c'" "c' < length ps"
    and move: "c' = Suc c \<and> sp_free_cell_ptr (pgs ! c) = N \<or>
      c = Suc c' \<and> sp_free_cell_ptr (pgs ! c) = 0"
  shows "\<exists>s' pgs'. set_me k (ps ! 0) to s = Inr (ps ! c', s') \<and> pages_at k s' ps pgs' \<and>
    chain_ok N (null_of s') ps pgs' c' \<and> stack_cells pgs' = stack_cells pgs \<and> env s' \<and>
    wrote s s' (ps ! 0) \<and> sp_free_cell_ptr (pgs' ! c') = sp_free_cell_ptr (pgs ! c')"
proof -
  let ?f = "\<lambda>pg. pg\<lparr>sp_curr := to, sp_curr_da := ob_data to\<rparr>"
  have z: "0 < length ps" by (rule zero_less [OF to(2)])
  from set_page_eval [OF pa chain_okD(1) [OF ch] z e, of ?f] obtain s' where
    s': "set_page k (ps ! 0) ?f s = Inr ((), s')" "pages_at k s' ps (pgs[0 := ?f (pgs ! 0)])"
      "env s'" "wrote s s' (ps ! 0)" by blast
  have "set_me k (ps ! 0) to s = Inr (ps ! c', s')"
    using s'(1) to(1) by (simp add: set_me_def thenE_apply)
  moreover have "sp_free_cell_ptr (pgs[0 := ?f (pgs ! 0)] ! c') = sp_free_cell_ptr (pgs ! c')"
    using chain_okD(2) [OF ch] z by (cases "c' = 0") auto
  ultimately show ?thesis
    using s' chain_move [OF ch to move] wrote_null [OF s'(4)] by metis
qed

lemma curr_da_eval:
  assumes "pages_at k s ps pgs" "chain_ok N (null_of s) ps pgs c"
  shows "curr_da k (ps ! 0) s = Inr (ps ! c, s)"
  using page_at_eval [OF assms(1) zero_less [OF chain_okD(3) [OF assms(2)]]]
    chain_okD(5) [OF assms(2) zero_less [OF chain_okD(3) [OF assms(2)]]]
  by (simp add: curr_da_def bindE_apply page_linked_def)

lemma is_null_eval: "is_null_ref r s = Inr (null_addr (null_of s) (ob_data r), s)"
  by (simp add: is_null_ref_def pvm_is_null_addr)

text \<open>The state in which a cell of the current page is free.\<close>

definition room :: "vm_state \<Rightarrow> vm_state \<Rightarrow> addr list \<Rightarrow> 'a list \<Rightarrow> addr \<Rightarrow> bool" where
  "room s s' ps xs p \<longleftrightarrow> (\<exists>qs pgs c. p = (ps @ qs) ! c \<and> pages_at k s' (ps @ qs) pgs \<and>
     chain_ok N (null_of s') (ps @ qs) pgs c \<and> stack_cells pgs = xs \<and>
     sp_free_cell_ptr (pgs ! c) < N \<and> env s' \<and> keeps s s' (set ps) \<and> set qs \<inter> live s = {})"

lemma go_next:
  assumes pa: "pages_at k t ps' pgs" and ch: "chain_ok N (null_of t) ps' pgs c" and e: "env t"
    and full: "sp_free_cell_ptr (pgs ! c) = N" and c: "Suc c < length ps'"
    and ps': "ps' = ps @ qs" "ps \<noteq> []" and kp: "keeps s t (set ps)" "set qs \<inter> live s = {}"
  shows "\<exists>p s'. bindE (page_at k (ps' ! c)) (\<lambda>pg. set_me k (ps' ! 0) (sp_next pg)) t = Inr (p, s') \<and>
    room s s' ps (stack_cells pgs) p"
proof -
  note D = chain_okD [OF ch]
  have nx: "ob_data (sp_next (pgs ! c)) = ps' ! Suc c" "sp_free_cell_ptr (pgs ! Suc c) = 0"
    using D(5) [OF D(3)] D(5) [OF c] c by (auto simp: page_linked_def)
  have mv: "Suc c = Suc c \<and> sp_free_cell_ptr (pgs ! c) = N \<or>
      c = Suc (Suc c) \<and> sp_free_cell_ptr (pgs ! c) = 0" using full by simp
  from set_me_eval [OF pa ch e nx(1) c mv] obtain s' pgs' where
    s': "set_me k (ps' ! 0) (sp_next (pgs ! c)) t = Inr (ps' ! Suc c, s')" "pages_at k s' ps' pgs'"
      "chain_ok N (null_of s') ps' pgs' (Suc c)" "stack_cells pgs' = stack_cells pgs" "env s'"
      "wrote t s' (ps' ! 0)" "sp_free_cell_ptr (pgs' ! Suc c) = 0" using nx(2) by metis
  have "ps' ! 0 \<in> set ps" using ps' by (cases ps) auto
  then have "keeps s s' (set ps)" using keeps_trans [OF kp(1) wrote_keeps [OF s'(6)]] by blast
  then have "room s s' ps (stack_cells pgs) (ps' ! Suc c)"
    unfolding room_def using s' N_pos ps'(1) kp(2)
    by (intro exI [of _ qs] exI [of _ pgs'] exI [of _ "Suc c"]) simp
  with s'(1) show ?thesis by (simp add: bindE_apply page_at_eval [OF pa D(3)])
qed

text \<open>A page is made and hooked in.\<close>

lemma add_page:
  assumes pa: "pages_at k s ps pgs" and ch: "chain_ok N (null_of s) ps pgs c"
    and last: "Suc c = length ps" and cr: "created s s1 r cls n fl (sk_mk k (stack_page_init r N z))"
    and e: "env s" "env s1"
  shows "\<exists>t pgs'. thenE (set_page k (ps ! c) (\<lambda>pg. pg\<lparr>sp_next := r\<rparr>)) (set_next_prev k (ps ! 0) r) s1 =
      Inr ((), t) \<and> pages_at k t (ps @ [ob_data r]) pgs' \<and>
      chain_ok N (null_of t) (ps @ [ob_data r]) pgs' c \<and> stack_cells pgs' = stack_cells pgs \<and>
      sp_free_cell_ptr (pgs' ! c) = sp_free_cell_ptr (pgs ! c) \<and> env t \<and> keeps s t (set ps)"
proof -
  note D = chain_okD [OF ch] and C = createdD [OF cr]
  let ?ps = "ps @ [ob_data r]" and ?new = "stack_page_init r N z"
  have r: "ob_data r \<notin> set ps" "\<not> null_addr (null_of s) (ob_data r)"
    using C(2,3) pages_at_live [OF pa] env_null [OF e(1)] by (auto simp: null_addr_def)
  have d: "distinct ?ps" using D(1) r by simp
  have z: "0 < length ?ps" "0 < length ps" "c < length ?ps" using D(3) by auto
  have "pages_at k s1 ps pgs" by (rule pages_at_keeps [OF pa created_keeps [OF cr, of "{}"]]) simp
  moreover from C(7) obtain ob where "heap s1 (ob_data r) = Some ob" "ob_live ob"
    "o_da ob = sk_mk k ?new" by blast
  ultimately have p1: "pages_at k s1 ?ps (pgs @ [?new])"
    by (auto simp: pages_at_def nth_append view_mk less_Suc_eq)
  let ?f = "\<lambda>pg. pg\<lparr>sp_next := r\<rparr>"
  let ?pgs1 = "pgs[c := ?f (pgs ! c)]"
  have upd: "(pgs @ [?new])[c := ?f ((pgs @ [?new]) ! c)] = ?pgs1 @ [?new]"
    using D(2,3) by (simp add: nth_append list_update_append)
  from set_page_eval [OF p1 d z(3) e(2), of ?f] obtain s2 where
    s2: "set_page k (?ps ! c) ?f s1 = Inr ((), s2)" "pages_at k s2 ?ps (?pgs1 @ [?new])" "env s2"
      "wrote s1 s2 (?ps ! c)" unfolding upd by blast
  let ?rt = "?pgs1 ! 0"
  let ?g = "\<lambda>pg. pg\<lparr>sp_prev := sp_curr ?rt, sp_root := sp_root ?rt\<rparr>"
  have upd2: "(?pgs1 @ [?new])[length ps := ?g ((?pgs1 @ [?new]) ! length ps)] = ?pgs1 @ [?g ?new]"
    using D(2) by (simp add: list_update_append nth_append)
  have "length ps < length ?ps" by simp
  from set_page_eval [OF s2(2) d this s2(3), of ?g] obtain t where
    t: "set_page k (ob_data r) ?g s2 = Inr ((), t)" "pages_at k t ?ps (?pgs1 @ [?g ?new])" "env t"
      "wrote s2 t (ob_data r)" unfolding upd2 by auto
  have "page_at k (?ps ! 0) s2 = Inr (?rt, s2)"
    using page_at_eval [OF s2(2) z(1)] z(2) D(2) by (simp add: nth_append)
  with s2(1) t(1) have "thenE (set_page k (ps ! c) ?f) (set_next_prev k (ps ! 0) r) s1 = Inr ((), t)"
    using D(3) z(2) by (simp add: nth_append thenE_apply set_next_prev_def bindE_apply)
  moreover have "sp_root ?rt = sp_root (pgs ! 0)" using D(2,3) by (cases "c = 0") auto
  then have "chain_ok N (null_of s) ?ps (?pgs1 @ [?g ?new]) c" "stack_cells (?pgs1 @ [?g ?new]) = stack_cells pgs"
    using chain_append [OF ch last r _ _ refl, where zero = z] by (simp_all add: null_addr_def)
  moreover have "null_of t = null_of s"
    using wrote_null [OF t(4)] wrote_null [OF s2(4)] keeps_null [OF created_keeps [OF cr]] by simp
  moreover have "keeps s t (set ps)"
  proof -
    have "keeps s s2 (set ps)"
      by (rule keeps_trans [OF created_keeps [OF cr] wrote_keeps [OF s2(4), of "set ps"]])
        (use D(3) in \<open>auto simp: nth_append\<close>)
    then show ?thesis by (rule keeps_trans [OF _ wrote_keeps [OF t(4), of "{ob_data r}"]]) (use C(3) in auto)
  qed
  moreover have "sp_free_cell_ptr ((?pgs1 @ [?g ?new]) ! c) = sp_free_cell_ptr (pgs ! c)"
    using D(2,3) by (simp add: nth_append)
  ultimately show ?thesis using t(2,3) by metis
qed

lemma check_overflow_room:
  assumes pa: "pages_at k s ps pgs" and ch: "chain_ok N (null_of s) ps pgs c" and e: "env s"
  shows "yields (check_overflow k (ps ! 0) (ps ! c)) s (\<lambda>p s'. room s s' ps (stack_cells pgs) p)"
proof -
  note D = chain_okD [OF ch]
  note pg = page_at_eval [OF pa D(3)]
  have ne: "ps \<noteq> []" using D(3) by auto
  have sz: "sp_sSize (pgs ! c) = N" "sp_free_cell_ptr (pgs ! c) \<le> N"
    using D(5) [OF D(3)] by (auto simp: page_linked_def)
  consider (free) "sp_free_cell_ptr (pgs ! c) < N"
    | (nxt) "sp_free_cell_ptr (pgs ! c) = N" "Suc c < length ps"
    | (new) "sp_free_cell_ptr (pgs ! c) = N" "Suc c = length ps"
    using sz(2) D(3) by linarith
  then show ?thesis
  proof cases
    case free
    then have "room s s ps (stack_cells pgs) (ps ! c)"
      unfolding room_def using pa ch e by (intro exI [of _ "[]"] exI [of _ pgs] exI [of _ c]) simp
    with free sz pg show ?thesis
      by (simp add: yields_def check_overflow_def page_is_full_def bindE_apply)
  next
    case nxt
    have "\<not> null_addr (null_of s) (ob_data (sp_next (pgs ! c)))"
      using D(4) [OF nxt(2)] D(5) [OF D(3)] nxt(2) by (simp add: page_linked_def)
    with nxt sz pg go_next [OF pa ch e nxt _ ne, of "[]" s] show ?thesis
      by (auto simp: yields_def check_overflow_def page_is_full_def is_null_eval comp_simps)
  next
    case new
    have null: "null_addr (null_of s) (ob_data (sp_next (pgs ! c)))"
      using D(5) [OF D(3)] new(2) by (simp add: page_linked_def)
    let ?mk = "bindE (sk_make k) (\<lambda>nxt. thenE (set_page k (ps ! c) (\<lambda>pg. pg\<lparr>sp_next := nxt\<rparr>))
        (set_next_prev k (ps ! 0) nxt))"
    let ?go = "bindE (page_at k (ps ! c)) (\<lambda>pg. set_me k (ps ! 0) (sp_next pg))"
    have "yields ?mk s (\<lambda>_ t. \<exists>a pgs'. pages_at k t (ps @ [a]) pgs' \<and>
        chain_ok N (null_of t) (ps @ [a]) pgs' c \<and> stack_cells pgs' = stack_cells pgs \<and>
        sp_free_cell_ptr (pgs' ! c) = N \<and> env t \<and> keeps s t (set ps) \<and> a \<notin> live s)"
    proof (rule yields_bind [OF make_page [OF e]], elim conjE exE)
      fix r s1 cls n fl z assume e1: "env s1" and cr: "created s s1 r cls n fl (sk_mk k (stack_page_init r N z))"
      from add_page [OF pa ch new(2) cr e e1] obtain t pgs' where
        t: "thenE (set_page k (ps ! c) (\<lambda>pg. pg\<lparr>sp_next := r\<rparr>)) (set_next_prev k (ps ! 0) r) s1 = Inr ((), t)"
          "pages_at k t (ps @ [ob_data r]) pgs' \<and> chain_ok N (null_of t) (ps @ [ob_data r]) pgs' c \<and>
           stack_cells pgs' = stack_cells pgs \<and> sp_free_cell_ptr (pgs' ! c) = N \<and> env t \<and>
           keeps s t (set ps)" unfolding new(1) by blast
      show "yields (thenE (set_page k (ps ! c) (\<lambda>pg. pg\<lparr>sp_next := r\<rparr>)) (set_next_prev k (ps ! 0) r)) s1
        (\<lambda>_ t. \<exists>a pgs'. pages_at k t (ps @ [a]) pgs' \<and>
        chain_ok N (null_of t) (ps @ [a]) pgs' c \<and> stack_cells pgs' = stack_cells pgs \<and>
        sp_free_cell_ptr (pgs' ! c) = N \<and> env t \<and> keeps s t (set ps) \<and> a \<notin> live s)"
        unfolding yields_def t(1) using t(2) createdD(3) [OF cr] by blast
    qed
    then have "yields (thenE ?mk ?go) s (\<lambda>p s'. room s s' ps (stack_cells pgs) p)"
    proof (rule yields_then, elim exE conjE)
      fix t a pgs'
      assume t: "pages_at k t (ps @ [a]) pgs'" "chain_ok N (null_of t) (ps @ [a]) pgs' c"
        "stack_cells pgs' = stack_cells pgs" "sp_free_cell_ptr (pgs' ! c) = N" "env t"
        "keeps s t (set ps)" and a: "a \<notin> live s"
      have "set [a] \<inter> live s = {}" "Suc c < length (ps @ [a])" using a new(2) by auto
      from go_next [OF t(1,2,5,4) this(2) refl ne t(6) this(1)] t(3) D(3) ne
      show "yields ?go t (\<lambda>p s'. room s s' ps (stack_cells pgs) p)"
        by (auto simp: yields_def nth_append)
    qed
    with new sz pg null show ?thesis
      by (simp add: check_overflow_def page_is_full_def yields_def bindE_apply is_null_eval whenE_def)
  qed
qed

lemma page_push_room:
  assumes "room s s1 ps xs p"
  shows "\<exists>s'. page_push k p v s1 = Inr ((), s') \<and> env s' \<and> keeps s s' (set ps) \<and>
    (\<exists>qs. stack_rep k N s' (ps @ qs) (xs @ [v]) \<and> set qs \<inter> live s = {})"
proof -
  from assms obtain qs pgs c where r: "p = (ps @ qs) ! c" "pages_at k s1 (ps @ qs) pgs"
    "chain_ok N (null_of s1) (ps @ qs) pgs c" "stack_cells pgs = xs" "sp_free_cell_ptr (pgs ! c) < N"
    "env s1" "keeps s s1 (set ps)" "set qs \<inter> live s = {}" unfolding room_def by blast
  note D = chain_okD [OF r(3)]
  let ?f = "\<lambda>pg. pg\<lparr>sp_stack := (sp_stack pg)[sp_free_cell_ptr pg := v],
    sp_free_cell_ptr := sp_free_cell_ptr pg + 1\<rparr>"
  let ?pg = "?f (pgs ! c)"
  have l: "length (sp_stack (pgs ! c)) = N" using D(5) [OF D(3)] by (simp add: page_linked_def)
  from set_page_eval [OF r(2) D(1,3) r(6), of ?f] obtain s' where
    s': "set_page k p ?f s1 = Inr ((), s')" "pages_at k s' (ps @ qs) (pgs[c := ?pg])" "env s'"
      "wrote s1 s' p" unfolding r(1) by blast
  have ch: "chain_ok N (null_of s1) (ps @ qs) (pgs[c := ?pg]) c"
    by (rule chain_update [OF r(3) D(3)])
      (use D(5) [OF D(3)] r(5) l in \<open>simp add: page_linked_def split: if_splits\<close>)
  have "used_cells ?pg = used_cells (pgs ! c) @ [v]"
    using r(5) l by (simp add: used_cells_def take_Suc_conv_app_nth)
  then have "stack_cells (pgs[c := ?pg]) = xs @ [v]"
    using stack_cells_update [OF r(3) ch] stack_cells_split(1) [OF r(3)] r(4) by simp
  then have "stack_rep k N s' (ps @ qs) (xs @ [v])"
    unfolding stack_rep_def using s'(2) ch wrote_null [OF s'(4)] by metis
  moreover have "keeps s s' (set ps)"
    by (rule keeps_trans [OF r(7) wrote_keeps [OF s'(4), of "set ps \<union> set qs"]])
      (use r(1,8) D(3) in \<open>auto simp: nth_append split: if_splits\<close>)
  moreover have "page_push k p v s1 = Inr ((), s')"
    using s'(1) page_at_eval [OF r(2) D(3)] r(1,5) l by (simp add: page_push_def bindE_apply)
  ultimately show ?thesis using s'(3) r(8) by blast
qed

definition pushed :: "vm_state \<Rightarrow> addr list \<Rightarrow> 'a list \<Rightarrow> vm_state \<Rightarrow> bool" where
  "pushed s ps xs s' \<longleftrightarrow> env s' \<and> keeps s s' (set ps) \<and>
     (\<exists>qs. stack_rep k N s' (ps @ qs) xs \<and> set qs \<inter> live s = {})"

lemma push_list:
  assumes e: "env s" and rep: "stack_rep k N s ps xs"
  shows "yields (stack_push k (ps ! 0) v) s (\<lambda>_ s'. pushed s ps (xs @ [v]) s')"
proof -
  from rep obtain pgs c where r: "pages_at k s ps pgs" "chain_ok N (null_of s) ps pgs c"
    "xs = stack_cells pgs" by (auto simp: stack_rep_def)
  have "yields (bindE (check_overflow k (ps ! 0) (ps ! c)) (\<lambda>p. page_push k p v)) s
      (\<lambda>_ s'. pushed s ps (xs @ [v]) s')"
  proof (rule yields_bind [OF check_overflow_room [OF r(1,2) e]])
    fix p s1 assume "room s s1 ps (stack_cells pgs) p"
    from page_push_room [OF this, of v] show "yields (page_push k p v) s1 (\<lambda>_ s'. pushed s ps (xs @ [v]) s')"
      by (auto simp: yields_def pushed_def r(3))
  qed
  then show ?thesis
    by (simp add: stack_push_def yields_def bindE_apply curr_da_eval [OF r(1,2)])
qed

lemma cells_length:
  assumes "chain_ok N nul ps pgs c"
  shows "length (stack_cells pgs) = c * N + sp_free_cell_ptr (pgs ! c)"
  using stack_cells_split [OF assms] length_used_cells [OF chain_okD(5) [OF assms chain_okD(3) [OF assms]]]
  by simp

text \<open>The state in which the top cell lies on the page at \<open>p\<close>.\<close>

definition topped :: "vm_state \<Rightarrow> vm_state \<Rightarrow> addr list \<Rightarrow> 'a list \<Rightarrow> addr \<Rightarrow> bool" where
  "topped s s' ps xs p \<longleftrightarrow> (\<exists>pgs c. p = ps ! c \<and> pages_at k s' ps pgs \<and> chain_ok N (null_of s') ps pgs c \<and>
     stack_cells pgs = xs \<and> 0 < sp_free_cell_ptr (pgs ! c) \<and> env s' \<and> keeps s s' (set ps) \<and>
     live s' = live s)"

lemma check_underflow_topped:
  assumes pa: "pages_at k s ps pgs" and ch: "chain_ok N (null_of s) ps pgs c" and e: "env s"
    and ne: "stack_cells pgs \<noteq> []"
  shows "\<exists>p s'. check_underflow k (ps ! 0) (ps ! c) s = Inr (p, s') \<and> topped s s' ps (stack_cells pgs) p"
proof (cases "sp_free_cell_ptr (pgs ! c) = 0")
  case False
  then have "topped s s ps (stack_cells pgs) (ps ! c)"
    unfolding topped_def using pa ch e by (intro exI [of _ pgs] exI [of _ c]) simp
  with False page_at_eval [OF pa chain_okD(3) [OF ch]] show ?thesis
    by (simp add: check_underflow_def page_is_empty_def bindE_apply)
next
  case True
  note D = chain_okD [OF ch]
  from True ne cells_length [OF ch] have "c \<noteq> 0" by (cases c) auto
  then obtain c' where c': "c = Suc c'" "c' < length ps" using D(3) by (cases c) auto
  have prev: "ob_data (sp_prev (pgs ! c)) = ps ! c'" "sp_free_cell_ptr (pgs ! c') = N"
    using D(5) [OF D(3)] D(5) [OF c'(2)] c' by (auto simp: page_linked_def)
  have mv: "c' = Suc c \<and> sp_free_cell_ptr (pgs ! c) = N \<or> c = Suc c' \<and> sp_free_cell_ptr (pgs ! c) = 0"
    using True c'(1) by simp
  from set_me_eval [OF pa ch e prev(1) c'(2) mv] obtain s' pgs' where
    s': "set_me k (ps ! 0) (sp_prev (pgs ! c)) s = Inr (ps ! c', s')" "pages_at k s' ps pgs'"
      "chain_ok N (null_of s') ps pgs' c'" "stack_cells pgs' = stack_cells pgs" "env s'"
      "wrote s s' (ps ! 0)" "sp_free_cell_ptr (pgs' ! c') = N" using prev(2) by metis
  have "ps ! 0 \<in> set ps" by (rule nth_mem [OF zero_less [OF D(3)]])
  then have "keeps s s' (set ps)" by (rule wrote_keeps [OF s'(6)])
  then have "topped s s' ps (stack_cells pgs) (ps ! c')"
    unfolding topped_def using s' N_pos by (intro exI [of _ pgs'] exI [of _ c']) (simp add: wrote_def)
  moreover have "\<not> null_addr (null_of s) (ps ! c')" by (rule D(4) [OF c'(2)])
  ultimately show ?thesis
    using s'(1) True prev(1) page_at_eval [OF pa D(3)]
    by (simp add: check_underflow_def page_is_empty_def bindE_apply is_null_eval)
qed

lemma check_underflow_empty:
  assumes pa: "pages_at k s ps pgs" and ch: "chain_ok N (null_of s) ps pgs c"
    and ne: "stack_cells pgs = []"
  shows "check_underflow k (ps ! 0) (ps ! c) s = Inl (Exec_panic ''stack underflow'')"
proof -
  from ne cells_length [OF ch] N_pos have "c = 0" "sp_free_cell_ptr (pgs ! c) = 0" by auto
  with chain_okD(5) [OF ch chain_okD(3) [OF ch]] page_at_eval [OF pa chain_okD(3) [OF ch]] show ?thesis
    by (simp add: check_underflow_def page_is_empty_def bindE_apply is_null_eval page_linked_def)
qed

lemma page_top_topped:
  assumes "topped s s1 ps xs p"
  shows "page_top k p s1 = Inr (last xs, s1)"
proof -
  from assms obtain pgs c where r: "p = ps ! c" "pages_at k s1 ps pgs"
    "chain_ok N (null_of s1) ps pgs c" "stack_cells pgs = xs" "0 < sp_free_cell_ptr (pgs ! c)"
    unfolding topped_def by blast
  note D = chain_okD [OF r(3)]
  have l: "length (sp_stack (pgs ! c)) = N" "sp_free_cell_ptr (pgs ! c) \<le> N"
    using D(5) [OF D(3)] by (simp_all add: page_linked_def)
  then have "used_cells (pgs ! c) \<noteq> []"
    "last (used_cells (pgs ! c)) = sp_stack (pgs ! c) ! (sp_free_cell_ptr (pgs ! c) - 1)"
    using r(5) by (auto simp: used_cells_def last_take)
  then have "last xs = sp_stack (pgs ! c) ! (sp_free_cell_ptr (pgs ! c) - 1)"
    using stack_cells_split(1) [OF r(3)] r(4) by simp
  then show ?thesis
    using page_at_eval [OF r(2) D(3)] r(1,5) l by (simp add: page_top_def bindE_apply)
qed

definition popped :: "vm_state \<Rightarrow> addr list \<Rightarrow> 'a list \<Rightarrow> vm_state \<Rightarrow> bool" where
  "popped s ps xs s' \<longleftrightarrow> env s' \<and> keeps s s' (set ps) \<and> live s' = live s \<and> stack_rep k N s' ps xs"

lemma topped_popped: "topped s s' ps xs p \<Longrightarrow> popped s ps xs s'"
  unfolding topped_def popped_def stack_rep_def by blast

lemma page_pop_topped:
  assumes t: "topped s s1 ps xs p"
  shows "\<exists>s'. page_pop k p s1 = Inr (last xs, s') \<and> popped s ps (butlast xs) s'"
proof -
  from t obtain pgs c where r: "p = ps ! c" "pages_at k s1 ps pgs"
    "chain_ok N (null_of s1) ps pgs c" "stack_cells pgs = xs" "0 < sp_free_cell_ptr (pgs ! c)"
    "env s1" "keeps s s1 (set ps)" "live s1 = live s" unfolding topped_def by blast
  note D = chain_okD [OF r(3)]
  let ?f = "\<lambda>pg. pg\<lparr>sp_free_cell_ptr := sp_free_cell_ptr pg - 1\<rparr>"
  let ?pg = "?f (pgs ! c)"
  from set_page_eval [OF r(2) D(1,3) r(6), of ?f] obtain s' where
    s': "set_page k p ?f s1 = Inr ((), s')" "pages_at k s' ps (pgs[c := ?pg])" "env s'"
      "wrote s1 s' p" unfolding r(1) by blast
  have ch: "chain_ok N (null_of s1) ps (pgs[c := ?pg]) c"
    by (rule chain_update [OF r(3) D(3)])
      (use D(5) [OF D(3)] r(5) in \<open>auto simp add: page_linked_def split: if_splits\<close>)
  have "used_cells ?pg = butlast (used_cells (pgs ! c))" "used_cells (pgs ! c) \<noteq> []"
    using D(5) [OF D(3)] r(5) by (auto simp: used_cells_def butlast_take page_linked_def)
  then have "stack_cells (pgs[c := ?pg]) = butlast xs"
    using stack_cells_update [OF r(3) ch] stack_cells_split(1) [OF r(3)] r(4)
    by (simp add: butlast_append)
  then have "stack_rep k N s' ps (butlast xs)"
    unfolding stack_rep_def using s'(2) ch wrote_null [OF s'(4)] by metis
  moreover have "keeps s s' (set ps)"
    by (rule keeps_trans [OF r(7) wrote_keeps [OF s'(4), of "set ps"]]) (use r(1) D(3) in auto)
  moreover have "page_pop k p s1 = Inr (last xs, s')"
    using s'(1) page_top_topped [OF t] by (simp add: page_pop_def bindE_apply thenE_apply)
  ultimately show ?thesis using s' r(8) by (auto simp: popped_def wrote_def)
qed

lemma pop_list:
  assumes e: "env s" and rep: "stack_rep k N s ps xs" and ne: "xs \<noteq> []"
  shows "\<exists>s'. stack_pop k (ps ! 0) s = Inr (last xs, s') \<and> popped s ps (butlast xs) s'"
    and "\<exists>s'. stack_top k (ps ! 0) s = Inr (last xs, s') \<and> popped s ps xs s'"
proof -
  from rep obtain pgs c where r: "pages_at k s ps pgs" "chain_ok N (null_of s) ps pgs c"
    "xs = stack_cells pgs" by (auto simp: stack_rep_def)
  from check_underflow_topped [OF r(1,2) e] ne r(3) obtain p s1 where
    p: "check_underflow k (ps ! 0) (ps ! c) s = Inr (p, s1)" "topped s s1 ps xs p" by blast
  show "\<exists>s'. stack_pop k (ps ! 0) s = Inr (last xs, s') \<and> popped s ps (butlast xs) s'"
    using page_pop_topped [OF p(2)] p(1) curr_da_eval [OF r(1,2)]
    by (simp add: stack_pop_def bindE_apply)
  show "\<exists>s'. stack_top k (ps ! 0) s = Inr (last xs, s') \<and> popped s ps xs s'"
    using page_top_topped [OF p(2)] topped_popped [OF p(2)] p(1) curr_da_eval [OF r(1,2)]
    by (simp add: stack_top_def bindE_apply)
qed

lemma pop_empty:
  assumes rep: "stack_rep k N s ps []"
  shows "stack_pop k (ps ! 0) s = Inl (Exec_panic ''stack underflow'')"
    "stack_top k (ps ! 0) s = Inl (Exec_panic ''stack underflow'')"
proof -
  from rep obtain pgs c where r: "pages_at k s ps pgs" "chain_ok N (null_of s) ps pgs c"
    "stack_cells pgs = []" by (auto simp: stack_rep_def)
  show "stack_pop k (ps ! 0) s = Inl (Exec_panic ''stack underflow'')"
    "stack_top k (ps ! 0) s = Inl (Exec_panic ''stack underflow'')"
    using check_underflow_empty [OF r] curr_da_eval [OF r(1,2)]
    by (simp_all add: stack_pop_def stack_top_def bindE_apply)
qed

lemma empty_list:
  assumes rep: "stack_rep k N s ps xs"
  shows "stack_empty k (ps ! 0) s = Inr (xs = [], s)"
proof -
  from rep obtain pgs c where r: "pages_at k s ps pgs" "chain_ok N (null_of s) ps pgs c"
    "xs = stack_cells pgs" by (auto simp: stack_rep_def)
  note D = chain_okD [OF r(2)]
  have "null_addr (null_of s) (ob_data (sp_prev (pgs ! c))) \<longleftrightarrow> c = 0"
    using D(5) [OF D(3)] D(3,4) by (cases c) (auto simp: page_linked_def)
  moreover have "xs = [] \<longleftrightarrow> c = 0 \<and> sp_free_cell_ptr (pgs ! c) = 0"
    using cells_length [OF r(2)] N_pos unfolding r(3) by (auto simp flip: length_0_conv)
  ultimately show ?thesis
    using page_at_eval [OF r(1) D(3)] curr_da_eval [OF r(1,2)]
    by (auto simp: stack_empty_def bindE_apply is_null_eval page_is_empty_def)
qed

lemma abs_walk_eval:
  assumes pa: "pages_at k s ps pgs" and ch: "chain_ok N (null_of s) ps pgs c0"
  shows "ob_data c = ps ! j \<Longrightarrow> j < length ps \<Longrightarrow> pos < n \<Longrightarrow>
    (if j + pos div N < length ps
     then \<exists>c'. ob_data c' = ps ! (j + pos div N) \<and> abs_walk k msg n N c pos s = Inr ((c', pos mod N), s)
     else abs_walk k msg n N c pos s = Inl (Exec_panic msg))"
proof (induction n arbitrary: j c pos)
  case (Suc n)
  show ?case
  proof (cases "pos < N")
    case True
    with Suc.prems show ?thesis by auto
  next
    case False
    note pl = chain_okD(5) [OF ch Suc.prems(2)]
    have dv: "pos div N = Suc ((pos - N) div N)" "(pos - N) mod N = pos mod N"
      using False N_pos by (simp_all add: le_div_geq le_mod_geq not_less)
    have pg: "page_at k (ob_data c) s = Inr (pgs ! j, s)"
      using page_at_eval [OF pa Suc.prems(2)] Suc.prems(1) by simp
    show ?thesis
    proof (cases "Suc j < length ps")
      case True
      then have nx: "ob_data (sp_next (pgs ! j)) = ps ! Suc j" using pl by (simp add: page_linked_def)
      have lt: "pos - N < n" using Suc.prems(3) False N_pos by simp
      have "\<not> null_addr (null_of s) (ps ! Suc j)" by (rule chain_okD(4) [OF ch True])
      with nx show ?thesis
        using Suc.IH [OF nx True lt] False pg dv
        by (simp add: bindE_apply is_null_eval cong: if_cong)
    next
      case False': False
      then have "null_addr (null_of s) (ob_data (sp_next (pgs ! j)))" using pl by (simp add: page_linked_def)
      with False False' pg dv show ?thesis by (simp add: bindE_apply is_null_eval)
    qed
  qed
qed simp

lemma abs_cell_eval:
  assumes pa: "pages_at k s ps pgs" and ch: "chain_ok N (null_of s) ps pgs c0"
  shows "if i div N < length ps
     then \<exists>c'. ob_data c' = ps ! (i div N) \<and> abs_cell k msg (ps ! 0) i s = Inr ((c', i mod N), s)
     else abs_cell k msg (ps ! 0) i s = Inl (Exec_panic msg)"
proof -
  have z: "0 < length ps" by (rule zero_less [OF chain_okD(3) [OF ch]])
  have "sp_sSize (pgs ! 0) = N" "ob_data (sp_root (pgs ! 0)) = ps ! 0"
    using chain_okD(5) [OF ch z] by (auto simp: page_linked_def)
  with abs_walk_eval [OF pa ch _ z, of "sp_root (pgs ! 0)" i "Suc i" msg] page_at_eval [OF pa z]
  show ?thesis by (simp add: abs_cell_def bindE_apply cong: if_cong)
qed

text \<open>Element \<open>i\<close> lies in cell \<open>i mod N\<close> of page \<open>i div N\<close>.\<close>

lemma cells_nth:
  assumes ch: "chain_ok N nul ps pgs c" and i: "i < length (stack_cells pgs)"
  shows "i div N < length ps" "i mod N < sp_free_cell_ptr (pgs ! (i div N))"
    "stack_cells pgs ! i = sp_stack (pgs ! (i div N)) ! (i mod N)"
proof -
  note D = chain_okD [OF ch] and S = stack_cells_split [OF ch]
  let ?j = "i div N"
  have il: "i < c * N + sp_free_cell_ptr (pgs ! c)" using i cells_length [OF ch] by simp
  also have "\<dots> \<le> Suc c * N" using D(5) [OF D(3)] by (simp add: page_linked_def)
  finally have jc: "?j \<le> c" using N_pos by (simp add: less_mult_imp_div_less less_Suc_eq_le [symmetric])
  then show j: "?j < length ps" using D(3) by simp
  have ij: "i = ?j * N + i mod N" by simp
  show m: "i mod N < sp_free_cell_ptr (pgs ! ?j)"
  proof (cases "?j = c")
    case True
    with il ij show ?thesis by (metis add_less_cancel_left)
  next
    case False
    with jc D(5) [OF j] N_pos show ?thesis by (simp add: page_linked_def)
  qed
  have len: "length (stack_cells (take ?j pgs)) = ?j * N" by (rule stack_cells_prefix [OF ch jc])
  have "pgs = take ?j pgs @ pgs ! ?j # drop (Suc ?j) pgs" using j D(2) by (simp add: id_take_nth_drop)
  then have "stack_cells pgs = stack_cells (take ?j pgs) @ used_cells (pgs ! ?j) @ stack_cells (drop (Suc ?j) pgs)"
    by (metis concat.simps(2) concat_append list.simps(9) map_append stack_cells_def)
  moreover have "i = length (stack_cells (take ?j pgs)) + i mod N" using ij len by simp
  ultimately have "stack_cells pgs ! i = (used_cells (pgs ! ?j) @ stack_cells (drop (Suc ?j) pgs)) ! (i mod N)"
    by (metis nth_append_length_plus)
  then have "stack_cells pgs ! i = used_cells (pgs ! ?j) ! (i mod N)"
    using m length_used_cells [OF D(5) [OF j]] by (simp add: nth_append)
  with m show "stack_cells pgs ! i = sp_stack (pgs ! ?j) ! (i mod N)" by (simp add: used_cells_def)
qed

lemma abs_get_list:
  assumes rep: "stack_rep k N s ps xs" and i: "i < length xs"
  shows "stack_abs_get k msg (ps ! 0) i s = Inr (xs ! i, s)"
proof -
  from rep obtain pgs c where r: "pages_at k s ps pgs" "chain_ok N (null_of s) ps pgs c"
    "xs = stack_cells pgs" by (auto simp: stack_rep_def)
  note n = cells_nth [OF r(2) i [unfolded r(3)]]
  have "length (sp_stack (pgs ! (i div N))) = N"
    using chain_okD(5) [OF r(2) n(1)] by (simp add: page_linked_def)
  with abs_cell_eval [OF r(1,2), of i msg] n page_at_eval [OF r(1) n(1)] N_pos show ?thesis
    by (auto simp: stack_abs_get_def bindE_apply get_cell_def r(3))
qed

lemma abs_get_out:
  assumes rep: "stack_rep k N s ps xs" and i: "length ps * N \<le> i"
  shows "stack_abs_get k msg (ps ! 0) i s = Inl (Exec_panic msg)"
proof -
  from rep obtain pgs c where r: "pages_at k s ps pgs" "chain_ok N (null_of s) ps pgs c"
    by (auto simp: stack_rep_def)
  have "\<not> i div N < length ps" using i N_pos by (simp add: not_less less_eq_div_iff_mult_less_eq)
  with abs_cell_eval [OF r, of i msg] show ?thesis by (simp add: stack_abs_get_def bindE_apply)
qed

lemma set_cell_list:
  assumes e: "env s" and pa: "pages_at k s ps pgs" and ch: "chain_ok N (null_of s) ps pgs c0"
    and i: "i < length (stack_cells pgs)" and c: "ob_data c = ps ! (i div N)"
  shows "\<exists>s'. set_cell k c (i mod N) v s = Inr ((), s') \<and> popped s ps ((stack_cells pgs)[i := v]) s'"
proof -
  note n = cells_nth [OF ch i] and D = chain_okD [OF ch]
  let ?j = "i div N" and ?r = "i mod N"
  let ?f = "\<lambda>pg. pg\<lparr>sp_stack := (sp_stack pg)[?r := v]\<rparr>"
  let ?pgs = "pgs[?j := ?f (pgs ! ?j)]"
  have l: "length (sp_stack (pgs ! ?j)) = N" using D(5) [OF n(1)] by (simp add: page_linked_def)
  from set_page_eval [OF pa D(1) n(1) e, of ?f] obtain s' where
    s': "set_page k (ps ! ?j) ?f s = Inr ((), s')" "pages_at k s' ps ?pgs" "env s'"
      "wrote s s' (ps ! ?j)" by blast
  have ch': "chain_ok N (null_of s) ps ?pgs c0"
    by (rule chain_update [OF ch n(1)]) (use D(5) [OF n(1)] in \<open>simp add: page_linked_def split: if_splits\<close>)
  have fc: "sp_free_cell_ptr (?pgs ! j) = sp_free_cell_ptr (pgs ! j)" for j
    using n(1) D(2) by (cases "j = ?j") auto
  have len: "length (stack_cells ?pgs) = length (stack_cells pgs)"
    using cells_length [OF ch] cells_length [OF ch'] fc by simp
  have "stack_cells ?pgs ! m = (stack_cells pgs)[i := v] ! m" if m: "m < length (stack_cells ?pgs)" for m
  proof -
    note m1 = cells_nth [OF ch' m] and m2 = cells_nth [OF ch m [unfolded len]]
    have "m = i \<longleftrightarrow> m div N = ?j \<and> m mod N = ?r" by (metis div_mult_mod_eq)
    with m1 m2 n(1) D(2) l m2(2) N_pos i show ?thesis
      by (cases "m div N = ?j"; cases "m mod N = ?r") (auto simp: nth_list_update)
  qed
  then have "stack_cells ?pgs = (stack_cells pgs)[i := v]" by (intro nth_equalityI) (auto simp: len)
  then have "stack_rep k N s' ps ((stack_cells pgs)[i := v])"
    unfolding stack_rep_def using s'(2) ch' wrote_null [OF s'(4)] by metis
  moreover have "keeps s s' (set ps)" by (rule wrote_keeps [OF s'(4)]) (use n(1) in simp)
  moreover have "set_cell k c ?r v s = Inr ((), s')"
    using s'(1) page_at_eval [OF pa n(1)] l N_pos c by (simp add: set_cell_def bindE_apply)
  ultimately show ?thesis using s' by (auto simp: popped_def wrote_def)
qed

lemma abs_set_list:
  assumes e: "env s" and rep: "stack_rep k N s ps xs" and i: "i < length xs"
  shows "\<exists>s'. bindE (abs_cell k msg (ps ! 0) i) (\<lambda>(c, i). set_cell k c i v) s = Inr ((), s') \<and>
    popped s ps (xs[i := v]) s'"
proof -
  from rep obtain pgs c where r: "pages_at k s ps pgs" "chain_ok N (null_of s) ps pgs c"
    "xs = stack_cells pgs" by (auto simp: stack_rep_def)
  from abs_cell_eval [OF r(1,2), of i msg] cells_nth(1) [OF r(2) i [unfolded r(3)]] obtain c' where
    c': "ob_data c' = ps ! (i div N)" "abs_cell k msg (ps ! 0) i s = Inr ((c', i mod N), s)" by auto
  from set_cell_list [OF e r(1,2) i [unfolded r(3)] c'(1), of v] c'(2) show ?thesis
    by (simp add: bindE_apply r(3))
qed

end

section \<open>The three stacks\<close>

lemma std_env_make_page:
  assumes e: "std_env s" and r: "r \<in> class_roots"
  shows "yields (pvm_create_general_stack_object (pvm_root s r) n (sizeof_da s c) mk zero) s
    (\<lambda>r s'. std_env s' \<and> (\<exists>cls m fl z. created s s' r cls m fl (mk (stack_page_init r n z))))"
proof -
  from std_envD(4) [OF e r] obtain cda where cda: "class_at s (pvm_root s r) cda" by blast
  show ?thesis
    by (rule yields_mono [OF create_general_stack_yields [OF std_envD(1) [OF e] cda std_envD(3) [OF e]]])
      (use std_env_created [OF e] in blast)
qed

lemma view_not_class:
  "as_istack d = Some ip \<Longrightarrow> d \<noteq> DA_class c" "as_ostack d = Some op \<Longrightarrow> d \<noteq> DA_class c"
  "as_estack d = Some ep \<Longrightarrow> d \<noteq> DA_class c"
  by auto

interpretation istk: paged_stack istack_kind PVM_INTEGER_STACK_SIZE std_env
proof
  show "yields (sk_make istack_kind) s (\<lambda>r s'. std_env s' \<and> (\<exists>cls n fl z.
      created s s' r cls n fl (sk_mk istack_kind (stack_page_init r PVM_INTEGER_STACK_SIZE z))))"
    if "std_env s" for s
    using std_env_make_page [OF that, of R_istack_class]
    by (simp add: istack_kind_def pvm_create_istack_object_def class_roots_def)
qed (auto simp: istack_kind_def PVM_INTEGER_STACK_SIZE_def dest: std_envD(2) view_not_class
    intro: std_env_put)

interpretation ostk: paged_stack ostack_kind PVM_OBJECT_STACK_SIZE std_env
proof
  show "yields (sk_make ostack_kind) s (\<lambda>r s'. std_env s' \<and> (\<exists>cls n fl z.
      created s s' r cls n fl (sk_mk ostack_kind (stack_page_init r PVM_OBJECT_STACK_SIZE z))))"
    if "std_env s" for s
    using std_env_make_page [OF that, of R_ostack_class]
    by (simp add: ostack_kind_def pvm_create_ostack_object_def class_roots_def)
qed (auto simp: ostack_kind_def PVM_OBJECT_STACK_SIZE_def dest: std_envD(2) view_not_class
    intro: std_env_put)

interpretation estk: paged_stack estack_kind PVM_EXCEPTION_STACK_SIZE std_env
proof
  show "yields (sk_make estack_kind) s (\<lambda>r s'. std_env s' \<and> (\<exists>cls n fl z.
      created s s' r cls n fl (sk_mk estack_kind (stack_page_init r PVM_EXCEPTION_STACK_SIZE z))))"
    if "std_env s" for s
    using std_env_make_page [OF that, of R_estack_class]
    by (simp add: estack_kind_def pvm_create_estack_object_def class_roots_def)
qed (auto simp: estack_kind_def PVM_EXCEPTION_STACK_SIZE_def dest: std_envD(2) view_not_class
    intro: std_env_put)

abbreviation istack_rep :: "vm_state \<Rightarrow> addr list \<Rightarrow> i32 list \<Rightarrow> bool" where
  "istack_rep \<equiv> stack_rep istack_kind PVM_INTEGER_STACK_SIZE"

abbreviation ostack_rep :: "vm_state \<Rightarrow> addr list \<Rightarrow> pvm_object list \<Rightarrow> bool" where
  "ostack_rep \<equiv> stack_rep ostack_kind PVM_OBJECT_STACK_SIZE"

abbreviation estack_rep :: "vm_state \<Rightarrow> addr list \<Rightarrow> pvm_exception_handler list \<Rightarrow> bool" where
  "estack_rep \<equiv> stack_rep estack_kind PVM_EXCEPTION_STACK_SIZE"

text \<open>The object stack's extra checks never fire.\<close>

lemma ostack_push_list:
  assumes e: "std_env s" and rep: "ostack_rep s ps xs"
  shows "yields (pvm_ostack_push (ps ! 0) v) s (\<lambda>_ s'. ostk.pushed s ps (xs @ [v]) s')"
proof -
  from rep obtain pgs c where r: "pages_at ostack_kind s ps pgs"
    "chain_ok PVM_OBJECT_STACK_SIZE (null_of s) ps pgs c" "xs = stack_cells pgs"
    by (auto simp: stack_rep_def)
  have "yields (bindE (check_overflow ostack_kind (ps ! 0) (ps ! c)) (\<lambda>p.
       bindE (page_at ostack_kind p) (\<lambda>pg.
       if page_is_full pg then raise (Panic ''opush page full after mkpage'')
       else page_push ostack_kind p v))) s (\<lambda>_ s'. ostk.pushed s ps (xs @ [v]) s')"
  proof (rule yields_bind [OF ostk.check_overflow_room [OF r(1,2) e]])
    fix p s1 assume rm: "ostk.room s s1 ps (stack_cells pgs) p"
    then obtain qs pgs' c' where q: "p = (ps @ qs) ! c'" "pages_at ostack_kind s1 (ps @ qs) pgs'"
      "chain_ok PVM_OBJECT_STACK_SIZE (null_of s1) (ps @ qs) pgs' c'"
      "sp_free_cell_ptr (pgs' ! c') < PVM_OBJECT_STACK_SIZE" unfolding ostk.room_def by blast
    have "page_at ostack_kind p s1 = Inr (pgs' ! c', s1)" "\<not> page_is_full (pgs' ! c')"
      using ostk.page_at_eval [OF q(2) chain_okD(3) [OF q(3)]] q(1,4)
        chain_okD(5) [OF q(3) chain_okD(3) [OF q(3)]]
      by (simp_all add: page_is_full_def page_linked_def)
    with ostk.page_push_room [OF rm, of v] show "yields (bindE (page_at ostack_kind p) (\<lambda>pg.
       if page_is_full pg then raise (Panic ''opush page full after mkpage'')
       else page_push ostack_kind p v)) s1 (\<lambda>_ s'. ostk.pushed s ps (xs @ [v]) s')"
      by (auto simp: yields_def bindE_apply ostk.pushed_def r(3))
  qed
  then show ?thesis
    by (simp add: pvm_ostack_push_def yields_def bindE_apply ostk.curr_da_eval [OF r(1,2)])
qed

lemma ostack_pop_list:
  assumes e: "std_env s" and rep: "ostack_rep s ps xs" and ne: "xs \<noteq> []"
  shows "\<exists>s'. pvm_ostack_pop (ps ! 0) s = Inr (last xs, s') \<and> ostk.popped s ps (butlast xs) s'"
    "\<exists>s'. pvm_ostack_top (ps ! 0) s = Inr (last xs, s') \<and> ostk.popped s ps xs s'"
proof -
  from rep obtain pgs c where r: "pages_at ostack_kind s ps pgs"
    "chain_ok PVM_OBJECT_STACK_SIZE (null_of s) ps pgs c" "xs = stack_cells pgs"
    by (auto simp: stack_rep_def)
  from ostk.check_underflow_topped [OF r(1,2) e] ne r(3) obtain p s1 where
    p: "check_underflow ostack_kind (ps ! 0) (ps ! c) s = Inr (p, s1)" "ostk.topped s s1 ps xs p" by blast
  then obtain pgs' c' where q: "p = ps ! c'" "pages_at ostack_kind s1 ps pgs'"
    "chain_ok PVM_OBJECT_STACK_SIZE (null_of s1) ps pgs' c'" "0 < sp_free_cell_ptr (pgs' ! c')"
    unfolding ostk.topped_def by blast
  have pg: "page_at ostack_kind p s1 = Inr (pgs' ! c', s1)" "\<not> page_is_empty (pgs' ! c')"
    using ostk.page_at_eval [OF q(2) chain_okD(3) [OF q(3)]] q(1,4) by (simp_all add: page_is_empty_def)
  show "\<exists>s'. pvm_ostack_pop (ps ! 0) s = Inr (last xs, s') \<and> ostk.popped s ps (butlast xs) s'"
    using ostk.page_pop_topped [OF p(2)] p(1) pg ostk.curr_da_eval [OF r(1,2)]
    by (simp add: pvm_ostack_pop_def bindE_apply)
  show "\<exists>s'. pvm_ostack_top (ps ! 0) s = Inr (last xs, s') \<and> ostk.popped s ps xs s'"
    using ostk.page_top_topped [OF p(2)] ostk.topped_popped [OF p(2)] p(1) pg
      ostk.curr_da_eval [OF r(1,2)] by (simp add: pvm_ostack_top_def bindE_apply)
qed

lemma ostack_pop_empty:
  assumes rep: "ostack_rep s ps []"
  shows "pvm_ostack_pop (ps ! 0) s = Inl (Exec_panic ''stack underflow'')"
    "pvm_ostack_top (ps ! 0) s = Inl (Exec_panic ''stack underflow'')"
proof -
  from rep obtain pgs c where r: "pages_at ostack_kind s ps pgs"
    "chain_ok PVM_OBJECT_STACK_SIZE (null_of s) ps pgs c" "stack_cells pgs = []"
    by (auto simp: stack_rep_def)
  show "pvm_ostack_pop (ps ! 0) s = Inl (Exec_panic ''stack underflow'')"
    "pvm_ostack_top (ps ! 0) s = Inl (Exec_panic ''stack underflow'')"
    using ostk.check_underflow_empty [OF r] ostk.curr_da_eval [OF r(1,2)]
    by (simp_all add: pvm_ostack_pop_def pvm_ostack_top_def bindE_apply)
qed

text \<open>Relative access counts from the top.\<close>

lemma pull_walk_eval:
  assumes pa: "pages_at ostack_kind s ps pgs" and ch: "chain_ok N (null_of s) ps pgs c0" and N: "0 < N"
  shows "ob_data c = ps ! j \<Longrightarrow> j < length ps \<Longrightarrow> displ < int N \<Longrightarrow> - displ < int n \<Longrightarrow> 0 < n \<Longrightarrow>
    pos = int j * int N + displ \<Longrightarrow>
    (if 0 \<le> pos
     then \<exists>c'. ob_data c' = ps ! (nat pos div N) \<and> pull_walk n N c displ s = Inr ((c', nat pos mod N), s)
     else pull_walk n N c displ s = Inl (Exec_panic ''stack pull: underflow''))"
proof (induction n arbitrary: j c displ)
  case (Suc n)
  show ?case
  proof (cases "displ < 0")
    case False
    then have "nat pos = j * N + nat displ" using Suc.prems by (simp add: nat_add_distrib nat_mult_distrib)
    moreover have "nat displ < N" using Suc.prems(3) False by linarith
    ultimately have "nat pos div N = j" "nat pos mod N = nat displ" by simp_all
    with False Suc.prems show ?thesis by auto
  next
    case True
    have pg: "page_at ostack_kind (ob_data c) s = Inr (pgs ! j, s)"
      using ostk.page_at_eval [OF pa Suc.prems(2)] Suc.prems(1) by simp
    show ?thesis
    proof (cases j)
      case 0
      with chain_okD(5) [OF ch Suc.prems(2)] True pg Suc.prems(6) show ?thesis
        by (simp add: bindE_apply ostk.is_null_eval page_linked_def)
    next
      case (Suc i)
      have i: "i < length ps" using Suc Suc.prems(2) by simp
      have pv: "ob_data (sp_prev (pgs ! j)) = ps ! i"
        using chain_okD(5) [OF ch Suc.prems(2)] Suc by (simp add: page_linked_def)
      have "\<not> null_addr (null_of s) (ps ! i)" by (rule chain_okD(4) [OF ch i])
      moreover have "displ + int N < int N" "- (displ + int N) < int n" "0 < n"
        "pos = int i * int N + (displ + int N)"
        using True Suc.prems Suc N by (auto simp: algebra_simps)
      ultimately show ?thesis
        using Suc.IH [OF pv i] True pg pv by (simp add: bindE_apply ostk.is_null_eval cong: if_cong)
    qed
  qed
qed simp

lemma ostack_pull_list:
  assumes rep: "ostack_rep s ps xs"
  shows "pvm_ostack_pull (ps ! 0) (int d) s =
    (if d < length xs then Inr (xs ! (length xs - 1 - d), s)
     else Inl (Exec_panic ''stack pull: underflow''))"
proof -
  let ?N = PVM_OBJECT_STACK_SIZE
  from rep obtain pgs c where r: "pages_at ostack_kind s ps pgs" "chain_ok ?N (null_of s) ps pgs c"
    "xs = stack_cells pgs" by (auto simp: stack_rep_def)
  note D = chain_okD [OF r(2)] and len = ostk.cells_length [OF r(2), folded r(3)]
  let ?pg = "pgs ! c" and ?displ = "int (sp_free_cell_ptr (pgs ! c)) - int d - 1"
  have l: "sp_sSize ?pg = ?N" "sp_free_cell_ptr ?pg \<le> ?N" "ob_data (sp_curr ?pg) = ps ! c"
    using D(5) [OF D(3)] by (auto simp: page_linked_def split: if_splits)
  let ?pos = "int (length xs) - 1 - int d"
  have pos: "(0 \<le> ?pos) = (d < length xs)" "nat ?pos = length xs - 1 - d" by linarith+
  have "if 0 \<le> ?pos
     then \<exists>c'. ob_data c' = ps ! (nat ?pos div ?N) \<and>
       pull_walk (d + 2) ?N (sp_curr ?pg) ?displ s = Inr ((c', nat ?pos mod ?N), s)
     else pull_walk (d + 2) ?N (sp_curr ?pg) ?displ s = Inl (Exec_panic ''stack pull: underflow'')"
    by (rule pull_walk_eval [OF r(1,2) ostk.N_pos l(3) D(3)]) (use l(2) in \<open>simp_all add: len\<close>)
  then have w: "if d < length xs
     then \<exists>c'. ob_data c' = ps ! ((length xs - 1 - d) div ?N) \<and>
       pull_walk (d + 2) ?N (sp_curr ?pg) ?displ s = Inr ((c', (length xs - 1 - d) mod ?N), s)
     else pull_walk (d + 2) ?N (sp_curr ?pg) ?displ s = Inl (Exec_panic ''stack pull: underflow'')"
    unfolding pos .
  show ?thesis
  proof (cases "d < length xs")
    case True
    then have i: "length xs - 1 - d < length (stack_cells pgs)" by (simp add: r(3))
    note n = ostk.cells_nth [OF r(2) i]
    have "length (sp_stack (pgs ! ((length xs - 1 - d) div ?N))) = ?N"
      using D(5) [OF n(1)] by (simp add: page_linked_def)
    with w True n ostk.page_at_eval [OF r(1) n(1)] ostk.page_at_eval [OF r(1) D(3)] ostk.N_pos
      ostk.curr_da_eval [OF r(1,2)] l show ?thesis
      by (auto simp: pvm_ostack_pull_def bindE_apply get_cell_def r(3) simp del: pull_walk.simps)
  next
    case False
    with w ostk.page_at_eval [OF r(1) D(3)] ostk.curr_da_eval [OF r(1,2)] l show ?thesis
      by (simp add: pvm_ostack_pull_def bindE_apply del: pull_walk.simps)
  qed
qed

section \<open>Properties\<close>

text \<open>A single page with the values \<open>vs\<close> in its first cells.\<close>

definition filled_page :: "pvm_object \<Rightarrow> nat \<Rightarrow> 'a \<Rightarrow> 'a list \<Rightarrow> 'a stack_page" where
  "filled_page r N z vs = (stack_page_init r N z)\<lparr>sp_free_cell_ptr := length vs,
     sp_stack := vs @ replicate (N - length vs) z\<rparr>"

lemma filled_stack_rep:
  assumes "heap s p = Some ob" "ob_live ob" "sk_view k (o_da ob) = Some (filled_page r N z vs)"
    and "ob_data r = p" "p \<noteq> 0" "p \<noteq> null_of s" "length vs \<le> N"
  shows "stack_rep k N s [p] vs"
proof -
  have "pages_at k s [p] [filled_page r N z vs]" using assms by (simp add: pages_at_def)
  moreover have "chain_ok N (null_of s) [p] [filled_page r N z vs] 0"
    using assms by (simp add: chain_ok_def page_linked_def null_addr_def filled_page_def
        stack_page_init_def null_ref_def)
  moreover have "stack_cells [filled_page r N z vs] = vs"
    by (simp add: stack_cells_def used_cells_def filled_page_def)
  ultimately show ?thesis unfolding stack_rep_def by metis
qed

lemma filled_page_nil: "filled_page r N z [] = stack_page_init r N z"
  by (simp add: filled_page_def stack_page_init_def)

lemma stack_rep_no_new: "stack_rep k N s ps xs \<Longrightarrow> \<exists>qs. stack_rep k N s (ps @ qs) xs"
  by (rule exI [of _ "[]"]) simp

text \<open>The integer stack as an abstract data type, on pages and on a list.\<close>

datatype stack_op = Push i32 | Pop | Top | Is_empty

datatype stack_answer = Done | Val i32 | Flag bool

fun istack_do :: "stack_op \<Rightarrow> addr \<Rightarrow> stack_answer vm" where
  "istack_do (Push v) rt = thenE (pvm_istack_push rt v) (ret Done)"
| "istack_do Pop rt = bindE (pvm_istack_pop rt) (\<lambda>v. ret (Val v))"
| "istack_do Top rt = bindE (pvm_istack_top rt) (\<lambda>v. ret (Val v))"
| "istack_do Is_empty rt = bindE (pvm_istack_empty rt) (\<lambda>b. ret (Flag b))"

fun list_do :: "stack_op \<Rightarrow> (i32 list, stack_answer) comp" where
  "list_do (Push v) xs = Inr (Done, xs @ [v])"
| "list_do Pop xs = (if xs = [] then Inl (Exec_panic ''stack underflow'') else Inr (Val (last xs), butlast xs))"
| "list_do Top xs = (if xs = [] then Inl (Exec_panic ''stack underflow'') else Inr (Val (last xs), xs))"
| "list_do Is_empty xs = Inr (Flag (xs = []), xs)"

primrec run_ops :: "('op \<Rightarrow> ('s, 'b) comp) \<Rightarrow> 'op list \<Rightarrow> ('s, 'b list) comp" where
  "run_ops f [] = ret []"
| "run_ops f (x # xs) = bindE (f x) (\<lambda>a. bindE (run_ops f xs) (\<lambda>as. ret (a # as)))"

lemma istack_do_refines:
  assumes e: "std_env s" and rep: "istack_rep s ps xs"
  shows "istack_do op (ps ! 0) s = Inl out_of_mem \<or>
    (case list_do op xs of Inl err \<Rightarrow> istack_do op (ps ! 0) s = Inl err
     | Inr (a, ys) \<Rightarrow> \<exists>s' qs. istack_do op (ps ! 0) s = Inr (a, s') \<and> std_env s' \<and>
         istack_rep s' (ps @ qs) ys)"
proof (cases op)
  case (Push v)
  with istk.push_list [OF e rep, of v] show ?thesis
    by (auto simp: yields_def istk.pushed_def thenE_apply pvm_istack_push_def)
next
  case Pop
  with istk.pop_list(1) [OF e rep] istk.pop_empty(1) [of s ps] rep show ?thesis
    by (cases "xs = []") (auto simp: istk.popped_def bindE_apply pvm_istack_pop_def intro: stack_rep_no_new)
next
  case Top
  with istk.pop_list(2) [OF e rep] istk.pop_empty(2) [of s ps] rep show ?thesis
    by (cases "xs = []") (auto simp: istk.popped_def bindE_apply pvm_istack_top_def intro: stack_rep_no_new)
next
  case Is_empty
  with istk.empty_list [OF rep] e rep show ?thesis
    by (auto simp: bindE_apply pvm_istack_empty_def intro: stack_rep_no_new)
qed

text \<open>
  C17. The paged integer stack refines a list. Whatever sequence of push, pop, top and
  emptiness queries is run on a well-formed stack, it gives the answers the same sequence
  gives on a list, and the pages then hold that list; where the list is empty the machine
  thread panics with a stack underflow, and the only other outcome is that memory for a new
  page is exhausted.
\<close>

theorem istack_refines_list:
  assumes "std_env s" and "istack_rep s ps xs"
  shows "run_ops (\<lambda>op. istack_do op (ps ! 0)) ops s = Inl out_of_mem \<or>
    (case run_ops list_do ops xs of
       Inl err \<Rightarrow> run_ops (\<lambda>op. istack_do op (ps ! 0)) ops s = Inl err
     | Inr (as, ys) \<Rightarrow> \<exists>s' qs. run_ops (\<lambda>op. istack_do op (ps ! 0)) ops s = Inr (as, s') \<and>
         std_env s' \<and> istack_rep s' (ps @ qs) ys)"
  using assms
proof (induction ops arbitrary: s ps xs)
  case Nil
  then show ?case by (auto intro: stack_rep_no_new)
next
  case (Cons op ops)
  let ?r = "run_ops (\<lambda>op. istack_do op (ps ! 0)) ops"
  consider (oom) "istack_do op (ps ! 0) s = Inl out_of_mem"
    | (err) err where "list_do op xs = Inl err" "istack_do op (ps ! 0) s = Inl err"
    | (ok) a ys s' qs where "list_do op xs = Inr (a, ys)" "istack_do op (ps ! 0) s = Inr (a, s')"
        "std_env s'" "istack_rep s' (ps @ qs) ys"
    using istack_do_refines [OF Cons.prems, of op] by (auto split: sum.splits)
  then show ?case
  proof cases
    case ok
    have "ps \<noteq> []" using Cons.prems(2) by (auto simp: stack_rep_def chain_ok_def)
    then have "(ps @ qs) ! 0 = ps ! 0" by (cases ps) auto
    with Cons.IH [OF ok(3,4)] show ?thesis
      by (auto simp: bindE_apply ok(1,2) split: sum.splits)
  qed (simp_all add: bindE_apply)
qed

definition stacks_state :: vm_state where
  "stacks_state = sample_state 0 [DA_istack (stack_page_init (at_spot 2) PVM_INTEGER_STACK_SIZE 0),
     DA_ostack (stack_page_init (at_spot 3) PVM_OBJECT_STACK_SIZE null_ref),
     DA_ostack (filled_page (at_spot 4) PVM_OBJECT_STACK_SIZE null_ref [at_spot 0, at_spot 1])]"

lemma stacks_state_rep: "std_env stacks_state" "istack_rep stacks_state [spot 2] []"
  "ostack_rep stacks_state [spot 3] []" "ostack_rep stacks_state [spot 4] [at_spot 0, at_spot 1]"
proof -
  show "std_env stacks_state" unfolding stacks_state_def by (rule sample_state_env) simp
  have h: "heap stacks_state (spot 2) = Some (sample_ob (at_spot 1) 0
      (DA_istack (stack_page_init (at_spot 2) PVM_INTEGER_STACK_SIZE 0)))"
    "heap stacks_state (spot 3) = Some (sample_ob (at_spot 1) 0
      (DA_ostack (stack_page_init (at_spot 3) PVM_OBJECT_STACK_SIZE null_ref)))"
    "heap stacks_state (spot 4) = Some (sample_ob (at_spot 1) 0 (DA_ostack (filled_page (at_spot 4)
      PVM_OBJECT_STACK_SIZE null_ref [at_spot 0, at_spot 1])))"
    using sample_state_heap [of 0] sample_state_heap [of 1] sample_state_heap [of 2]
    by (simp_all add: stacks_state_def eval_nat_numeral)
  show "istack_rep stacks_state [spot 2] []"
    by (rule filled_stack_rep [OF h(1), where r = "at_spot 2" and z = 0])
      (simp_all add: istack_kind_def stacks_state_def filled_page_nil)
  show "ostack_rep stacks_state [spot 3] []"
    by (rule filled_stack_rep [OF h(2), where r = "at_spot 3" and z = null_ref])
      (simp_all add: ostack_kind_def stacks_state_def filled_page_nil)
  show "ostack_rep stacks_state [spot 4] [at_spot 0, at_spot 1]"
    by (rule filled_stack_rep [OF h(3), where r = "at_spot 4" and z = null_ref])
      (simp_all add: ostack_kind_def stacks_state_def PVM_OBJECT_STACK_SIZE_def)
qed

theorem istack_refines_list_witness:
  "std_env stacks_state \<and> istack_rep stacks_state [spot 2] [] \<and>
   (run_ops (\<lambda>op. istack_do op (spot 2)) [Push 7, Is_empty, Pop, Pop] stacks_state \<in>
      {Inl out_of_mem, Inl (Exec_panic ''stack underflow'')})"
  using istack_refines_list [OF stacks_state_rep(1,2), of "[Push 7, Is_empty, Pop, Pop]"] stacks_state_rep
  by (simp add: bindE_apply)

text \<open>
  C20. The object stack is indexed correctly across its pages. Absolute access \<open>i\<close> reads the
  element pushed as number \<open>i\<close>, relative access \<open>d\<close> reads the element \<open>d\<close> below the top,
  both without changing anything; a relative access below the bottom and an absolute access
  beyond the last page panic.
\<close>

theorem ostack_indexing:
  assumes "ostack_rep s ps xs"
  shows "(\<forall>i < length xs. pvm_ostack_abs_get (ps ! 0) i s = Inr (xs ! i, s)) \<and>
    (\<forall>d < length xs. pvm_ostack_pull (ps ! 0) (int d) s = Inr (rev xs ! d, s)) \<and>
    (\<forall>d \<ge> length xs. pvm_ostack_pull (ps ! 0) (int d) s = Inl (Exec_panic ''stack pull: underflow'')) \<and>
    (\<forall>i \<ge> length ps * PVM_OBJECT_STACK_SIZE.
       pvm_ostack_abs_get (ps ! 0) i s = Inl (Exec_panic ''o abs_get: out of stack''))"
  using ostk.abs_get_list [OF assms] ostk.abs_get_out [OF assms] ostack_pull_list [OF assms]
  by (simp add: pvm_ostack_abs_get_def rev_nth)

theorem ostack_indexing_witness:
  "ostack_rep stacks_state [spot 4] [at_spot 0, at_spot 1] \<and>
   pvm_ostack_abs_get (spot 4) 1 stacks_state = Inr (at_spot 1, stacks_state) \<and>
   pvm_ostack_pull (spot 4) 1 stacks_state = Inr (at_spot 0, stacks_state)"
proof -
  note i = ostack_indexing [OF stacks_state_rep(4)]
  have "pvm_ostack_abs_get (spot 4) 1 stacks_state = Inr (at_spot 1, stacks_state)"
    using i by (simp add: less_Suc_eq)
  moreover have "pvm_ostack_pull (spot 4) (int 1) stacks_state = Inr (at_spot 0, stacks_state)"
    using conjunct1 [OF conjunct2 [OF i], THEN spec [of _ 1]] by simp
  ultimately show ?thesis using stacks_state_rep(4) by simp
qed

text \<open>
  C19. What is pushed on the object stack is what is popped. A push on a well-formed stack
  followed by a pop returns the pushed reference and leaves the stack's contents and every
  object outside its pages as they were, unless memory for a new page is exhausted.
\<close>

theorem ostack_push_pop:
  assumes "std_env s" and "ostack_rep s ps xs"
  shows "yields (thenE (pvm_ostack_push (ps ! 0) v) (pvm_ostack_pop (ps ! 0))) s (\<lambda>r s'. r = v \<and>
    std_env s' \<and> (\<exists>qs. ostack_rep s' (ps @ qs) xs) \<and> (\<forall>q \<in> live s - set ps. heap s' q = heap s q))"
proof (rule yields_then [OF ostack_push_list [OF assms]])
  fix s1 assume "ostk.pushed s ps (xs @ [v]) s1"
  then obtain qs where q: "std_env s1" "keeps s s1 (set ps)" "ostack_rep s1 (ps @ qs) (xs @ [v])"
    "set qs \<inter> live s = {}" by (auto simp: ostk.pushed_def)
  have "ps \<noteq> []" using assms(2) by (auto simp: stack_rep_def chain_ok_def)
  then have p0: "(ps @ qs) ! 0 = ps ! 0" by (cases ps) auto
  from ostack_pop_list(1) [OF q(1,3)] obtain s2 where
    s2: "pvm_ostack_pop (ps ! 0) s1 = Inr (v, s2)" "ostk.popped s1 (ps @ qs) xs s2" by (auto simp: p0)
  have "keeps s s2 (set ps)"
    by (rule keeps_trans [OF q(2), of s2 "set (ps @ qs)"]) (use s2(2) q(4) in \<open>auto simp: ostk.popped_def\<close>)
  with s2 show "yields (pvm_ostack_pop (ps ! 0)) s1 (\<lambda>r s'. r = v \<and>
    std_env s' \<and> (\<exists>qs. ostack_rep s' (ps @ qs) xs) \<and> (\<forall>q \<in> live s - set ps. heap s' q = heap s q))"
    by (auto simp: yields_def ostk.popped_def keeps_def)
qed

theorem ostack_push_pop_witness:
  "std_env stacks_state \<and> ostack_rep stacks_state [spot 3] [] \<and>
   yields (thenE (pvm_ostack_push (spot 3) (at_spot 0)) (pvm_ostack_pop (spot 3))) stacks_state
     (\<lambda>r s'. r = at_spot 0 \<and> std_env s')"
proof -
  have "yields (thenE (pvm_ostack_push (spot 3) (at_spot 0)) (pvm_ostack_pop (spot 3))) stacks_state
     (\<lambda>r s'. r = at_spot 0 \<and> std_env s')"
    using ostack_push_pop [OF stacks_state_rep(1,3), of "at_spot 0"] by (auto elim: yields_mono)
  then show ?thesis using stacks_state_rep by simp
qed

text \<open>
  C22. A 64-bit number pushed on an empty integer stack cannot be popped again: the push
  counts one cell, the underflow check of the pop demands two, and the machine thread
  panics with a stack underflow.
\<close>

theorem lstack_push_pop_panics:
  assumes "std_env s" and "istack_rep s ps []"
  shows "thenE (pvm_lstack_push (ps ! 0) v) (pvm_lstack_pop (ps ! 0)) s =
    Inl (Exec_panic ''stack underflow'')"
proof -
  let ?N = PVM_INTEGER_STACK_SIZE
  from assms(2) obtain pgs c where r: "pages_at istack_kind s ps pgs" "chain_ok ?N (null_of s) ps pgs c"
    "stack_cells pgs = []" by (auto simp: stack_rep_def)
  from r(3) istk.cells_length [OF r(2)] have c: "c = 0" "sp_free_cell_ptr (pgs ! 0) = 0"
    by (auto simp: PVM_INTEGER_STACK_SIZE_def)
  note D = chain_okD [OF r(2)]
  have z: "0 < length ps" by (rule zero_less [OF D(3)])
  have pl: "sp_sSize (pgs ! 0) = 64" "length (sp_stack (pgs ! 0)) = 64" "sp_curr_da (pgs ! 0) = ps ! 0"
    "null_addr (null_of s) (ob_data (sp_prev (pgs ! 0)))"
    using D(5) [OF z] c(1) by (auto simp: page_linked_def PVM_INTEGER_STACK_SIZE_def)
  let ?f = "\<lambda>pg. pg\<lparr>sp_stack := (sp_stack pg)[2 * sp_free_cell_ptr (pgs ! 0) := ucast v,
      2 * sp_free_cell_ptr (pgs ! 0) + 1 := ucast (drop_bit 32 v)],
      sp_free_cell_ptr := sp_free_cell_ptr pg + 1\<rparr> :: i32 stack_page"
  from istk.set_page_eval [OF r(1) D(1) z assms(1), of ?f] obtain s1 where
    s1: "set_page istack_kind (ps ! 0) ?f s = Inr ((), s1)"
      "pages_at istack_kind s1 ps (pgs[0 := ?f (pgs ! 0)])" "wrote s s1 (ps ! 0)" by blast
  note pg0 = istk.page_at_eval [OF r(1) z]
  have "pvm_lstack_push (ps ! 0) v s = Inr ((), s1)"
    using s1(1) pg0 pl c(2)
    by (simp add: pvm_lstack_push_def curr_da_def bindE_apply lcheck_overflow_def lpage_is_full_def
        lpage_push_def Let_def u32_sub_def u32_def)
  moreover have "page_at istack_kind (ps ! 0) s1 = Inr (?f (pgs ! 0), s1)"
    using istk.page_at_eval [OF s1(2) z] D(2) z by simp
  then have "pvm_lstack_pop (ps ! 0) s1 = Inl (Exec_panic ''stack underflow'')"
    using pl c(2) wrote_null [OF s1(3)]
    by (simp add: pvm_lstack_pop_def curr_da_def bindE_apply lcheck_underflow_def lpage_is_empty_def
        istk.is_null_eval)
  ultimately show ?thesis by (simp add: thenE_apply)
qed

theorem lstack_push_pop_panics_witness:
  "std_env stacks_state \<and> istack_rep stacks_state [spot 2] [] \<and>
   thenE (pvm_lstack_push (spot 2) 7) (pvm_lstack_pop (spot 2)) stacks_state =
     Inl (Exec_panic ''stack underflow'')"
  using lstack_push_pop_panics [OF stacks_state_rep(1,2), of 7] stacks_state_rep by simp

end
