(* ===== verification/Code_Fetch.thy ===== *)
theory Code_Fetch
  imports Object_Memory
begin

text \<open>
  Fetching operands from a bytecode segment (\<^verbatim>\<open>phantom/vm/code.c\<close>). A code handler is
  the bytes the \<^verbatim>\<open>code\<close> pointer points at, the instruction pointer and the limit; a
  fetch is a computation on that handler. A read outside the bytes of the segment is
  \<open>Out_of_bounds\<close>, a failed bounds check of the code is \<open>Exec_panic\<close>. The lemmas give
  every fetch on every branch; the bounds check is proved to stop every multi-byte fetch
  that would leave the segment by more than one byte, and the one byte that it lets
  through is shown as well.
\<close>

section \<open>Model\<close>

record pvm_code_handler =
  ch_code :: "u8 list"
  ch_IP :: nat
  ch_IP_max :: nat

type_synonym 'a fetch = "(pvm_code_handler, 'a) comp"

definition pvm_code_do_get_int :: "u8 list \<Rightarrow> i32" where
  "pvm_code_do_get_int bs =
     ucast (bs ! 3) OR push_bit 8 (ucast (bs ! 2)) OR push_bit 16 (ucast (bs ! 1)) OR
     push_bit 24 (ucast (bs ! 0))"

text \<open>
  The accumulator of the 64-bit fetch is an \<^verbatim>\<open>unsigned long\<close>, which has 32 bits: each
  \<^verbatim>\<open>v |= ...\<close> truncates, and the result is sign-extended from 32 bits.
\<close>

definition pvm_code_do_get_int64 :: "u8 list \<Rightarrow> i64" where
  "pvm_code_do_get_int64 bs =
     (let wide = (\<lambda>i sh. push_bit sh (ucast (bs ! i) :: i64));
          v = (ucast (bs ! 7) :: i32);
          v = v OR ucast (wide 6 8);
          v = v OR ucast (wide 5 16);
          v = v OR ucast (wide 4 24);
          v = v OR ucast (wide 3 32);
          v = v OR ucast (wide 2 40);
          v = v OR ucast (wide 1 48);
          v = v OR ucast (wide 0 56)
      in scast v)"

definition throw_bounds :: "string \<Rightarrow> 'a fetch" where
  "throw_bounds wher = raise (Exec_panic (wher @ '': IP out of bounds''))"

definition pvm_code_check_bounds :: "nat \<Rightarrow> string \<Rightarrow> unit fetch" where
  "pvm_code_check_bounds ip wher = bindE (gets ch_IP_max) (\<lambda>mx.
     if ip > mx then throw_bounds wher else ret ())"

text \<open>\<open>n\<close> bytes at index \<open>i\<close> of the segment, as the processor would read them.\<close>

definition code_bytes :: "nat \<Rightarrow> nat \<Rightarrow> u8 list fetch" where
  "code_bytes i n = bindE (gets ch_code) (\<lambda>code.
     if i + n \<le> length code then ret (take n (drop i code)) else raise Out_of_bounds)"

definition add_IP :: "nat \<Rightarrow> unit fetch" where
  "add_IP n = modify (\<lambda>c. c\<lparr>ch_IP := u32 (ch_IP c + n)\<rparr>)"

definition pvm_code_get_byte_speculative :: "u8 fetch" where
  "pvm_code_get_byte_speculative = bindE (gets ch_IP) (\<lambda>ip.
     thenE (pvm_code_check_bounds ip ''get_byte'')
    (bindE (code_bytes ip 1) (\<lambda>bs. ret (bs ! 0))))"

definition pvm_code_get_byte_speculative2 :: "u8 fetch" where
  "pvm_code_get_byte_speculative2 = bindE (gets ch_IP) (\<lambda>ip.
     thenE (pvm_code_check_bounds ip ''get_byte'')
    (bindE (code_bytes (u32 (ip + 1)) 1) (\<lambda>bs. ret (bs ! 0))))"

definition pvm_code_get_byte :: "u8 fetch" where
  "pvm_code_get_byte = bindE (gets ch_IP) (\<lambda>ip.
     thenE (pvm_code_check_bounds ip ''get_byte'')
    (bindE (code_bytes ip 1) (\<lambda>bs.
     thenE (add_IP 1) (ret (bs ! 0)))))"

definition pvm_code_get_int32 :: "i32 fetch" where
  "pvm_code_get_int32 = bindE (gets ch_IP) (\<lambda>ip.
     thenE (pvm_code_check_bounds (u32 (ip + 3)) ''get_int32'')
    (bindE (code_bytes ip 4) (\<lambda>bs.
     thenE (add_IP 4) (ret (pvm_code_do_get_int bs)))))"

definition pvm_code_get_int64 :: "i64 fetch" where
  "pvm_code_get_int64 = bindE (gets ch_IP) (\<lambda>ip.
     thenE (pvm_code_check_bounds (u32 (ip + 7)) ''get_int64'')
    (bindE (code_bytes ip 8) (\<lambda>bs.
     thenE (add_IP 8) (ret (pvm_code_do_get_int64 bs)))))"

definition pvm_code_get_rel_IP_as_abs :: "nat fetch" where
  "pvm_code_get_rel_IP_as_abs = bindE (gets ch_IP) (\<lambda>here.
     bindE pvm_code_get_int32 (\<lambda>d. ret (unat (word_of_nat here + d))))"

text \<open>
  The fetch of a string literal: its bytes, which the caller wraps in a string object.
  A negative length would make \<^verbatim>\<open>memcpy\<close> copy almost the whole address space.
\<close>

definition pvm_code_get_string :: "u8 list fetch" where
  "pvm_code_get_string = bindE pvm_code_get_int32 (\<lambda>len.
     bindE (gets ch_IP) (\<lambda>sp.
     thenE (add_IP (unat len))
    (bindE (gets ch_IP) (\<lambda>ip.
     thenE (pvm_code_check_bounds (u32_sub ip 1) ''get_string'')
    (if sint len < 0 then raise Out_of_bounds else code_bytes sp (unat len))))))"

definition pvm_call_frame_init_code ::
    "data_area_4_call_frame \<Rightarrow> pvm_object \<Rightarrow> data_area_4_call_frame vm" where
  "pvm_call_frame_init_code cf code = bindE (load (ob_data code)) (\<lambda>ob.
     if \<not> has_flag (o_flags ob) IS_CODE then raise (Exec_panic ''exec: not a code object'')
     else bindE (of_view (as_code (o_da ob))) (\<lambda>(code_size, bytes).
       ret (cf\<lparr>cf_code := ob_data code, cf_IP_max := code_size, cf_IP := 0\<rparr>)))"

section \<open>A handler in a well-formed position\<close>

text \<open>
  The limit of a handler is the length of its segment, and positions do not wrap.
\<close>

definition code_ok :: "pvm_code_handler \<Rightarrow> bool" where
  "code_ok c \<longleftrightarrow> ch_IP_max c = length (ch_code c) \<and> length (ch_code c) + 8 < 2 ^ 32 \<and>
     ch_IP c \<le> length (ch_code c)"

text \<open>The handler moved to another position, and what lies ahead of it.\<close>

definition at_IP :: "nat \<Rightarrow> pvm_code_handler \<Rightarrow> pvm_code_handler" where
  "at_IP n c = c\<lparr>ch_IP := n\<rparr>"

definition upcoming :: "pvm_code_handler \<Rightarrow> u8 list" where
  "upcoming c = drop (ch_IP c) (ch_code c)"

named_theorems fetch_simps \<open>evaluation of the fetches on a well-formed handler\<close>

lemma at_IP_sel [simp]:
  "ch_IP (at_IP n c) = n" "ch_code (at_IP n c) = ch_code c" "ch_IP_max (at_IP n c) = ch_IP_max c"
  "at_IP n (at_IP m c) = at_IP n c"
  by (simp_all add: at_IP_def)

lemma code_ok_at_IP: "code_ok c \<Longrightarrow> n \<le> length (ch_code c) \<Longrightarrow> code_ok (at_IP n c)"
  by (simp add: code_ok_def)

lemma upcoming_at_IP: "ch_IP c + n = m \<Longrightarrow> upcoming (at_IP m c) = drop n (upcoming c)"
  by (auto simp: upcoming_def add.commute)

lemma length_upcoming: "code_ok c \<Longrightarrow> length (upcoming c) + ch_IP c = length (ch_code c)"
  by (simp add: upcoming_def code_ok_def)

lemma add_IP_apply: "add_IP n c = Inr ((), at_IP (u32 (ch_IP c + n)) c)"
  by (simp add: add_IP_def at_IP_def)

lemma code_bytes_upcoming:
  "code_ok c \<Longrightarrow> code_bytes (ch_IP c) n c =
     (if n \<le> length (upcoming c) then Inr (take n (upcoming c), c) else Inl Out_of_bounds)"
  by (auto simp: code_bytes_def bindE_apply upcoming_def code_ok_def)

lemma u32_IP: "code_ok c \<Longrightarrow> n \<le> 8 \<Longrightarrow> u32 (ch_IP c + n) = ch_IP c + n"
  by (auto simp: code_ok_def u32_def)

text \<open>
  A fetch of \<open>n\<close> bytes: what is ahead decides between the operand, the panic of the
  bounds check, and the one position at which the check passes although the last byte of
  the operand lies outside the segment.
\<close>

lemma fetch_cases:
  assumes c: "code_ok c" and n: "0 < n" "n \<le> 8"
  shows "bindE (gets ch_IP) (\<lambda>ip. thenE (pvm_code_check_bounds (u32 (ip + (n - 1))) wher)
      (bindE (code_bytes ip n) (\<lambda>bs. thenE (add_IP n) (ret (f bs))))) c =
    (if n \<le> length (upcoming c) then Inr (f (take n (upcoming c)), at_IP (ch_IP c + n) c)
     else if n = length (upcoming c) + 1 then Inl Out_of_bounds
     else throw_bounds wher c)"
proof -
  have "ch_IP c + (n - 1) > ch_IP_max c \<longleftrightarrow> n > length (upcoming c) + 1"
    using c n length_upcoming [OF c] by (auto simp: code_ok_def)
  moreover have "u32 (ch_IP c + (n - 1)) = ch_IP c + (n - 1)" "u32 (ch_IP c + n) = ch_IP c + n"
    using u32_IP [OF c, of "n - 1"] u32_IP [OF c, of n] n by simp_all
  ultimately show ?thesis
    using c by (auto simp: comp_simps pvm_code_check_bounds_def throw_bounds_def
        code_bytes_upcoming add_IP_apply not_le)
qed

lemma get_byte_cases:
  assumes "code_ok c"
  shows "pvm_code_get_byte c = (case upcoming c of
      [] \<Rightarrow> Inl Out_of_bounds
    | b # bs \<Rightarrow> Inr (b, at_IP (ch_IP c + 1) c))"
proof -
  have "pvm_code_get_byte c =
    bindE (gets ch_IP) (\<lambda>ip. thenE (pvm_code_check_bounds (u32 (ip + (1 - 1))) ''get_byte'')
      (bindE (code_bytes ip 1) (\<lambda>bs. thenE (add_IP 1) (ret (bs ! 0))))) c"
    using u32_IP [OF assms, of 0] by (simp add: pvm_code_get_byte_def bindE_apply)
  also have "\<dots> = (case upcoming c of [] \<Rightarrow> Inl Out_of_bounds
      | b # bs \<Rightarrow> Inr (b, at_IP (ch_IP c + 1) c))"
    by (subst fetch_cases [OF assms]) (auto split: list.splits)
  finally show ?thesis .
qed

lemma get_int32_cases:
  assumes "code_ok c"
  shows "pvm_code_get_int32 c =
    (if 4 \<le> length (upcoming c)
     then Inr (pvm_code_do_get_int (take 4 (upcoming c)), at_IP (ch_IP c + 4) c)
     else if length (upcoming c) = 3 then Inl Out_of_bounds
     else throw_bounds ''get_int32'' c)"
  using fetch_cases [OF assms, of 4 "''get_int32''" pvm_code_do_get_int]
  by (simp add: pvm_code_get_int32_def)

lemma get_int64_cases:
  assumes "code_ok c"
  shows "pvm_code_get_int64 c =
    (if 8 \<le> length (upcoming c)
     then Inr (pvm_code_do_get_int64 (take 8 (upcoming c)), at_IP (ch_IP c + 8) c)
     else if length (upcoming c) = 7 then Inl Out_of_bounds
     else throw_bounds ''get_int64'' c)"
  using fetch_cases [OF assms, of 8 "''get_int64''" pvm_code_do_get_int64]
  by (simp add: pvm_code_get_int64_def)

lemma get_rel_IP_eval:
  assumes "code_ok c" "4 \<le> length (upcoming c)"
  shows "pvm_code_get_rel_IP_as_abs c =
    Inr (unat (word_of_nat (ch_IP c) + pvm_code_do_get_int (take 4 (upcoming c))),
         at_IP (ch_IP c + 4) c)"
  using assms by (simp add: pvm_code_get_rel_IP_as_abs_def comp_simps get_int32_cases)

lemma code_bytes_at: "i + n \<le> length (ch_code c) \<Longrightarrow> code_bytes i n c = Inr (take n (drop i (ch_code c)), c)"
  by (simp add: code_bytes_def comp_simps)

text \<open>A string whose length field and bytes lie inside the segment is fetched whole.\<close>

lemma get_string_eval:
  assumes c: "code_ok c" and len: "pvm_code_do_get_int (take 4 (upcoming c)) = word_of_nat n"
    and fits: "4 + n \<le> length (upcoming c)" and n: "n < 2 ^ 31"
  shows "pvm_code_get_string c = Inr (take n (drop 4 (upcoming c)), at_IP (ch_IP c + 4 + n) c)"
proof -
  have u: "unat (word_of_nat n :: i32) = n" "0 \<le> sint (word_of_nat n :: i32)"
    using n by (simp_all add: unat_of_nat sint_uint take_bit_eq_mod signed_take_bit_eq_if_positive
        uint_nat bit_iff_odd flip: of_nat_power)
  have len4: "4 \<le> length (upcoming c)" using fits by simp
  have bound: "ch_IP c + 4 + n \<le> length (ch_code c)"
    using fits length_upcoming [OF c] by simp
  then have wrap: "u32 (ch_IP c + 4 + n) = ch_IP c + 4 + n"
    using c by (auto simp: u32_def code_ok_def)
  have sub: "u32_sub (ch_IP c + 4 + n) 1 = ch_IP c + 3 + n"
    using bound c u32_sub_le [of 1 "ch_IP c + 4 + n"] by (simp add: code_ok_def)
  have "drop (ch_IP c + 4) (ch_code c) = drop 4 (upcoming c)"
    by (simp add: upcoming_def add.commute)
  then show ?thesis
    using c len len4 u bound wrap sub
    by (simp add: pvm_code_get_string_def comp_simps get_int32_cases add_IP_apply
        pvm_code_check_bounds_def code_bytes_at code_ok_def add.assoc)
qed

text \<open>The 64-bit fetch delivers the sign extension of the low half only.\<close>

lemma ucast_wide_high: "32 \<le> sh \<Longrightarrow> ucast (push_bit sh (w :: i64)) = (0 :: i32)"
  by (rule bit_word_eqI) (auto simp: bit_simps)

lemma ucast_wide_low:
  "ucast (push_bit sh (ucast (b :: u8) :: i64)) = (push_bit sh (ucast b) :: i32)" if "sh \<le> 24"
  using that by (intro bit_word_eqI) (auto simp: bit_simps)

lemma do_get_int64_low:
  "4 \<le> length bs - 4 \<Longrightarrow> pvm_code_do_get_int64 bs = scast (pvm_code_do_get_int (drop 4 bs))"
  by (simp add: pvm_code_do_get_int64_def pvm_code_do_get_int_def Let_def ucast_wide_high
      ucast_wide_low or.assoc)

section \<open>Bounds\<close>

text \<open>
  C21. On a well-formed handler a byte, 32-bit or 64-bit fetch succeeds exactly when the
  whole operand lies inside the code segment; it then advances the instruction pointer
  past the operand and leaves the handler well-formed. The bounds check of the code, which
  compares with \<^verbatim>\<open>>\<close>, lets through exactly the fetches whose last byte is the one right
  after the segment: those read out of bounds, and every other failing fetch is stopped
  by the check.
\<close>

theorem fetch_bounds:
  assumes "code_ok c"
  shows "((\<exists>b. pvm_code_get_byte c = Inr (b, at_IP (ch_IP c + 1) c)) \<longleftrightarrow> 1 \<le> length (upcoming c)) \<and>
    ((\<exists>v. pvm_code_get_int32 c = Inr (v, at_IP (ch_IP c + 4) c)) \<longleftrightarrow> 4 \<le> length (upcoming c)) \<and>
    ((\<exists>v. pvm_code_get_int64 c = Inr (v, at_IP (ch_IP c + 8) c)) \<longleftrightarrow> 8 \<le> length (upcoming c)) \<and>
    (pvm_code_get_byte c = Inl Out_of_bounds \<longleftrightarrow> length (upcoming c) = 0) \<and>
    (pvm_code_get_int32 c = Inl Out_of_bounds \<longleftrightarrow> length (upcoming c) = 3) \<and>
    (pvm_code_get_int64 c = Inl Out_of_bounds \<longleftrightarrow> length (upcoming c) = 7) \<and>
    (\<forall>n. n \<le> length (upcoming c) \<longrightarrow> code_ok (at_IP (ch_IP c + n) c))"
proof (intro conjI)
  show "\<forall>n. n \<le> length (upcoming c) \<longrightarrow> code_ok (at_IP (ch_IP c + n) c)"
    using assms length_upcoming [OF assms] by (auto intro!: code_ok_at_IP)
qed (auto simp: get_byte_cases [OF assms] get_int32_cases [OF assms] get_int64_cases [OF assms]
    throw_bounds_def split: list.splits)

definition sample_code :: pvm_code_handler where
  "sample_code = \<lparr>ch_code = [0x23, 0, 0, 1, 0, 0x08], ch_IP = 1, ch_IP_max = 6\<rparr>"

theorem fetch_bounds_witness:
  "code_ok sample_code \<and> pvm_code_get_int32 sample_code = Inr (256, at_IP 5 sample_code) \<and>
   code_ok (at_IP 5 sample_code)"
proof -
  have ok: "code_ok sample_code" and len: "length (upcoming sample_code) = 5"
    by (simp_all add: sample_code_def code_ok_def upcoming_def)
  have "pvm_code_get_int32 sample_code = Inr (256, at_IP 5 sample_code)"
    by (simp add: get_int32_cases [OF ok] len)
      (simp add: sample_code_def upcoming_def pvm_code_do_get_int_def push_bit_eq_mult at_IP_def)
  moreover have "code_ok (at_IP (ch_IP sample_code + 4) sample_code)"
    using fetch_bounds [OF ok] len by simp
  ultimately show ?thesis using ok by (simp add: sample_code_def at_IP_def)
qed

end
