(* ===== verification/Opcodes.thy ===== *)
theory Opcodes
  imports Phantom_Prelude
begin

text \<open>
  The instruction codes of the virtual machine (\<^verbatim>\<open>phantom/vm/ids/opcode_ids.h\<close>), which the
  interpreter and the compiler share. The short forms of system calls and method calls
  are ranges that start at \<open>opcode_sys_0\<close> and \<open>opcode_call_00\<close>.
\<close>

definition opcode_nop :: u8 where "opcode_nop = 0x00"
definition opcode_debug :: u8 where "opcode_debug = 0x01"
definition opcode_djnz :: u8 where "opcode_djnz = 0x04"
definition opcode_jz :: u8 where "opcode_jz = 0x05"
definition opcode_jmp :: u8 where "opcode_jmp = 0x06"
definition opcode_switch :: u8 where "opcode_switch = 0x07"
definition opcode_ret :: u8 where "opcode_ret = 0x08"
definition opcode_short_call_0 :: u8 where "opcode_short_call_0 = 0x09"
definition opcode_short_call_1 :: u8 where "opcode_short_call_1 = 0x0A"
definition opcode_short_call_2 :: u8 where "opcode_short_call_2 = 0x0B"
definition opcode_short_call_3 :: u8 where "opcode_short_call_3 = 0x0C"
definition opcode_call_8bit :: u8 where "opcode_call_8bit = 0x0D"
definition opcode_call_32bit :: u8 where "opcode_call_32bit = 0x0E"
definition opcode_sys_8bit :: u8 where "opcode_sys_8bit = 0x0F"
definition opcode_is_dup :: u8 where "opcode_is_dup = 0x10"
definition opcode_is_drop :: u8 where "opcode_is_drop = 0x11"
definition opcode_os_dup :: u8 where "opcode_os_dup = 0x12"
definition opcode_os_drop :: u8 where "opcode_os_drop = 0x13"
definition opcode_os_load8 :: u8 where "opcode_os_load8 = 0x14"
definition opcode_os_save8 :: u8 where "opcode_os_save8 = 0x15"
definition opcode_os_load32 :: u8 where "opcode_os_load32 = 0x16"
definition opcode_os_save32 :: u8 where "opcode_os_save32 = 0x17"
definition opcode_new :: u8 where "opcode_new = 0x18"
definition opcode_copy :: u8 where "opcode_copy = 0x19"
definition opcode_os_compose32 :: u8 where "opcode_os_compose32 = 0x1A"
definition opcode_os_decompose :: u8 where "opcode_os_decompose = 0x1B"
definition opcode_os_pull32 :: u8 where "opcode_os_pull32 = 0x1C"
definition opcode_os_get32 :: u8 where "opcode_os_get32 = 0x1E"
definition opcode_os_set32 :: u8 where "opcode_os_set32 = 0x1F"
definition opcode_iconst_0 :: u8 where "opcode_iconst_0 = 0x20"
definition opcode_iconst_1 :: u8 where "opcode_iconst_1 = 0x21"
definition opcode_iconst_8bit :: u8 where "opcode_iconst_8bit = 0x22"
definition opcode_iconst_32bit :: u8 where "opcode_iconst_32bit = 0x23"
definition opcode_sconst_bin :: u8 where "opcode_sconst_bin = 0x24"
definition opcode_iconst_64bit :: u8 where "opcode_iconst_64bit = 0x25"
definition opcode_is_get32 :: u8 where "opcode_is_get32 = 0x26"
definition opcode_is_set32 :: u8 where "opcode_is_set32 = 0x27"
definition opcode_push_catcher :: u8 where "opcode_push_catcher = 0x2D"
definition opcode_pop_catcher :: u8 where "opcode_pop_catcher = 0x2E"
definition opcode_throw :: u8 where "opcode_throw = 0x2F"
definition opcode_summon_thread :: u8 where "opcode_summon_thread = 0x30"
definition opcode_summon_this :: u8 where "opcode_summon_this = 0x31"
definition opcode_summon_null :: u8 where "opcode_summon_null = 0x37"
definition opcode_summon_class_class :: u8 where "opcode_summon_class_class = 0x38"
definition opcode_summon_int_class :: u8 where "opcode_summon_int_class = 0x39"
definition opcode_summon_string_class :: u8 where "opcode_summon_string_class = 0x3A"
definition opcode_summon_interface_class :: u8 where "opcode_summon_interface_class = 0x3B"
definition opcode_summon_code_class :: u8 where "opcode_summon_code_class = 0x3C"
definition opcode_summon_array_class :: u8 where "opcode_summon_array_class = 0x3D"
definition opcode_summon_by_name :: u8 where "opcode_summon_by_name = 0x3F"
definition opcode_i2o :: u8 where "opcode_i2o = 0x40"
definition opcode_o2i :: u8 where "opcode_o2i = 0x41"
definition opcode_isum :: u8 where "opcode_isum = 0x42"
definition opcode_imul :: u8 where "opcode_imul = 0x43"
definition opcode_isubul :: u8 where "opcode_isubul = 0x44"
definition opcode_isublu :: u8 where "opcode_isublu = 0x45"
definition opcode_idivul :: u8 where "opcode_idivul = 0x46"
definition opcode_idivlu :: u8 where "opcode_idivlu = 0x47"
definition opcode_ior :: u8 where "opcode_ior = 0x48"
definition opcode_iand :: u8 where "opcode_iand = 0x49"
definition opcode_ixor :: u8 where "opcode_ixor = 0x4A"
definition opcode_inot :: u8 where "opcode_inot = 0x4B"
definition opcode_log_or :: u8 where "opcode_log_or = 0x4C"
definition opcode_log_and :: u8 where "opcode_log_and = 0x4D"
definition opcode_log_xor :: u8 where "opcode_log_xor = 0x4E"
definition opcode_log_not :: u8 where "opcode_log_not = 0x4F"
definition opcode_is_load8 :: u8 where "opcode_is_load8 = 0x50"
definition opcode_is_save8 :: u8 where "opcode_is_save8 = 0x51"
definition opcode_ige :: u8 where "opcode_ige = 0x52"
definition opcode_ile :: u8 where "opcode_ile = 0x53"
definition opcode_igt :: u8 where "opcode_igt = 0x54"
definition opcode_ilt :: u8 where "opcode_ilt = 0x55"
definition opcode_iremul :: u8 where "opcode_iremul = 0x56"
definition opcode_iremlu :: u8 where "opcode_iremlu = 0x57"
definition opcode_os_eq :: u8 where "opcode_os_eq = 0x58"
definition opcode_os_neq :: u8 where "opcode_os_neq = 0x59"
definition opcode_os_isnull :: u8 where "opcode_os_isnull = 0x5A"
definition opcode_prefix_long :: u8 where "opcode_prefix_long = 0x5C"
definition opcode_prefix_float :: u8 where "opcode_prefix_float = 0x5D"
definition opcode_prefix_double :: u8 where "opcode_prefix_double = 0x5E"
definition opcode_general_lock :: u8 where "opcode_general_lock = 0x62"
definition opcode_general_unlock :: u8 where "opcode_general_unlock = 0x63"
definition opcode_dynamic_invoke :: u8 where "opcode_dynamic_invoke = 0x6F"
definition opcode_ishl :: u8 where "opcode_ishl = 0x70"
definition opcode_ishr :: u8 where "opcode_ishr = 0x71"
definition opcode_ushr :: u8 where "opcode_ushr = 0x72"
definition opcode_sys_0 :: u8 where "opcode_sys_0 = 0x80"
definition opcode_call_00 :: u8 where "opcode_call_00 = 0xA0"

lemmas opcode_defs =
  opcode_nop_def opcode_debug_def opcode_djnz_def opcode_jz_def opcode_jmp_def opcode_switch_def
  opcode_ret_def opcode_short_call_0_def opcode_short_call_1_def opcode_short_call_2_def
  opcode_short_call_3_def opcode_call_8bit_def opcode_call_32bit_def opcode_sys_8bit_def
  opcode_is_dup_def opcode_is_drop_def opcode_os_dup_def opcode_os_drop_def opcode_os_load8_def
  opcode_os_save8_def opcode_os_load32_def opcode_os_save32_def opcode_new_def opcode_copy_def
  opcode_os_compose32_def opcode_os_decompose_def opcode_os_pull32_def opcode_os_get32_def
  opcode_os_set32_def opcode_iconst_0_def opcode_iconst_1_def opcode_iconst_8bit_def
  opcode_iconst_32bit_def opcode_sconst_bin_def opcode_iconst_64bit_def opcode_is_get32_def
  opcode_is_set32_def opcode_push_catcher_def opcode_pop_catcher_def opcode_throw_def
  opcode_summon_thread_def opcode_summon_this_def opcode_summon_null_def
  opcode_summon_class_class_def opcode_summon_int_class_def opcode_summon_string_class_def
  opcode_summon_interface_class_def opcode_summon_code_class_def opcode_summon_array_class_def
  opcode_summon_by_name_def opcode_i2o_def opcode_o2i_def opcode_isum_def opcode_imul_def
  opcode_isubul_def opcode_isublu_def opcode_idivul_def opcode_idivlu_def opcode_ior_def
  opcode_iand_def opcode_ixor_def opcode_inot_def opcode_log_or_def opcode_log_and_def
  opcode_log_xor_def opcode_log_not_def opcode_is_load8_def opcode_is_save8_def opcode_ige_def
  opcode_ile_def opcode_igt_def opcode_ilt_def opcode_iremul_def opcode_iremlu_def opcode_os_eq_def
  opcode_os_neq_def opcode_os_isnull_def opcode_prefix_long_def opcode_prefix_float_def
  opcode_prefix_double_def opcode_general_lock_def opcode_general_unlock_def
  opcode_dynamic_invoke_def opcode_ishl_def opcode_ishr_def opcode_ushr_def opcode_sys_0_def
  opcode_call_00_def

end
