(* ===== verification/Exec_Interp.thy ===== *)
theory Exec_Interp
  imports Object_Init Stack_Refine Code_Fetch Opcodes "HOL-Library.Signed_Division"
begin

text \<open>
  The bytecode interpreter (\<^verbatim>\<open>phantom/vm/exec.c\<close>): every instruction of the loop \<^verbatim>\<open>pvm_exec\<close>,
  method calls with the tail-call optimisation, returns, exceptions, system call dispatch
  and the search for methods and classes. A \<^verbatim>\<open>switch\<close> is a table of opcodes and actions; the
  local variables \<^verbatim>\<open>prefix_*\<close> of the loop are a record that each iteration passes on. The
  system calls themselves, the initialisation of windows and the bytes behind an object that
  \<^verbatim>\<open>pvm_copy_object\<close> reads are parameters (\<open>vm_ext\<close>).
  Requests for snapshots from other threads and the instruction listing that
  \<^verbatim>\<open>debug_print_instr\<close> switches on are left out.
\<close>

section \<open>Model\<close>

record vm_ext =
  x_ui_init :: "iclass \<Rightarrow> addr \<Rightarrow> unit vm"
  x_syscalls :: "nat \<Rightarrow> nat \<Rightarrow> (pvm_object \<Rightarrow> addr \<Rightarrow> bool vm) option"
  x_behind :: "addr \<Rightarrow> vm_state \<Rightarrow> pvm_object"

record exec_prefix =
  px_long :: bool
  px_float :: bool
  px_double :: bool

definition no_prefix :: exec_prefix where
  "no_prefix = \<lparr>px_long = False, px_float = False, px_double = False\<rparr>"

definition DO_TWICE :: "exec_prefix \<Rightarrow> bool" where
  "DO_TWICE px \<longleftrightarrow> px_long px \<or> px_double px"

subsection \<open>Access through the thread's shadow registers\<close>

text \<open>A fetch from the code the thread runs; \<open>da\<close> is the address of the thread object.\<close>

definition on_code :: "addr \<Rightarrow> 'a fetch \<Rightarrow> 'a vm" where
  "on_code da m = bindE (load_da as_thread da) (\<lambda>t.
     bindE (if th_code t = 0 then ret []
            else bindE (load_da as_code (th_code t)) (\<lambda>(n, bs). ret bs)) (\<lambda>bytes.
     case m \<lparr>ch_code = bytes, ch_IP = th_IP t, ch_IP_max = th_IP_max t\<rparr> of
       Inl e \<Rightarrow> raise e
     | Inr (x, c) \<Rightarrow> thenE (store_da da (DA_thread (t\<lparr>th_IP := ch_IP c\<rparr>))) (ret x)))"

definition set_IP :: "addr \<Rightarrow> nat \<Rightarrow> unit vm" where
  "set_IP da ip = bindE (load_da as_thread da) (\<lambda>t. store_da da (DA_thread (t\<lparr>th_IP := ip\<rparr>)))"

definition this_object :: "addr \<Rightarrow> pvm_object vm" where
  "this_object da = bindE (load_da as_thread da) (\<lambda>t. ret (th_this_object t))"

definition os_push :: "addr \<Rightarrow> pvm_object \<Rightarrow> unit vm" where
  "os_push da v = bindE (load_da as_thread da) (\<lambda>t. pvm_ostack_push (th_ostack t) v)"

definition os_pop :: "addr \<Rightarrow> pvm_object vm" where
  "os_pop da = bindE (load_da as_thread da) (\<lambda>t. pvm_ostack_pop (th_ostack t))"

definition os_top :: "addr \<Rightarrow> pvm_object vm" where
  "os_top da = bindE (load_da as_thread da) (\<lambda>t. pvm_ostack_top (th_ostack t))"

definition os_empty :: "addr \<Rightarrow> bool vm" where
  "os_empty da = bindE (load_da as_thread da) (\<lambda>t. pvm_ostack_empty (th_ostack t))"

definition os_pull :: "addr \<Rightarrow> int \<Rightarrow> pvm_object vm" where
  "os_pull da pos = bindE (load_da as_thread da) (\<lambda>t. pvm_ostack_pull (th_ostack t) pos)"

definition is_push :: "addr \<Rightarrow> i32 \<Rightarrow> unit vm" where
  "is_push da v = bindE (load_da as_thread da) (\<lambda>t. pvm_istack_push (th_istack t) v)"

definition is_pop :: "addr \<Rightarrow> i32 vm" where
  "is_pop da = bindE (load_da as_thread da) (\<lambda>t. pvm_istack_pop (th_istack t))"

definition is_top :: "addr \<Rightarrow> i32 vm" where
  "is_top da = bindE (load_da as_thread da) (\<lambda>t. pvm_istack_top (th_istack t))"

definition is_empty :: "addr \<Rightarrow> bool vm" where
  "is_empty da = bindE (load_da as_thread da) (\<lambda>t. pvm_istack_empty (th_istack t))"

definition ls_push :: "addr \<Rightarrow> i64 \<Rightarrow> unit vm" where
  "ls_push da v = bindE (load_da as_thread da) (\<lambda>t. pvm_lstack_push (th_istack t) v)"

definition ls_pop :: "addr \<Rightarrow> i64 vm" where
  "ls_pop da = bindE (load_da as_thread da) (\<lambda>t. pvm_lstack_pop (th_istack t))"

definition es_push :: "addr \<Rightarrow> pvm_exception_handler \<Rightarrow> unit vm" where
  "es_push da v = bindE (load_da as_thread da) (\<lambda>t. pvm_estack_push (th_estack t) v)"

definition es_pop :: "addr \<Rightarrow> pvm_exception_handler vm" where
  "es_pop da = bindE (load_da as_thread da) (\<lambda>t. pvm_estack_pop (th_estack t))"

definition es_empty :: "addr \<Rightarrow> bool vm" where
  "es_empty da = bindE (load_da as_thread da) (\<lambda>t. pvm_estack_empty (th_estack t))"

definition fetch_byte :: "addr \<Rightarrow> nat vm" where
  "fetch_byte da = bindE (on_code da pvm_code_get_byte) (\<lambda>b. ret (unat b))"

definition fetch_int32 :: "addr \<Rightarrow> i32 vm" where
  "fetch_int32 da = on_code da pvm_code_get_int32"

definition fetch_string :: "addr \<Rightarrow> pvm_object vm" where
  "fetch_string da = bindE (on_code da pvm_code_get_string) (\<lambda>bs.
     pvm_create_string_object_binary (Some bs) (length bs))"

definition pvm_get_int :: "pvm_object \<Rightarrow> i32 vm" where
  "pvm_get_int r = load_da as_int (ob_data r)"

definition pvm_get_long :: "pvm_object \<Rightarrow> i64 vm" where
  "pvm_get_long r = load_da as_long (ob_data r)"

subsection \<open>Workers\<close>

definition pvm_exec_load :: "addr \<Rightarrow> nat \<Rightarrow> unit vm" where
  "pvm_exec_load da slot = bindE (this_object da) (\<lambda>this. bindE (pvm_get_ofield this slot) (\<lambda>r.
     bindE (ref_inc_o r) (os_push da)))"

definition pvm_exec_save :: "addr \<Rightarrow> nat \<Rightarrow> unit vm" where
  "pvm_exec_save da slot = bindE (this_object da) (\<lambda>this. bindE (os_pop da) (\<lambda>v.
     pvm_set_ofield this slot v))"

definition pvm_exec_iload :: "addr \<Rightarrow> nat \<Rightarrow> unit vm" where
  "pvm_exec_iload da slot = bindE (this_object da) (\<lambda>this. bindE (pvm_get_ofield this slot) (\<lambda>r.
     bindE (pvm_get_int r) (is_push da)))"

definition pvm_exec_isave :: "addr \<Rightarrow> nat \<Rightarrow> unit vm" where
  "pvm_exec_isave da slot = bindE (this_object da) (\<lambda>this. bindE (is_pop da) (\<lambda>v.
     bindE (pvm_create_int_object v) (\<lambda>r. pvm_set_ofield this slot r)))"

definition pvm_exec_get :: "addr \<Rightarrow> nat \<Rightarrow> unit vm" where
  "pvm_exec_get da pos = bindE (load_da as_thread da) (\<lambda>t. bindE (pvm_ostack_abs_get (th_ostack t) pos) (\<lambda>r.
     bindE (ref_inc_o r) (os_push da)))"

definition pvm_exec_set :: "addr \<Rightarrow> nat \<Rightarrow> unit vm" where
  "pvm_exec_set da pos = bindE (load_da as_thread da) (\<lambda>t. bindE (os_pop da) (\<lambda>v.
     pvm_ostack_abs_set (th_ostack t) pos v))"

definition pvm_exec_iget :: "addr \<Rightarrow> nat \<Rightarrow> unit vm" where
  "pvm_exec_iget da pos = bindE (load_da as_thread da) (\<lambda>t.
     bindE (pvm_istack_abs_get (th_istack t) pos) (is_push da))"

definition pvm_exec_iset :: "addr \<Rightarrow> nat \<Rightarrow> unit vm" where
  "pvm_exec_iset da pos = bindE (load_da as_thread da) (\<lambda>t. bindE (is_pop da) (\<lambda>v.
     pvm_istack_abs_set (th_istack t) pos v))"

subsection \<open>Frames, returns and exceptions\<close>

definition free_call_frame :: "pvm_object \<Rightarrow> addr \<Rightarrow> unit vm" where
  "free_call_frame cf da = bindE (load_da as_call_frame (ob_data cf)) (\<lambda>f.
     thenE (store_da (ob_data cf) (DA_call_frame (f\<lparr>cf_prev := (cf_prev f)\<lparr>ob_data := 0\<rparr>\<rparr>)))
    (thenE (ref_dec_o cf)
    (bindE (load_da as_thread da) (\<lambda>t.
     store_da da (DA_thread (t\<lparr>th_stack_depth := th_stack_depth t - 1\<rparr>))))))"

text \<open>The thread continues in the frame \<open>cf\<close>.\<close>

definition enter_frame :: "addr \<Rightarrow> pvm_object \<Rightarrow> unit vm" where
  "enter_frame da cf = bindE (load_da as_thread da) (\<lambda>t.
     thenE (store_da da (DA_thread (t\<lparr>th_call_frame := cf\<rparr>))) (pvm_exec_load_fast_acc da))"

definition prev_frame :: "addr \<Rightarrow> pvm_object vm" where
  "prev_frame da = bindE (load_da as_thread da) (\<lambda>t.
     bindE (load_da as_call_frame (ob_data (th_call_frame t))) (\<lambda>cf. ret (cf_prev cf)))"

definition curr_frame :: "addr \<Rightarrow> pvm_object vm" where
  "curr_frame da = bindE (load_da as_thread da) (\<lambda>t. ret (th_call_frame t))"

definition pvm_exec_do_return :: "addr \<Rightarrow> unit vm" where
  "pvm_exec_do_return da = bindE (prev_frame da) (\<lambda>r.
     bindE (os_empty da) (\<lambda>empty.
     bindE (if empty then pvm_create_null_object else os_pop da) (\<lambda>return_val.
     bindE (curr_frame da) (\<lambda>cf.
     thenE (free_call_frame cf da)
    (thenE (enter_frame da r)
    (os_push da return_val))))))"

definition catch_comparator :: "pvm_object \<Rightarrow> pvm_exception_handler \<Rightarrow> nat option vm" where
  "catch_comparator thrown test = bindE (pvm_object_class_is thrown (eh_object test)) (\<lambda>b.
     ret (if b then Some (eh_jump test) else None))"

definition pvm_exec_find_catch :: "addr \<Rightarrow> pvm_object \<Rightarrow> nat option vm" where
  "pvm_exec_find_catch stack thrown_obj = pvm_estack_foreach stack (catch_comparator thrown_obj)"

primrec unwind :: "nat \<Rightarrow> addr \<Rightarrow> pvm_object \<Rightarrow> nat vm" where
  "unwind 0 da thrown_obj = raise Diverges"
| "unwind (Suc n) da thrown_obj = bindE (load_da as_thread da) (\<lambda>t.
     bindE (pvm_exec_find_catch (th_estack t) thrown_obj) (\<lambda>found. case found of
       Some jump_to \<Rightarrow> ret jump_to
     | None \<Rightarrow> bindE (prev_frame da) (\<lambda>r. bindE (gets (\<lambda>s. pvm_is_null s r)) (\<lambda>isnull.
         if isnull then raise (Exec_panic ''unwind: nowhere to return'')
         else bindE (curr_frame da) (\<lambda>cf.
           thenE (free_call_frame cf da) (thenE (enter_frame da r) (unwind n da thrown_obj)))))))"

text \<open>Every round frees a frame, so there are at most as many rounds as objects.\<close>

definition pvm_exec_do_throw :: "addr \<Rightarrow> unit vm" where
  "pvm_exec_do_throw da = bindE (os_pop da) (\<lambda>thrown_obj.
     bindE (gets ref_dec_fuel) (\<lambda>fuel. bindE (unwind fuel da thrown_obj) (\<lambda>jump_to.
     thenE (set_IP da jump_to) (os_push da thrown_obj))))"

subsection \<open>System calls and methods\<close>

definition pvm_exec_find_syscall ::
    "vm_ext \<Rightarrow> pvm_object \<Rightarrow> nat \<Rightarrow> (pvm_object \<Rightarrow> addr \<Rightarrow> bool vm) option vm" where
  "pvm_exec_find_syscall X cls syscall_index = bindE (load (ob_data cls)) (\<lambda>ob.
     if \<not> has_flag (o_flags ob) IS_CLASS
     then raise (Exec_panic ''pvm_exec_find_syscall: not a class object'')
     else bindE (of_view (as_class (o_da ob))) (\<lambda>da.
       if cl_sys_table_id da < pvm_n_internal_classes
       then ret (x_syscalls X (cl_sys_table_id da) syscall_index)
       else raise Out_of_bounds))"

definition pvm_exec_sys :: "vm_ext \<Rightarrow> addr \<Rightarrow> nat \<Rightarrow> unit vm" where
  "pvm_exec_sys X da syscall_index = bindE (this_object da) (\<lambda>this.
     bindE (load (ob_data this)) (\<lambda>ob.
     bindE (pvm_exec_find_syscall X (o_class ob) syscall_index) (\<lambda>func. case func of
       None \<Rightarrow> ret ()
     | Some f \<Rightarrow> bindE (f this da) (\<lambda>ok. whenE (\<not> ok) (pvm_exec_do_throw da)))))"

definition interface_of :: "pvm_object \<Rightarrow> addr vm" where
  "interface_of r =
     (if ob_interface r \<noteq> 0 then ret (ob_interface r)
      else bindE (load (ob_data r)) (\<lambda>ob.
        if ob_data (o_class ob) = 0
        then raise (Exec_panic ''pvm_exec_find_method: no interface and no class!'')
        else bindE (load_da as_class (ob_data (o_class ob))) (\<lambda>cda.
          ret (ob_data (cl_object_default_interface cda)))))"

text \<open>
  The bounds test is \<^verbatim>\<open>method_index > limit\<close>: the index that equals the number of methods
  passes and reads behind the interface's slots.
\<close>

definition pvm_exec_find_method :: "pvm_object \<Rightarrow> nat \<Rightarrow> addr vm" where
  "pvm_exec_find_method r method_index =
     (if ob_data r = 0 then raise (Exec_panic ''pvm_exec_find_method: null object!'')
      else bindE (interface_of r) (\<lambda>iface.
        if iface = 0 then raise (Exec_panic ''pvm_exec_find_method: no interface found'')
        else bindE (load iface) (\<lambda>iob.
          if \<not> has_flag (o_flags iob) IS_INTERFACE
          then raise (Exec_panic ''pvm_exec_find_method: not an interface object'')
          else if method_index > da_po_limit iob
          then raise (Exec_panic ''pvm_exec_find_method: method index is out of bounds'')
          else bindE (slots_of iob) (\<lambda>xs.
            if method_index < length xs then ret (ob_data (xs ! method_index))
            else raise Out_of_bounds))))"

definition pvm_exec_set_cs :: "addr \<Rightarrow> addr \<Rightarrow> unit vm" where
  "pvm_exec_set_cs cfda code = bindE (load_da as_code code) (\<lambda>(code_size, bytes).
     bindE (load_da as_call_frame cfda) (\<lambda>cf.
     store_da cfda (DA_call_frame (cf\<lparr>cf_IP := 0, cf_IP_max := code_size, cf_code := code\<rparr>))))"

text \<open>The arguments move from the caller's stack to the places reserved on the callee's.\<close>

definition init_cfda :: "addr \<Rightarrow> addr \<Rightarrow> nat \<Rightarrow> nat \<Rightarrow> pvm_object \<Rightarrow> unit vm" where
  "init_cfda da cfda method_index n_param new_this =
     bindE (load_da as_call_frame cfda) (\<lambda>cf.
     thenE (store_da cfda (DA_call_frame (cf\<lparr>cf_ordinal := method_index\<rparr>)))
    (bindE (root R_null_object) (\<lambda>null.
     thenE (iterE (\<lambda>i. pvm_ostack_push (ob_data (cf_ostack cf)) null) (rev [0..<n_param]))
    (thenE (iterE (\<lambda>i. bindE (os_pop da) (\<lambda>v. pvm_ostack_abs_set (ob_data (cf_ostack cf)) i v)) (rev [0..<n_param]))
    (thenE (pvm_istack_push (ob_data (cf_istack cf)) (word_of_nat n_param))
    (bindE (gets (\<lambda>s. pvm_is_null s new_this)) (\<lambda>isnull.
     bindE (if isnull then os_pop da else ret new_this) (\<lambda>new_this.
     bindE (pvm_exec_find_method new_this method_index) (\<lambda>code.
     thenE (assertE ''code != 0'' (code \<noteq> 0))
    (thenE (pvm_exec_set_cs cfda code)
    (bindE (load_da as_call_frame cfda) (\<lambda>cf.
     store_da cfda (DA_call_frame (cf\<lparr>cf_this_object := new_this\<rparr>))))))))))))))"

text \<open>Whether the instructions after the call return at once, so that the frame can be dropped.\<close>

definition returns_at_once :: "addr \<Rightarrow> bool \<Rightarrow> bool vm" where
  "returns_at_once da do_optimize_ret =
     bindE (on_code da pvm_code_get_byte_speculative) (\<lambda>b1.
     bindE (if b1 = opcode_os_drop
            then bindE (on_code da pvm_code_get_byte_speculative2) (\<lambda>b2. ret (b2 = opcode_ret))
            else ret False) (\<lambda>drop_ret.
     if drop_ret then ret True
     else bindE (on_code da pvm_code_get_byte_speculative) (\<lambda>b.
       ret (b = opcode_ret \<and> do_optimize_ret))))"

definition pvm_exec_call :: "addr \<Rightarrow> nat \<Rightarrow> nat \<Rightarrow> bool \<Rightarrow> pvm_object \<Rightarrow> unit vm" where
  "pvm_exec_call da method_index n_param do_optimize_ret new_this =
     bindE (returns_at_once da do_optimize_ret) (\<lambda>tail.
     bindE (if tail then es_empty da else ret False) (\<lambda>optimize_stack.
     thenE (pvm_exec_save_fast_acc da)
    (bindE pvm_create_call_frame_object (\<lambda>new_cf.
     thenE (init_cfda da (ob_data new_cf) method_index n_param new_this)
    (bindE (curr_frame da) (\<lambda>cf. bindE (prev_frame da) (\<lambda>pf.
     bindE (load_da as_call_frame (ob_data new_cf)) (\<lambda>f.
     thenE (store_da (ob_data new_cf)
              (DA_call_frame (f\<lparr>cf_prev := (if optimize_stack then pf else cf)\<rparr>)))
    (thenE (whenE optimize_stack (free_call_frame cf da))
    (bindE (load_da as_thread da) (\<lambda>t.
     thenE (store_da da (DA_thread (t\<lparr>th_stack_depth := th_stack_depth t + 1\<rparr>)))
    (enter_frame da new_cf))))))))))))"

text \<open>\<open>exec\<close> is \<^verbatim>\<open>pvm_exec\<close>.\<close>

definition pvm_exec_run_method ::
    "(pvm_object \<Rightarrow> unit vm) \<Rightarrow> pvm_object \<Rightarrow> nat \<Rightarrow> pvm_object list \<Rightarrow> pvm_object vm" where
  "pvm_exec_run_method exec this method args = bindE pvm_create_call_frame_object (\<lambda>new_cf.
     bindE (load_da as_call_frame (ob_data new_cf)) (\<lambda>cf.
     thenE (iterE (\<lambda>a. bindE (ref_inc_o a) (\<lambda>a. pvm_ostack_push (ob_data (cf_ostack cf)) a)) (rev args))
    (thenE (pvm_istack_push (ob_data (cf_istack cf)) (word_of_nat (length args)))
    (bindE (pvm_exec_find_method this method) (\<lambda>code.
     thenE (pvm_exec_set_cs (ob_data new_cf) code)
    (bindE (ref_inc_o this) (\<lambda>this.
     bindE (load_da as_call_frame (ob_data new_cf)) (\<lambda>cf.
     thenE (store_da (ob_data new_cf) (DA_call_frame (cf\<lparr>cf_this_object := this\<rparr>)))
    (bindE (pvm_create_thread_object new_cf) (\<lambda>thread.
     thenE (exec thread)
    (bindE (load_da as_call_frame (ob_data new_cf)) (\<lambda>cf.
     bindE (pvm_ostack_pop (ob_data (cf_ostack cf))) (\<lambda>r.
     thenE (pvm_release_thread_object thread) (ret r))))))))))))))"

definition pvm_exec_lookup_class_by_name :: "(pvm_object \<Rightarrow> unit vm) \<Rightarrow> pvm_object \<Rightarrow> pvm_object vm" where
  "pvm_exec_lookup_class_by_name exec name = bindE (pvm_lookup_internal_class name) (\<lambda>r.
     bindE (gets (\<lambda>s. pvm_is_null s r)) (\<lambda>isnull.
     if \<not> isnull then ret r
     else bindE (root R_class_loader) (\<lambda>cl. bindE (gets (\<lambda>s. pvm_is_null s cl)) (\<lambda>noloader.
       if noloader then pvm_create_null_object
       else pvm_exec_run_method exec cl 8 [name]))))"

text \<open>The class of the object that is asked and the method's ordinal, or \<^verbatim>\<open>ENOENT\<close>.\<close>

definition find_dynamic_method :: "pvm_object \<Rightarrow> pvm_object \<Rightarrow> nat option vm" where
  "find_dynamic_method new_this method_name = bindE (gets (\<lambda>s. pvm_is_null s new_this)) (\<lambda>isnull.
     bindE (if isnull then pvm_create_null_object else pvm_get_class new_this) (\<lambda>target_class.
     bindE (gets (\<lambda>s. pvm_is_null s target_class)) (\<lambda>noclass.
     if noclass then ret None
     else bindE (pvm_get_method_ordinal target_class method_name) (\<lambda>ord.
       ret (if ord < 0 then None else Some (nat ord))))))"

subsection \<open>Arithmetic\<close>

text \<open>
  The processor takes the shift count modulo the width and traps on division by zero
  and on the one quotient that does not fit.
\<close>

definition c_shl :: "'a::len word \<Rightarrow> i32 \<Rightarrow> 'a word" where
  "c_shl v n = push_bit (unat n mod LENGTH('a)) v"

definition c_shr :: "'a::len word \<Rightarrow> i32 \<Rightarrow> 'a word" where
  "c_shr v n = signed_drop_bit (unat n mod LENGTH('a)) v"

definition c_ushr :: "'a::len word \<Rightarrow> i32 \<Rightarrow> 'a word" where
  "c_ushr v n = drop_bit (unat n mod LENGTH('a)) v"

definition c_div :: "'a::len word \<Rightarrow> 'a word \<Rightarrow> 'a word vm" where
  "c_div a b =
     (if b = 0 \<or> sint a sdiv sint b \<ge> 2 ^ (LENGTH('a) - 1) then raise Div_error
      else ret (word_of_int (sint a sdiv sint b)))"

definition is_binop :: "addr \<Rightarrow> (i32 \<Rightarrow> i32 \<Rightarrow> i32 vm) \<Rightarrow> unit vm" where
  "is_binop da f = bindE (is_pop da) (\<lambda>top. bindE (is_pop da) (\<lambda>nxt. bindE (f top nxt) (is_push da)))"

definition is_unop :: "addr \<Rightarrow> (i32 \<Rightarrow> i32) \<Rightarrow> unit vm" where
  "is_unop da f = bindE (is_pop da) (\<lambda>v. is_push da (f v))"

definition ls_binop :: "addr \<Rightarrow> (i64 \<Rightarrow> i64 \<Rightarrow> i64 vm) \<Rightarrow> unit vm" where
  "ls_binop da f = bindE (ls_pop da) (\<lambda>top. bindE (ls_pop da) (\<lambda>nxt. bindE (f top nxt) (ls_push da)))"

definition ls_shift :: "addr \<Rightarrow> (i64 \<Rightarrow> i32 \<Rightarrow> i64) \<Rightarrow> unit vm" where
  "ls_shift da f = bindE (ls_pop da) (\<lambda>v. bindE (is_pop da) (\<lambda>n. ls_push da (f v n)))"

definition ls_unop :: "addr \<Rightarrow> (i64 \<Rightarrow> i64) \<Rightarrow> unit vm" where
  "ls_unop da f = bindE (ls_pop da) (\<lambda>v. ls_push da (f v))"

definition ls_test :: "addr \<Rightarrow> (i64 \<Rightarrow> i64 \<Rightarrow> bool) \<Rightarrow> unit vm" where
  "ls_test da P = bindE (ls_pop da) (\<lambda>top. bindE (ls_pop da) (\<lambda>nxt. is_push da (of_bool (P nxt top))))"

text \<open>The 64-bit operations a \<^verbatim>\<open>long\<close> prefix selects.\<close>

definition long_ops :: "addr \<Rightarrow> (u8 \<times> unit vm) list" where
  "long_ops da =
    [(opcode_ishl, ls_shift da c_shl),
     (opcode_ishr, ls_shift da c_shr),
     (opcode_ushr, ls_shift da c_ushr),
     (opcode_isum, ls_binop da (\<lambda>add nxt. ret (nxt + add))),
     (opcode_imul, ls_binop da (\<lambda>mul nxt. ret (nxt * mul))),
     (opcode_isubul, ls_binop da (\<lambda>u l. ret (u - l))),
     (opcode_isublu, ls_binop da (\<lambda>u l. ret (l - u))),
     (opcode_idivul, ls_binop da (\<lambda>u l. c_div u l)),
     (opcode_idivlu, ls_binop da (\<lambda>u l. c_div l u)),
     (opcode_ior, ls_binop da (\<lambda>operand nxt. ret (nxt OR operand))),
     (opcode_iand, ls_binop da (\<lambda>operand nxt. ret (nxt AND operand))),
     (opcode_ixor, ls_binop da (\<lambda>operand nxt. ret (nxt XOR operand))),
     (opcode_inot, ls_unop da NOT),
     (opcode_log_or, ls_binop da (\<lambda>o1 o2. ret (of_bool (o1 \<noteq> 0 \<or> o2 \<noteq> 0)))),
     (opcode_log_and, ls_binop da (\<lambda>o1 o2. ret (of_bool (o1 \<noteq> 0 \<and> o2 \<noteq> 0)))),
     (opcode_log_xor, ls_binop da (\<lambda>o1 o2. ret (of_bool ((o1 \<noteq> 0) \<noteq> (o2 \<noteq> 0))))),
     (opcode_log_not, ls_unop da (\<lambda>operand. of_bool (operand = 0))),
     (opcode_ige, ls_test da (\<lambda>a b. sint a \<ge> sint b)),
     (opcode_ile, ls_test da (\<lambda>a b. sint a \<le> sint b)),
     (opcode_igt, ls_test da (\<lambda>a b. sint a > sint b)),
     (opcode_ilt, ls_test da (\<lambda>a b. sint a < sint b)),
     (opcode_i2o, bindE (ls_pop da) (\<lambda>v. bindE (pvm_create_long_object v) (os_push da))),
     (opcode_o2i, bindE (os_pop da) (\<lambda>r.
        if ob_data r = 0 then raise (Exec_panic ''l-o2i(null)'')
        else bindE (pvm_get_long r) (\<lambda>v. thenE (ls_push da v) (ref_dec_o r))))]"

subsection \<open>The instructions\<close>

definition exec_debug :: "addr \<Rightarrow> unit vm" where
  "exec_debug da = bindE (fetch_byte da) (\<lambda>typ.
     thenE (whenE (bit typ 7) (bindE (fetch_string da) ref_dec_o))
    (bindE (is_empty da) (\<lambda>ie. thenE (if ie then ret () else bindE (is_top da) (\<lambda>_. ret ()))
    (bindE (os_empty da) (\<lambda>oe. if oe then ret () else bindE (os_top da) (\<lambda>_. ret ()))))))"

definition misc_ops :: "addr \<Rightarrow> (u8 \<times> unit vm) list" where
  "misc_ops da =
    [(opcode_nop, ret ()),
     (opcode_debug, exec_debug da),
     (opcode_general_lock, bindE (os_pop da) (\<lambda>lock_obj. ret ())),
     (opcode_general_unlock, bindE (os_pop da) (\<lambda>lock_obj. ret ()))]"

definition istack_ops :: "exec_prefix \<Rightarrow> addr \<Rightarrow> (u8 \<times> unit vm) list" where
  "istack_ops px da =
    [(opcode_is_dup,
        if DO_TWICE px
        then bindE (is_pop da) (\<lambda>i1. bindE (is_pop da) (\<lambda>i2.
             thenE (is_push da i1) (thenE (is_push da i2) (thenE (is_push da i1) (is_push da i2)))))
        else bindE (is_top da) (is_push da)),
     (opcode_is_drop, bindE (is_pop da) (\<lambda>_. if DO_TWICE px then bindE (is_pop da) (\<lambda>_. ret ()) else ret ())),
     (opcode_iconst_0, thenE (is_push da 0) (whenE (DO_TWICE px) (is_push da 0))),
     (opcode_iconst_1, thenE (is_push da 1) (whenE (DO_TWICE px) (is_push da 1))),
     (opcode_iconst_8bit, bindE (fetch_byte da) (\<lambda>v.
        if DO_TWICE px then ls_push da (word_of_nat v) else is_push da (word_of_nat v))),
     (opcode_iconst_32bit, bindE (fetch_int32 da) (\<lambda>v.
        if DO_TWICE px then ls_push da (scast v) else is_push da v)),
     (opcode_iconst_64bit, bindE (on_code da pvm_code_get_int64) (ls_push da))]"

definition arith_ops :: "addr \<Rightarrow> (u8 \<times> unit vm) list" where
  "arith_ops da =
    [(opcode_ishl, is_binop da (\<lambda>val n. ret (c_shl val n))),
     (opcode_ishr, is_binop da (\<lambda>val n. ret (c_shr val n))),
     (opcode_ushr, is_binop da (\<lambda>val n. ret (c_ushr val n))),
     (opcode_isum, is_binop da (\<lambda>add nxt. ret (nxt + add))),
     (opcode_imul, is_binop da (\<lambda>mul nxt. ret (nxt * mul))),
     (opcode_isubul, is_binop da (\<lambda>u l. ret (u - l))),
     (opcode_isublu, is_binop da (\<lambda>u l. ret (l - u))),
     (opcode_idivul, is_binop da (\<lambda>u l. c_div u l)),
     (opcode_idivlu, is_binop da (\<lambda>u l. c_div l u)),
     (opcode_ior, is_binop da (\<lambda>operand nxt. ret (nxt OR operand))),
     (opcode_iand, is_binop da (\<lambda>operand nxt. ret (nxt AND operand))),
     (opcode_ixor, is_binop da (\<lambda>operand nxt. ret (nxt XOR operand))),
     (opcode_inot, is_unop da NOT),
     (opcode_log_or, is_binop da (\<lambda>o1 o2. ret (of_bool (o1 \<noteq> 0 \<or> o2 \<noteq> 0)))),
     (opcode_log_and, is_binop da (\<lambda>o1 o2. ret (of_bool (o1 \<noteq> 0 \<and> o2 \<noteq> 0)))),
     (opcode_log_xor, is_binop da (\<lambda>o1 o2. ret (of_bool ((o1 \<noteq> 0) \<noteq> (o2 \<noteq> 0))))),
     (opcode_log_not, is_unop da (\<lambda>operand. of_bool (operand = 0))),
     (opcode_ige, is_binop da (\<lambda>operand nxt. ret (of_bool (sint nxt \<ge> sint operand)))),
     (opcode_ile, is_binop da (\<lambda>operand nxt. ret (of_bool (sint nxt \<le> sint operand)))),
     (opcode_igt, is_binop da (\<lambda>operand nxt. ret (of_bool (sint nxt > sint operand)))),
     (opcode_ilt, is_binop da (\<lambda>operand nxt. ret (of_bool (sint nxt < sint operand))))]"

text \<open>Two objects are popped, compared by address and released.\<close>

definition os_compare :: "addr \<Rightarrow> (addr \<Rightarrow> addr \<Rightarrow> bool) \<Rightarrow> unit vm" where
  "os_compare da P = bindE (os_pop da) (\<lambda>o1. bindE (os_pop da) (\<lambda>o2.
     thenE (is_push da (of_bool (P (ob_data o1) (ob_data o2))))
    (thenE (ref_dec_o o1) (ref_dec_o o2))))"

definition convert_ops :: "addr \<Rightarrow> (u8 \<times> unit vm) list" where
  "convert_ops da =
    [(opcode_i2o, bindE (is_pop da) (\<lambda>v. bindE (pvm_create_int_object v) (os_push da))),
     (opcode_o2i, bindE (os_pop da) (\<lambda>r.
        if ob_data r = 0 then raise (Exec_panic ''o2i(null)'')
        else bindE (pvm_get_int r) (\<lambda>v. thenE (is_push da v) (ref_dec_o r)))),
     (opcode_os_eq, os_compare da (=)),
     (opcode_os_neq, os_compare da (\<noteq>)),
     (opcode_os_isnull, bindE (os_pop da) (\<lambda>o1. bindE (gets (\<lambda>s. pvm_is_null s o1)) (\<lambda>b.
        thenE (is_push da (of_bool b)) (ref_dec_o o1))))]"

definition summon :: "addr \<Rightarrow> root_slot \<Rightarrow> unit vm" where
  "summon da r = bindE (root r) (os_push da)"

definition summon_ops :: "vm_ext \<Rightarrow> (pvm_object \<Rightarrow> unit vm) \<Rightarrow> pvm_object \<Rightarrow> (u8 \<times> unit vm) list" where
  "summon_ops X exec current_thread = (let da = ob_data current_thread in
    [(opcode_summon_null, summon da R_null_object),
     (opcode_summon_thread, bindE (ref_inc_o current_thread) (os_push da)),
     (opcode_summon_this, bindE (this_object da) (\<lambda>this. bindE (ref_inc_o this) (os_push da))),
     (opcode_summon_class_class, summon da R_class_class),
     (opcode_summon_interface_class, summon da R_interface_class),
     (opcode_summon_code_class, summon da R_code_class),
     (opcode_summon_int_class, summon da R_int_class),
     (opcode_summon_string_class, summon da R_string_class),
     (opcode_summon_array_class, summon da R_array_class),
     (opcode_summon_by_name, bindE (fetch_string da) (\<lambda>name.
        bindE (pvm_exec_lookup_class_by_name exec name) (\<lambda>cl.
        thenE (ref_dec_o name)
       (bindE (gets (\<lambda>s. pvm_is_null s cl)) (\<lambda>isnull.
          if isnull then raise (Exec_panic ''summon by name: null class'')
          else os_push da cl))))),
     (opcode_new, bindE (os_pop da) (\<lambda>cl. bindE (pvm_create_object (x_ui_init X) cl) (os_push da))),
     (opcode_copy, bindE (os_pop da) (\<lambda>r. bindE (pvm_copy_object (x_behind X) r) (\<lambda>c.
        thenE (os_push da c) (ref_dec_o r)))),
     (opcode_sconst_bin, bindE (fetch_string da) (os_push da))])"

definition exec_djnz :: "addr \<Rightarrow> unit vm" where
  "exec_djnz da = bindE (on_code da pvm_code_get_rel_IP_as_abs) (\<lambda>new_IP.
     bindE (is_pop da) (\<lambda>v. thenE (is_push da (v - 1))
    (bindE (is_top da) (\<lambda>top. whenE (top \<noteq> 0) (set_IP da new_IP)))))"

definition exec_switch :: "addr \<Rightarrow> unit vm" where
  "exec_switch da = bindE (fetch_int32 da) (\<lambda>tabsize. bindE (fetch_int32 da) (\<lambda>shift.
     bindE (fetch_int32 da) (\<lambda>divisor. bindE (is_pop da) (\<lambda>stack_top.
     bindE (load_da as_thread da) (\<lambda>t.
     if divisor = 0 then raise Div_error
     else let start_table_IP = word_of_nat (th_IP t) :: i32;
              displ = (stack_top + shift) div divisor;
              new_IP = start_table_IP + tabsize * 4
          in if displ < tabsize
             then thenE (set_IP da (unat (start_table_IP + displ * 4)))
                 (bindE (on_code da pvm_code_get_rel_IP_as_abs) (set_IP da))
             else set_IP da (unat new_IP))))))"

definition flow_ops :: "addr \<Rightarrow> (u8 \<times> unit vm) list" where
  "flow_ops da =
    [(opcode_jmp, bindE (on_code da pvm_code_get_rel_IP_as_abs) (set_IP da)),
     (opcode_djnz, exec_djnz da),
     (opcode_jz, bindE (on_code da pvm_code_get_rel_IP_as_abs) (\<lambda>new_IP.
        bindE (is_pop da) (\<lambda>test. whenE (test = 0) (set_IP da new_IP)))),
     (opcode_switch, exec_switch da),
     (opcode_throw, pvm_exec_do_throw da),
     (opcode_push_catcher, bindE (on_code da pvm_code_get_rel_IP_as_abs) (\<lambda>ad.
        bindE (os_pop da) (\<lambda>r. es_push da \<lparr>eh_object = r, eh_jump = ad\<rparr>))),
     (opcode_pop_catcher, bindE (es_pop da) (\<lambda>h. ref_dec_o (eh_object h)))]"

definition short_call :: "addr \<Rightarrow> nat \<Rightarrow> unit vm" where
  "short_call da n = bindE pvm_create_null_object (\<lambda>null. pvm_exec_call da n 0 True null)"

definition exec_dynamic_invoke :: "addr \<Rightarrow> unit vm" where
  "exec_dynamic_invoke da = bindE (os_pop da) (\<lambda>method_name. bindE (os_pop da) (\<lambda>new_this.
     bindE (os_pop da) (\<lambda>np. bindE (pvm_get_int np) (\<lambda>n_param.
     bindE (find_dynamic_method new_this method_name) (\<lambda>ord. case ord of
       None \<Rightarrow> raise (Exec_panic ''dynamic invoke failed'')
     | Some m \<Rightarrow> pvm_exec_call da m (unat n_param) True new_this)))))"

definition call_ops :: "addr \<Rightarrow> (u8 \<times> unit vm) list" where
  "call_ops da =
    [(opcode_short_call_0, short_call da 0),
     (opcode_short_call_1, short_call da 1),
     (opcode_short_call_2, short_call da 2),
     (opcode_short_call_3, short_call da 3),
     (opcode_call_8bit, bindE (fetch_byte da) (\<lambda>m. bindE (fetch_int32 da) (\<lambda>n.
        bindE pvm_create_null_object (\<lambda>null. pvm_exec_call da m (unat n) True null)))),
     (opcode_call_32bit, bindE (fetch_int32 da) (\<lambda>m. bindE (fetch_int32 da) (\<lambda>n.
        bindE pvm_create_null_object (\<lambda>null. pvm_exec_call da (unat m) (unat n) True null)))),
     (opcode_dynamic_invoke, exec_dynamic_invoke da)]"

definition ostack_ops :: "addr \<Rightarrow> (u8 \<times> unit vm) list" where
  "ostack_ops da =
    [(opcode_os_dup, bindE (os_top da) (\<lambda>r. bindE (ref_inc_o r) (os_push da))),
     (opcode_os_drop, bindE (os_pop da) ref_dec_o),
     (opcode_os_pull32, bindE (fetch_int32 da) (\<lambda>n. bindE (os_pull da (sint n)) (\<lambda>r.
        bindE (ref_inc_o r) (os_push da)))),
     (opcode_os_load8, bindE (fetch_byte da) (pvm_exec_load da)),
     (opcode_os_load32, bindE (fetch_int32 da) (\<lambda>n. pvm_exec_load da (unat n))),
     (opcode_os_save8, bindE (fetch_byte da) (pvm_exec_save da)),
     (opcode_os_save32, bindE (fetch_int32 da) (\<lambda>n. pvm_exec_save da (unat n))),
     (opcode_is_load8, bindE (fetch_byte da) (pvm_exec_iload da)),
     (opcode_is_save8, bindE (fetch_byte da) (pvm_exec_isave da)),
     (opcode_os_get32, bindE (fetch_int32 da) (\<lambda>n. pvm_exec_get da (unat n))),
     (opcode_os_set32, bindE (fetch_int32 da) (\<lambda>n. pvm_exec_set da (unat n))),
     (opcode_is_get32, bindE (fetch_int32 da) (\<lambda>n. pvm_exec_iget da (unat n))),
     (opcode_is_set32, bindE (fetch_int32 da) (\<lambda>n. pvm_exec_iset da (unat n)))]"

text \<open>The \<^verbatim>\<open>default\<close> branch: the ranges of short system calls and short calls.\<close>

definition exec_default :: "vm_ext \<Rightarrow> addr \<Rightarrow> u8 \<Rightarrow> unit vm" where
  "exec_default X da instruction =
     (if instruction AND 0xF0 = opcode_sys_0 then pvm_exec_sys X da (unat (instruction AND 0x0F))
      else if instruction = opcode_sys_8bit then bindE (fetch_byte da) (pvm_exec_sys X da)
      else if instruction AND 0xE0 = opcode_call_00
      then bindE (fetch_byte da) (\<lambda>n_param. bindE pvm_create_null_object (\<lambda>null.
             pvm_exec_call da (unat (instruction AND 0x1F)) n_param False null))
      else raise (Exec_panic ''thread exec: unknown opcode''))"

definition exec_ops ::
    "vm_ext \<Rightarrow> (pvm_object \<Rightarrow> unit vm) \<Rightarrow> pvm_object \<Rightarrow> exec_prefix \<Rightarrow> (u8 \<times> unit vm) list" where
  "exec_ops X exec current_thread px = (let da = ob_data current_thread in
     misc_ops da @ istack_ops px da @ arith_ops da @ convert_ops da @
     summon_ops X exec current_thread @ flow_ops da @ call_ops da @ ostack_ops da)"

text \<open>
  The second \<^verbatim>\<open>switch\<close> of an iteration: whether the thread is to exit, and the prefixes.
\<close>

definition exec_instr ::
    "vm_ext \<Rightarrow> (pvm_object \<Rightarrow> unit vm) \<Rightarrow> pvm_object \<Rightarrow> exec_prefix \<Rightarrow> u8 \<Rightarrow> (bool \<times> exec_prefix) vm" where
  "exec_instr X exec current_thread px instruction = (let da = ob_data current_thread in
     if instruction = opcode_prefix_long then ret (False, px\<lparr>px_long := True\<rparr>)
     else if instruction = opcode_prefix_float then ret (False, px\<lparr>px_float := True\<rparr>)
     else if instruction = opcode_prefix_double then ret (False, px\<lparr>px_double := True\<rparr>)
     else if instruction = opcode_ret
     then bindE (prev_frame da) (\<lambda>r. bindE (gets (\<lambda>s. pvm_is_null s r)) (\<lambda>isnull.
            if isnull then ret (True, px) else thenE (pvm_exec_do_return da) (ret (False, px))))
     else thenE (case map_of (exec_ops X exec current_thread px) instruction of
                   Some act \<Rightarrow> act | None \<Rightarrow> exec_default X da instruction)
                (ret (False, px)))"

text \<open>One iteration of the loop.\<close>

definition exec_step ::
    "vm_ext \<Rightarrow> (pvm_object \<Rightarrow> unit vm) \<Rightarrow> pvm_object \<Rightarrow> exec_prefix \<Rightarrow> (bool \<times> exec_prefix) vm" where
  "exec_step X exec current_thread px = (let da = ob_data current_thread in
     bindE (on_code da pvm_code_get_byte) (\<lambda>instruction.
     thenE (if px_long px
            then (case map_of (long_ops da) instruction of Some act \<Rightarrow> act | None \<Rightarrow> ret ())
            else ret ())
    (bindE (exec_instr X exec current_thread px instruction) (\<lambda>(fin, px').
       if fin then ret (True, px')
       else ret (False, px'\<lparr>px_long := False, px_float := False, px_double := False\<rparr>)))))"

text \<open>What \<^verbatim>\<open>pvm_exec\<close> does before its loop.\<close>

definition exec_enter :: "(pvm_object \<Rightarrow> unit vm) \<Rightarrow> pvm_object \<Rightarrow> unit vm" where
  "exec_enter loop current_thread = bindE (root R_thread_class) (\<lambda>tc.
     bindE (pvm_object_class_is current_thread tc) (\<lambda>isthread.
     if \<not> isthread then raise (Panic ''attempt to run not a thread'')
     else thenE (pvm_exec_load_fast_acc (ob_data current_thread)) (loop current_thread)))"

text \<open>
  A program may loop for ever; \<open>n\<close> bounds the number of iterations, and also those that a
  class loader run from inside an instruction may take.
\<close>

primrec exec_loop :: "nat \<Rightarrow> vm_ext \<Rightarrow> pvm_object \<Rightarrow> exec_prefix \<Rightarrow> unit vm" where
  "exec_loop 0 X current_thread px = raise Diverges"
| "exec_loop (Suc n) X current_thread px =
     bindE (exec_step X (exec_enter (\<lambda>t. exec_loop n X t no_prefix)) current_thread px) (\<lambda>(fin, px').
       if fin then ret () else exec_loop n X current_thread px')"

definition pvm_exec :: "nat \<Rightarrow> vm_ext \<Rightarrow> pvm_object \<Rightarrow> unit vm" where
  "pvm_exec n X current_thread = exec_enter (\<lambda>t. exec_loop n X t no_prefix) current_thread"

end
