(* ===== verification/Exec_Prefix.thy ===== *)
theory Exec_Prefix
  imports Exec_Interp
begin

text \<open>
  The prefixes that select 64-bit and floating point operations. The interpreter clears the
  prefix flags at the end of every iteration, the one that sets them included, so a run
  is that of an interpreter that has no 64-bit operations and skips the prefixes.
\<close>

section \<open>The interpreter without prefixes\<close>

definition is_prefix :: "u8 \<Rightarrow> bool" where
  "is_prefix i \<longleftrightarrow> i = opcode_prefix_long \<or> i = opcode_prefix_float \<or> i = opcode_prefix_double"

definition step32 :: "vm_ext \<Rightarrow> (pvm_object \<Rightarrow> unit vm) \<Rightarrow> pvm_object \<Rightarrow> bool vm" where
  "step32 X exec current_thread = (let da = ob_data current_thread in
     bindE (on_code da pvm_code_get_byte) (\<lambda>instruction.
     if is_prefix instruction then ret False
     else if instruction = opcode_ret
     then bindE (prev_frame da) (\<lambda>r. bindE (gets (\<lambda>s. pvm_is_null s r)) (\<lambda>isnull.
            if isnull then ret True else thenE (pvm_exec_do_return da) (ret False)))
     else thenE (case map_of (exec_ops X exec current_thread no_prefix) instruction of
                   Some act \<Rightarrow> act | None \<Rightarrow> exec_default X da instruction)
                (ret False)))"

primrec loop32 :: "nat \<Rightarrow> vm_ext \<Rightarrow> pvm_object \<Rightarrow> unit vm" where
  "loop32 0 X current_thread = raise Diverges"
| "loop32 (Suc n) X current_thread =
     bindE (step32 X (exec_enter (loop32 n X)) current_thread) (\<lambda>fin.
       if fin then ret () else loop32 n X current_thread)"

lemma exec_step_step32:
  "exec_step X exec th no_prefix = bindE (step32 X exec th) (\<lambda>fin. ret (fin, no_prefix))"
proof (rule ext)
  fix s
  show "exec_step X exec th no_prefix s = bindE (step32 X exec th) (\<lambda>fin. ret (fin, no_prefix)) s"
    by (auto simp: exec_step_def step32_def exec_instr_def is_prefix_def no_prefix_def Let_def bindE_apply
        thenE_apply comp_simps split: sum.splits option.splits)
qed

lemma bindE_ret_assoc: "bindE (bindE m (\<lambda>x. ret (g x))) f = bindE m (\<lambda>x. f (g x))"
  by (rule ext) (simp add: bindE_apply split: sum.split)

section \<open>Properties\<close>

text \<open>
  C15. The prefix instructions have no effect. The loop of \<^verbatim>\<open>pvm_exec\<close>, which holds a second switch
  with the 64-bit operations, is equal, for every bound on the iterations, thread and
  state, to the loop of an interpreter that has only the 32-bit operations and skips the
  prefix instructions: the flags are cleared before the next instruction is fetched.
\<close>

theorem prefixes_have_no_effect: "exec_loop n X th no_prefix = loop32 n X th"
proof (induction n arbitrary: th)
  case (Suc n)
  then have "(\<lambda>t. exec_loop n X t no_prefix) = loop32 n X" by blast
  then show ?case
    using Suc [of th] by (simp add: exec_step_step32 bindE_ret_assoc cong: if_cong)
qed simp

end
