(* ===== verification/Codegen.thy ===== *)
theory Codegen
  imports Opcodes Code_Fetch "HOL-Library.AList"
begin

text \<open>
  The low level code generator of the compiler (\<^verbatim>\<open>tools/plc/src/ru/dz/phantom/code\<close>): the
  big-endian writer \<^verbatim>\<open>Fileops\<close>, the label tables \<^verbatim>\<open>ForwardAddressMap\<close> and
  \<^verbatim>\<open>BackAddressMap\<close>, and \<^verbatim>\<open>Codegen\<close>, which writes one instruction per \<open>emit\<close> function into
  a random access file and patches the jump addresses afterwards. The listing file and
  the table of line numbers do not influence the code and are left out; disk errors are
  not modelled. What a run leaves in the file is the subject of the theory \<open>Relocation\<close>; here are
  the lemmas on the bytes of a number.
\<close>

section \<open>Model\<close>

subsection \<open>Random access files\<close>

record rfile =
  rf_bytes :: "u8 list"
  rf_pos :: nat

text \<open>\<^verbatim>\<open>RandomAccessFile.write\<close> overwrites at the file pointer and extends the file as needed.\<close>

definition rf_write :: "u8 list \<Rightarrow> rfile \<Rightarrow> rfile" where
  "rf_write bb f = (if bb = [] then f else
     let p = rf_pos f; bs = rf_bytes f in
     \<lparr>rf_bytes = take p bs @ replicate (p - length bs) 0 @ bb @ drop (p + length bb) bs,
      rf_pos = p + length bb\<rparr>)"

definition rf_seek :: "nat \<Rightarrow> rfile \<Rightarrow> rfile" where
  "rf_seek p f = f\<lparr>rf_pos := p\<rparr>"

text \<open>\<^verbatim>\<open>RandomAccessFile.read\<close> into a fresh array: bytes that the file does not have stay 0.\<close>

definition rf_read :: "nat \<Rightarrow> rfile \<Rightarrow> u8 list \<times> rfile" where
  "rf_read n f = (let got = take n (drop (rf_pos f) (rf_bytes f)) in
     (got @ replicate (n - length got) 0, f\<lparr>rf_pos := rf_pos f + length got\<rparr>))"

subsection \<open>Fileops\<close>

text \<open>\<^verbatim>\<open>String.getBytes\<close>; the strings of the compiler are ASCII, on which the charsets agree.\<close>

definition getBytes :: "string \<Rightarrow> u8 list" where
  "getBytes cs = map (\<lambda>c. word_of_nat (of_char c)) cs"

text \<open>A Java \<^verbatim>\<open>byte\<close> is signed, so each byte is sign-extended before it is shifted.\<close>

definition get_int32 :: "rfile \<Rightarrow> i32 \<times> rfile" where
  "get_int32 f = (let (bb, f') = rf_read 4 f in
     (scast (bb ! 3) OR push_bit 8 (scast (bb ! 2)) OR push_bit 16 (scast (bb ! 1)) OR
      push_bit 24 (scast (bb ! 0)), f'))"

definition low8 :: "'a::len word \<Rightarrow> u8" where
  "low8 v = ucast (v AND 0xFF)"

definition int32_bytes :: "i32 \<Rightarrow> u8 list" where
  "int32_bytes v = [low8 (signed_drop_bit 24 v), low8 (signed_drop_bit 16 v), low8 (signed_drop_bit 8 v), low8 v]"

definition int64_bytes :: "i64 \<Rightarrow> u8 list" where
  "int64_bytes v = [low8 (signed_drop_bit 56 v), low8 (signed_drop_bit 48 v), low8 (signed_drop_bit 40 v),
     low8 (signed_drop_bit 32 v), low8 (signed_drop_bit 24 v), low8 (signed_drop_bit 16 v),
     low8 (signed_drop_bit 8 v), low8 v]"

definition string_bin_bytes :: "u8 list \<Rightarrow> u8 list" where
  "string_bin_bytes v = int32_bytes (word_of_nat (length v)) @ v"

subsection \<open>Label tables\<close>

text \<open>
  A label is a reference to a Java string, \<open>None\<close> being \<^verbatim>\<open>null\<close>. A hash map is an association
  list with distinct keys; where the code iterates over one, the order is a parameter.
\<close>

type_synonym label = "string option"

definition fmap_add :: "label \<Rightarrow> nat \<Rightarrow> (label \<times> nat) list \<Rightarrow> (label \<times> nat) list" where
  "fmap_add name address m = AList.update name address m"

definition bmap_add :: "label \<Rightarrow> nat \<Rightarrow> (label \<times> nat list) list \<Rightarrow> (label \<times> nat list) list" where
  "bmap_add name address m = (case map_of m name of
       None \<Rightarrow> AList.update name [address] m
     | Some ll \<Rightarrow> AList.update name (ll @ [address]) m)"

definition bmap_remove :: "label \<Rightarrow> (label \<times> nat list) list \<Rightarrow> (label \<times> nat list) list" where
  "bmap_remove name m = AList.delete name m"

subsection \<open>Codegen\<close>

record codegen =
  cg_os :: rfile
  cg_fmap :: "(label \<times> nat) list"
  cg_bmap :: "(label \<times> nat list) list"
  cg_start :: nat
  cg_next_label :: nat

type_synonym 'a cgen = "(codegen, 'a) comp"

definition new_codegen :: codegen where
  "new_codegen = \<lparr>cg_os = \<lparr>rf_bytes = [], rf_pos = 0\<rparr>, cg_fmap = [], cg_bmap = [], cg_start = 0,
     cg_next_label = 0\<rparr>"

text \<open>\<^verbatim>\<open>Integer.toString\<close> of a number that is not negative.\<close>

fun dec :: "nat \<Rightarrow> string" where
  "dec n = (if n < 10 then [char_of (48 + n)] else dec (n div 10) @ [char_of (48 + n mod 10)])"

declare dec.simps [simp del]

definition label_name :: "nat \<Rightarrow> label" where
  "label_name n = Some (''_label_'' @ dec n)"

definition getLabel :: "label cgen" where
  "getLabel = bindE (gets cg_next_label) (\<lambda>n.
     thenE (modify (\<lambda>c. c\<lparr>cg_next_label := n + 1\<rparr>)) (ret (label_name n)))"

definition set_os :: "rfile \<Rightarrow> unit cgen" where
  "set_os f = modify (\<lambda>c. c\<lparr>cg_os := f, cg_start := rf_pos f\<rparr>)"

definition getIP :: "nat cgen" where
  "getIP = bindE (gets (\<lambda>c. rf_pos (cg_os c))) (\<lambda>p. bindE (gets cg_start) (\<lambda>st. ret (p - st)))"

definition put_bytes :: "u8 list \<Rightarrow> unit cgen" where
  "put_bytes bb = modify (\<lambda>c. c\<lparr>cg_os := rf_write bb (cg_os c)\<rparr>)"

definition put_byte :: "u8 \<Rightarrow> unit cgen" where
  "put_byte v = put_bytes [v]"

definition put_int32 :: "i32 \<Rightarrow> unit cgen" where
  "put_int32 v = put_bytes (int32_bytes v)"

definition put_int64 :: "i64 \<Rightarrow> unit cgen" where
  "put_int64 v = put_bytes (int64_bytes v)"

definition put_string_bin :: "u8 list \<Rightarrow> unit cgen" where
  "put_string_bin v = thenE (put_int32 (word_of_nat (length v))) (put_bytes v)"

definition correct_at :: "nat \<Rightarrow> nat \<Rightarrow> unit cgen" where
  "correct_at address pos =
     thenE (modify (\<lambda>c. c\<lparr>cg_os := rf_seek pos (cg_os c)\<rparr>))
      (let diff = int address - int pos in
       if diff > 2 ^ 31 - 1 \<or> diff < - (2 ^ 31)
       then raise (Java_exception ''RuntimeException'' ''Out of int size in relative address'')
       else put_int32 (word_of_int diff))"

definition correct_int32 :: "label \<Rightarrow> nat \<Rightarrow> unit cgen" where
  "correct_int32 name address = bindE (gets cg_bmap) (\<lambda>m. case map_of m name of
       None \<Rightarrow> ret ()
     | Some posl \<Rightarrow> iterE (correct_at address) posl)"

definition fmap_get :: "label \<Rightarrow> nat cgen" where
  "fmap_get name = bindE (gets cg_fmap) (\<lambda>m. case map_of m name of
       None \<Rightarrow> raise (Java_exception ''EmptyPlcException'' ''BackAddressMap::get'')
     | Some a \<Rightarrow> ret a)"

definition relocate_one :: "label \<Rightarrow> unit cgen" where
  "relocate_one name = bindE (fmap_get name) (\<lambda>address.
     thenE (correct_int32 name address)
       (modify (\<lambda>c. c\<lparr>cg_bmap := bmap_remove name (cg_bmap c)\<rparr>)))"

text \<open>\<open>names\<close> is the order in which the iterator of the forward map delivers its keys.\<close>

definition relocate_all :: "label list \<Rightarrow> unit cgen" where
  "relocate_all names = thenE (iterE relocate_one names)
     (bindE (gets cg_bmap) (\<lambda>m.
      if m \<noteq> [] then raise (Java_exception ''PlcException'' ''Undefined labels'') else ret ()))"

definition putNamedInt32Reference :: "label \<Rightarrow> unit cgen" where
  "putNamedInt32Reference name = bindE (gets (\<lambda>c. rf_pos (cg_os c))) (\<lambda>now.
     thenE (put_int32 0xFFFFFFFF) (modify (\<lambda>c. c\<lparr>cg_bmap := bmap_add name now (cg_bmap c)\<rparr>)))"

definition markLabel :: "label \<Rightarrow> unit cgen" where
  "markLabel name = bindE (gets (\<lambda>c. rf_pos (cg_os c))) (\<lambda>now.
     modify (\<lambda>c. c\<lparr>cg_fmap := fmap_add name now (cg_fmap c)\<rparr>))"

subsection \<open>One function per instruction\<close>

definition emitNop :: "unit cgen" where
  "emitNop = put_byte opcode_nop"

definition emitRet :: "unit cgen" where
  "emitRet = put_byte opcode_ret"

definition emitIsDup :: "unit cgen" where
  "emitIsDup = put_byte opcode_is_dup"

definition emitIsDrop :: "unit cgen" where
  "emitIsDrop = put_byte opcode_is_drop"

definition emitOsDup :: "unit cgen" where
  "emitOsDup = put_byte opcode_os_dup"

definition emitOsDrop :: "unit cgen" where
  "emitOsDrop = put_byte opcode_os_drop"

definition emitIConst_0 :: "unit cgen" where
  "emitIConst_0 = put_byte opcode_iconst_0"

definition emitIConst_1 :: "unit cgen" where
  "emitIConst_1 = put_byte opcode_iconst_1"

definition emitSummonThread :: "unit cgen" where
  "emitSummonThread = put_byte opcode_summon_thread"

definition emitSummonThis :: "unit cgen" where
  "emitSummonThis = put_byte opcode_summon_this"

definition emitSummonNull :: "unit cgen" where
  "emitSummonNull = put_byte opcode_summon_null"

definition emit_i2o :: "unit cgen" where
  "emit_i2o = put_byte opcode_i2o"

definition emit_o2i :: "unit cgen" where
  "emit_o2i = put_byte opcode_o2i"

definition emitISum :: "unit cgen" where
  "emitISum = put_byte opcode_isum"

definition emitIMul :: "unit cgen" where
  "emitIMul = put_byte opcode_imul"

definition emitISubUL :: "unit cgen" where
  "emitISubUL = put_byte opcode_isubul"

definition emitISubLU :: "unit cgen" where
  "emitISubLU = put_byte opcode_isublu"

definition emitIDivUL :: "unit cgen" where
  "emitIDivUL = put_byte opcode_idivul"

definition emitIDivLU :: "unit cgen" where
  "emitIDivLU = put_byte opcode_idivlu"

definition emitIRemLU :: "unit cgen" where
  "emitIRemLU = put_byte opcode_iremlu"

definition emitIShiftLeft :: "unit cgen" where
  "emitIShiftLeft = put_byte opcode_ishl"

definition emitIShiftRight :: "unit cgen" where
  "emitIShiftRight = put_byte opcode_ishr"

definition emitUShiftRight :: "unit cgen" where
  "emitUShiftRight = put_byte opcode_ushr"

definition emitNew :: "unit cgen" where
  "emitNew = put_byte opcode_new"

definition emitCopy :: "unit cgen" where
  "emitCopy = put_byte opcode_copy"

definition emit_ior :: "unit cgen" where
  "emit_ior = put_byte opcode_ior"

definition emit_iand :: "unit cgen" where
  "emit_iand = put_byte opcode_iand"

definition emit_ixor :: "unit cgen" where
  "emit_ixor = put_byte opcode_ixor"

definition emit_inot :: "unit cgen" where
  "emit_inot = put_byte opcode_inot"

definition emitLogOr :: "unit cgen" where
  "emitLogOr = put_byte opcode_log_or"

definition emitLogAnd :: "unit cgen" where
  "emitLogAnd = put_byte opcode_log_and"

definition emitLogXor :: "unit cgen" where
  "emitLogXor = put_byte opcode_log_xor"

definition emitLogNot :: "unit cgen" where
  "emitLogNot = put_byte opcode_log_not"

definition emit_igt :: "unit cgen" where
  "emit_igt = put_byte opcode_igt"

definition emit_ilt :: "unit cgen" where
  "emit_ilt = put_byte opcode_ilt"

definition emit_ige :: "unit cgen" where
  "emit_ige = put_byte opcode_ige"

definition emit_ile :: "unit cgen" where
  "emit_ile = put_byte opcode_ile"

definition emit_decompose :: "unit cgen" where
  "emit_decompose = put_byte opcode_os_decompose"

definition emitThrow :: "unit cgen" where
  "emitThrow = put_byte opcode_throw"

definition emitPopCatcher :: "unit cgen" where
  "emitPopCatcher = put_byte opcode_pop_catcher"

definition emit_ptr_eq :: "unit cgen" where
  "emit_ptr_eq = put_byte opcode_os_eq"

definition emit_ptr_neq :: "unit cgen" where
  "emit_ptr_neq = put_byte opcode_os_neq"

definition emitPushNull :: "unit cgen" where
  "emitPushNull = put_byte opcode_summon_null"

definition emitIsNull :: "unit cgen" where
  "emitIsNull = put_byte opcode_os_isnull"

definition emitLock :: "unit cgen" where
  "emitLock = put_byte opcode_general_lock"

definition emitUnLock :: "unit cgen" where
  "emitUnLock = put_byte opcode_general_unlock"

definition emitDynamicCall :: "unit cgen" where
  "emitDynamicCall = put_byte opcode_dynamic_invoke"

definition emit_compose :: "i32 \<Rightarrow> unit cgen" where
  "emit_compose v = thenE (put_byte opcode_os_compose32) (put_int32 v)"

definition emit_pull :: "i32 \<Rightarrow> unit cgen" where
  "emit_pull v = thenE (put_byte opcode_os_pull32) (put_int32 v)"

definition emitGet :: "i32 \<Rightarrow> unit cgen" where
  "emitGet v = thenE (put_byte opcode_os_get32) (put_int32 v)"

definition emitSet :: "i32 \<Rightarrow> unit cgen" where
  "emitSet v = thenE (put_byte opcode_os_set32) (put_int32 v)"

definition emitIGet :: "i32 \<Rightarrow> unit cgen" where
  "emitIGet v = thenE (put_byte opcode_is_get32) (put_int32 v)"

definition emitISet :: "i32 \<Rightarrow> unit cgen" where
  "emitISet v = thenE (put_byte opcode_is_set32) (put_int32 v)"

definition emitJmp :: "label \<Rightarrow> unit cgen" where
  "emitJmp name = thenE (put_byte opcode_jmp) (putNamedInt32Reference name)"

definition emitDjnz :: "label \<Rightarrow> unit cgen" where
  "emitDjnz name = thenE (put_byte opcode_djnz) (putNamedInt32Reference name)"

definition emitJz :: "label \<Rightarrow> unit cgen" where
  "emitJz name = thenE (put_byte opcode_jz) (putNamedInt32Reference name)"

definition emitPushCatcher :: "label \<Rightarrow> unit cgen" where
  "emitPushCatcher name = thenE (put_byte opcode_push_catcher) (putNamedInt32Reference name)"

definition emitSwitch :: "label list \<Rightarrow> i32 \<Rightarrow> i32 \<Rightarrow> unit cgen" where
  "emitSwitch tabl shift divisor = thenE (put_byte opcode_switch)
    (thenE (put_int32 (word_of_nat (length tabl))) (thenE (put_int32 shift) (thenE (put_int32 divisor)
    (iterE putNamedInt32Reference tabl))))"

definition emitIConst_8bit :: "u8 \<Rightarrow> unit cgen" where
  "emitIConst_8bit val = thenE (put_byte opcode_iconst_8bit) (put_byte val)"

definition emitIConst_32bit :: "i32 \<Rightarrow> unit cgen" where
  "emitIConst_32bit val = thenE (put_byte opcode_iconst_32bit) (put_int32 val)"

definition emitIConst_64bit :: "i64 \<Rightarrow> unit cgen" where
  "emitIConst_64bit val = thenE (put_byte opcode_iconst_64bit) (put_int64 val)"

definition emitString :: "string \<Rightarrow> unit cgen" where
  "emitString str = thenE (put_byte opcode_sconst_bin) (put_string_bin (getBytes str))"

definition emitBinary :: "u8 list \<Rightarrow> unit cgen" where
  "emitBinary data = thenE (put_byte opcode_sconst_bin) (put_string_bin data)"

definition emitDebug :: "u8 \<Rightarrow> string option \<Rightarrow> unit cgen" where
  "emitDebug typ text = thenE (put_byte opcode_debug)
    (case text of
       None \<Rightarrow> put_byte (typ AND 0x7F)
     | Some t \<Rightarrow> thenE (put_byte (typ AND 0x7F OR 0x80)) (put_string_bin (getBytes t)))"

definition emitCall :: "i32 \<Rightarrow> i32 \<Rightarrow> unit cgen" where
  "emitCall method_index n_param =
    (if n_param = 0 \<and> method_index = 0 then put_byte opcode_short_call_0
     else if n_param = 0 \<and> method_index = 1 then put_byte opcode_short_call_1
     else if n_param = 0 \<and> method_index = 2 then put_byte opcode_short_call_2
     else if n_param = 0 \<and> method_index = 3 then put_byte opcode_short_call_3
     else if n_param AND 0xFFF0 = 0 \<and> sint method_index < 32
     then thenE (put_byte (opcode_call_00 + ucast method_index)) (put_byte (ucast n_param))
     else if method_index AND 0xFFF0 = 0
     then thenE (put_byte opcode_call_8bit) (thenE (put_byte (ucast method_index)) (put_int32 n_param))
     else thenE (put_byte opcode_call_32bit) (thenE (put_int32 method_index) (put_int32 n_param)))"

definition emitLoad :: "i32 \<Rightarrow> unit cgen" where
  "emitLoad fieldnum = (if sint fieldnum < 256
     then thenE (put_byte opcode_os_load8) (put_byte (ucast fieldnum))
     else thenE (put_byte opcode_os_load32) (put_int32 fieldnum))"

definition emitSave :: "i32 \<Rightarrow> unit cgen" where
  "emitSave fieldnum = (if sint fieldnum < 256
     then thenE (put_byte opcode_os_save8) (put_byte (ucast fieldnum))
     else thenE (put_byte opcode_os_save32) (put_int32 fieldnum))"

definition toLower :: "char \<Rightarrow> char" where
  "toLower c = (let n = of_char c :: nat in if 65 \<le> n \<and> n \<le> 90 then char_of (n + 32) else c)"

definition emitSummonByName :: "string \<Rightarrow> unit cgen" where
  "emitSummonByName cname =
    (let name = map toLower (case cname of c # cs \<Rightarrow> if c = CHR ''.'' then cs else cname | [] \<Rightarrow> []) in
     if name = ''internal.class'' \<or> name = ''internal.class.class'' then put_byte opcode_summon_class_class
     else if name = ''internal.interface'' \<or> name = ''internal.class.interface''
     then put_byte opcode_summon_interface_class
     else if name = ''internal.code'' then put_byte opcode_summon_code_class
     else if name = ''internal.int'' \<or> name = ''internal.class.int'' then put_byte opcode_summon_int_class
     else if name = ''internal.string'' \<or> name = ''internal.class.string''
     then put_byte opcode_summon_string_class
     else if name = ''internal.container.array'' then put_byte opcode_summon_array_class
     else thenE (put_byte opcode_summon_by_name) (put_string_bin (getBytes (''.'' @ name))))"

section \<open>Encoding\<close>

lemma mask_255: "(0xFF :: 'a::len word) = mask 8"
  by (simp add: mask_eq_exp_minus_1)

lemma low_byte_bit: "8 \<le> LENGTH('a) \<Longrightarrow> n < 8 \<Longrightarrow> bit (low8 (v :: 'a::len word)) n = bit v n"
  by (simp add: low8_def mask_255 bit_simps bit_unsigned_iff)

lemma length_int32_bytes [simp]: "length (int32_bytes v) = 4"
  by (simp add: int32_bytes_def)

lemma do_get_int_bit:
  "n < 32 \<Longrightarrow> bit (pvm_code_do_get_int bs) n =
    (if n < 8 then bit (bs ! 3) n else if n < 16 then bit (bs ! 2) (n - 8)
     else if n < 24 then bit (bs ! 1) (n - 16) else bit (bs ! 0) (n - 24))"
  by (simp add: pvm_code_do_get_int_def bit_or_iff bit_push_bit_iff bit_unsigned_iff)
    (auto dest: bit_imp_le_length)

lemma do_get_int32_bytes [simp]: "pvm_code_do_get_int (int32_bytes v) = v"
  by (rule bit_word_eqI) (auto simp: do_get_int_bit int32_bytes_def low_byte_bit bit_signed_drop_bit_iff)

end
