(* ===== verification/Compiler_Nodes.thy ===== *)
theory Compiler_Nodes
  imports Codegen
begin

text \<open>
  The tree that the Phantom compiler generates code from
  (\<^verbatim>\<open>tools/plc/src/ru/dz/plc/compiler\<close>, packages \<^verbatim>\<open>node\<close>, \<^verbatim>\<open>binode\<close>, \<^verbatim>\<open>trinode\<close>): for each
  node class the type it gives itself, the stack its result is on, the stack it wants its
  operands on, and its \<^verbatim>\<open>generate_code\<close>, and the prologue and epilogue of a method.
  Warnings, the listing and line numbers do not influence the code and are left out. The tree has
  the nodes that the grammar of the language builds (but for the definition of a class, which makes no
  code), and of those that only the translators of Java and Python build all but the
  nodes that store and duplicate values; exclusive or and the shifts come from the Java translator.
\<close>

section \<open>Types and variables\<close>

text \<open>
  \<open>T_class c\<close> is a known class that has no flag of its own, \<open>T_container c\<close> an array of \<open>c\<close>,
  \<open>T_no_class\<close> the unknown type that \<^verbatim>\<open>new PhantomType(null)\<close> makes.
  The class map of the compiler holds the class \<^verbatim>\<open>.internal.int\<close>, so that the integer type
  is a known type.
\<close>

datatype phtype = T_unknown | T_no_class | T_void | T_int | T_long | T_float | T_double | T_string
  | T_class string | T_container "string option"

definition type_of_class :: "string option \<Rightarrow> phtype" where
  "type_of_class c = (case c of None \<Rightarrow> T_no_class | Some n \<Rightarrow>
     if n = ''.internal.int'' then T_int else if n = ''.internal.string'' then T_string
     else if n = ''.internal.void'' then T_void else T_class n)"

definition type_equals :: "phtype \<Rightarrow> phtype \<Rightarrow> bool" where
  "type_equals a b \<longleftrightarrow> a \<noteq> T_unknown \<and> a \<noteq> T_no_class \<and> a = b"

record stack_var =
  sv_type :: phtype
  sv_pos :: nat

record phantom_stack =
  ps_used_slots :: nat
  ps_vars :: "(string \<times> stack_var) list"

definition empty_stack :: phantom_stack where
  "empty_stack = \<lparr>ps_used_slots = 0, ps_vars = []\<rparr>"

definition add_stack_var :: "string \<Rightarrow> phtype \<Rightarrow> phantom_stack \<Rightarrow> phantom_stack" where
  "add_stack_var name t st = \<lparr>ps_used_slots = ps_used_slots st + 1,
     ps_vars = AList.update name \<lparr>sv_type = t, sv_pos = ps_used_slots st\<rparr> (ps_vars st)\<rparr>"

definition setParameter :: "nat \<Rightarrow> string \<Rightarrow> phtype \<Rightarrow> phantom_stack \<Rightarrow> phantom_stack" where
  "setParameter position name t st = \<lparr>ps_used_slots = max (ps_used_slots st) (position + 1),
     ps_vars = AList.update name \<lparr>sv_type = t, sv_pos = position\<rparr> (ps_vars st)\<rparr>"

definition get_var :: "string \<Rightarrow> phantom_stack \<Rightarrow> stack_var option" where
  "get_var name st = map_of (ps_vars st) name"

text \<open>
  What \<^verbatim>\<open>CodeGeneratorState\<close> gives access to: the fields of the class (ordinal and type) and
  its static fields, the method tables of the known classes, and of the current method the
  two stacks of variables and the debug flag.
\<close>

record gen_env =
  ge_field :: "string \<Rightarrow> (nat \<times> phtype) option"
  ge_static :: "string \<Rightarrow> nat option"
  ge_method :: "string \<Rightarrow> string \<Rightarrow> (nat \<times> phtype) option"
  ge_svars :: phantom_stack
  ge_isvars :: phantom_stack
  ge_debug :: bool

section \<open>Nodes\<close>

datatype binop = OpPlus | OpMinus | OpMultiply | OpDivide | OpRemainder | OpAnd | OpOr | OpXor
  | OpShiftLeft | OpShiftRight | OpShiftRightUnsigned | BoolAnd | BoolOr
  | ValGe | ValGt | ValLe | ValLt

datatype method_id = By_number nat | By_name string

text \<open>\<open>NoNode\<close> is a null reference to a node.\<close>

datatype node = NoNode
  | EmptyNode | NullNode | ThisNode string | StringConstNode string | BinaryConstNode "u8 list"
  | IntConstNode i32 | IntConst64Node i64 | IdentNode string
  | BinNode binop node node
  | ValEqNode node node | ValNeqNode node node
  | RefEqNode node node | RefNeqNode node node
  | OpNotNode node | BoolNotNode node
  | OpAssignNode node node | OpVassignNode node node | OpSubscriptNode node node | OpArrayLength node
  | VoidNode node | SequenceNode node node | StatementsNode "node list"
  | IfNode node node node | DoWhileNode node node node
  | BreakNode | ContinueNode | ReturnNode node | ThrowNode node
  | JumpNode label | JzNode label | JumpTargetNode label
  | SwitchLabelNode label
  | SwitchNode node "(label \<times> node) list" "label option" node
  | SwitchListNode node "(label \<times> i32) list" label
  | CallArgNode node node
  | OpMethodCallNode node method_id node | OpDynamicMethodCallNode node string node
  | CatchNode phtype string node node | ForeachNode string node node
  | NewNode "phtype option" node node | SummonClassNode phtype | InstanceOfNode node phtype
  | MonitorNode node bool | StaticLoadNode string string | StaticSaveNode string string node

subsection \<open>Stacks\<close>

definition ident_on_int_stack :: "gen_env \<Rightarrow> string \<Rightarrow> bool" where
  "ident_on_int_stack E ident \<longleftrightarrow> ge_field E ident = None \<and> get_var ident (ge_isvars E) \<noteq> None"

fun is_on_int_stack :: "gen_env \<Rightarrow> node \<Rightarrow> bool" where
  "is_on_int_stack E (IntConstNode v) = True"
| "is_on_int_stack E (IntConst64Node v) = True"
| "is_on_int_stack E (IdentNode ident) = ident_on_int_stack E ident"
| "is_on_int_stack E (BinNode b l r) = True"
| "is_on_int_stack E (ValEqNode l r) = True"
| "is_on_int_stack E (ValNeqNode l r) = True"
| "is_on_int_stack E (RefEqNode l r) = True"
| "is_on_int_stack E (RefNeqNode l r) = True"
| "is_on_int_stack E (OpNotNode l) = True"
| "is_on_int_stack E (BoolNotNode l) = True"
| "is_on_int_stack E (OpAssignNode l r) = (case l of IdentNode ident \<Rightarrow> ident_on_int_stack E ident | _ \<Rightarrow> False)"
| "is_on_int_stack E n = False"

definition go_to_object_stack :: "gen_env \<Rightarrow> node \<Rightarrow> node \<Rightarrow> bool" where
  "go_to_object_stack E l r \<longleftrightarrow> \<not> is_on_int_stack E l \<or> \<not> is_on_int_stack E r"

fun args_on_int_stack :: "gen_env \<Rightarrow> node \<Rightarrow> bool" where
  "args_on_int_stack E (ValEqNode l r) = (\<not> go_to_object_stack E l r)"
| "args_on_int_stack E (ValNeqNode l r) = (\<not> go_to_object_stack E l r)"
| "args_on_int_stack E (RefEqNode l r) = False"
| "args_on_int_stack E (RefNeqNode l r) = False"
| "args_on_int_stack E (VoidNode l) = is_on_int_stack E l"
| "args_on_int_stack E (SwitchNode e cs d bdy) = True"
| "args_on_int_stack E (SwitchListNode e cs d) = True"
| "args_on_int_stack E n = is_on_int_stack E n"

definition move_between_stacks :: "bool \<Rightarrow> bool \<Rightarrow> unit cgen" where
  "move_between_stacks args fromint =
     thenE (if args \<and> \<not> fromint then emit_o2i else ret ()) (if \<not> args \<and> fromint then emit_i2o else ret ())"

subsection \<open>Types\<close>

text \<open>\<open>None\<close> is an exception thrown while the type is looked for.\<close>

definition ident_type :: "gen_env \<Rightarrow> string \<Rightarrow> phtype option" where
  "ident_type E ident = (case ge_field E ident of
       Some (ord, t) \<Rightarrow> Some t
     | None \<Rightarrow> (case get_var ident (ge_isvars E) of
         Some v \<Rightarrow> Some (sv_type v)
       | None \<Rightarrow> map_option sv_type (get_var ident (ge_svars E))))"

text \<open>\<^verbatim>\<open>BiNode.find_out_my_type\<close>; the flags tell whether a child is null.\<close>

definition binode_type :: "bool \<Rightarrow> bool \<Rightarrow> phtype option \<Rightarrow> phtype option \<Rightarrow> phtype option" where
  "binode_type lnull rnull lt rt =
    (if \<not> lnull \<and> lt = None \<or> \<not> rnull \<and> rt = None then None
     else if lnull \<or> rnull then Some T_unknown
     else Some (if type_equals (the lt) (the rt) \<or> the rt = T_unknown then the lt else T_unknown))"

definition method_type :: "gen_env \<Rightarrow> phtype \<Rightarrow> method_id \<Rightarrow> phtype option" where
  "method_type E t m = (case m of
       By_number k \<Rightarrow> Some T_unknown
     | By_name ident \<Rightarrow> (case t of T_class c \<Rightarrow> map_option snd (ge_method E c ident) | _ \<Rightarrow> None))"

fun getType :: "gen_env \<Rightarrow> node \<Rightarrow> phtype option" where
  "getType E NullNode = Some (T_class ''.internal.object'')"
| "getType E (ThisNode c) = Some (type_of_class (Some c))"
| "getType E (StringConstNode s) = Some T_string"
| "getType E (BinaryConstNode bs) = Some T_string"
| "getType E (IntConstNode v) = Some T_int"
| "getType E (IntConst64Node v) = Some T_long"
| "getType E (IdentNode ident) = ident_type E ident"
| "getType E (BinNode b l r) = binode_type (l = NoNode) (r = NoNode) (getType E l) (getType E r)"
| "getType E (ValEqNode l r) = binode_type (l = NoNode) (r = NoNode) (getType E l) (getType E r)"
| "getType E (ValNeqNode l r) = binode_type (l = NoNode) (r = NoNode) (getType E l) (getType E r)"
| "getType E (RefEqNode l r) = binode_type (l = NoNode) (r = NoNode) (getType E l) (getType E r)"
| "getType E (RefNeqNode l r) = binode_type (l = NoNode) (r = NoNode) (getType E l) (getType E r)"
| "getType E (OpNotNode l) = getType E l"
| "getType E (BoolNotNode l) = getType E l"
| "getType E (OpAssignNode l r) = (case l of
       IdentNode ident \<Rightarrow> ident_type E ident
     | _ \<Rightarrow> binode_type (l = NoNode) (r = NoNode) (getType E l) (getType E r))"
| "getType E (OpVassignNode l r) = binode_type (l = NoNode) (r = NoNode) (getType E l) (getType E r)"
| "getType E (OpSubscriptNode l r) = (case getType E l of
       None \<Rightarrow> None
     | Some T_unknown \<Rightarrow> Some T_unknown
     | Some T_no_class \<Rightarrow> Some T_unknown
     | Some (T_container c) \<Rightarrow> Some (type_of_class c)
     | Some _ \<Rightarrow> None)"
| "getType E (OpArrayLength l) = Some T_int"
| "getType E (SequenceNode l r) = binode_type (l = NoNode) (r = NoNode) (getType E l) (getType E r)"
| "getType E (IfNode l m r) =
    (if m \<noteq> NoNode \<and> getType E m = None \<or> r \<noteq> NoNode \<and> getType E r = None then None
     else Some (if m \<noteq> NoNode \<and> r \<noteq> NoNode \<and> type_equals (the (getType E m)) (the (getType E r))
                then the (getType E m) else T_unknown))"
| "getType E (DoWhileNode l m r) = Some T_unknown"
| "getType E (JumpNode l) = Some T_unknown"
| "getType E (JzNode l) = Some T_unknown"
| "getType E (JumpTargetNode l) = Some T_unknown"
| "getType E (OpMethodCallNode l m r) = Option.bind (getType E l) (\<lambda>t. method_type E t m)"
| "getType E (NewNode st l r) = (case st of
       Some t \<Rightarrow> Some t
     | None \<Rightarrow> binode_type (l = NoNode) (r = NoNode) (getType E l) (getType E r))"
| "getType E (CatchNode t ident l r) = binode_type (l = NoNode) (r = NoNode) (getType E l) (getType E r)"
| "getType E (SummonClassNode t) = Some t"
| "getType E (InstanceOfNode l t) = getType E l"
| "getType E (CallArgNode l r) = binode_type (l = NoNode) (r = NoNode) (getType E l) (getType E r)"
| "getType E NoNode = None"
| "getType E (OpDynamicMethodCallNode l m r) = None"
| "getType E (StaticLoadNode c i) = None"
| "getType E (StaticSaveNode c i v) = None"
| "getType E n = Some T_void"

subsection \<open>Code\<close>

definition plc_error :: "string \<Rightarrow> 'a cgen" where
  "plc_error msg = raise (Java_exception ''PlcException'' msg)"

text \<open>An operation that exists for integers only.\<close>

definition int_only :: "phtype option \<Rightarrow> unit cgen \<Rightarrow> unit cgen" where
  "int_only t m = (if t = Some T_int then m else plc_error ''op does not exist for this type'')"

primrec emit_binop :: "binop \<Rightarrow> unit cgen" where
  "emit_binop OpPlus = emitISum"
| "emit_binop OpMinus = emitISubLU"
| "emit_binop OpMultiply = emitIMul"
| "emit_binop OpDivide = emitIDivLU"
| "emit_binop OpRemainder = emitIRemLU"
| "emit_binop OpAnd = emit_iand"
| "emit_binop OpOr = emit_ior"
| "emit_binop OpXor = emit_ior"
| "emit_binop OpShiftLeft = emitIShiftLeft"
| "emit_binop OpShiftRight = emitIShiftRight"
| "emit_binop OpShiftRightUnsigned = emitUShiftRight"
| "emit_binop BoolAnd = emitLogAnd"
| "emit_binop BoolOr = emitLogOr"
| "emit_binop ValGe = emit_ige"
| "emit_binop ValGt = emit_igt"
| "emit_binop ValLe = emit_ile"
| "emit_binop ValLt = emit_ilt"

definition emit_get_class_object :: "phtype \<Rightarrow> unit cgen" where
  "emit_get_class_object t = (case t of
       T_void \<Rightarrow> plc_error ''asked to emit void class object''
     | T_int \<Rightarrow> emitSummonByName ''.internal.int''
     | T_long \<Rightarrow> emitSummonByName ''.internal.long''
     | T_float \<Rightarrow> emitSummonByName ''.internal.float''
     | T_double \<Rightarrow> emitSummonByName ''.internal.double''
     | T_string \<Rightarrow> emitSummonByName ''.internal.string''
     | T_container c \<Rightarrow> emitSummonByName ''.internal.container.array''
     | T_class c \<Rightarrow> emitSummonByName c
     | _ \<Rightarrow> plc_error ''can't get class object'')"

definition load_ident :: "gen_env \<Rightarrow> string \<Rightarrow> unit cgen" where
  "load_ident E ident = (case ge_field E ident of
       Some (ord, t) \<Rightarrow> emitLoad (word_of_nat ord)
     | None \<Rightarrow> (case get_var ident (ge_isvars E) of
         Some v \<Rightarrow> emitIGet (word_of_nat (sv_pos v))
       | None \<Rightarrow> (case get_var ident (ge_svars E) of
           Some v \<Rightarrow> emitGet (word_of_nat (sv_pos v))
         | None \<Rightarrow> plc_error ''no field'')))"

definition store_ident :: "gen_env \<Rightarrow> string \<Rightarrow> unit cgen" where
  "store_ident E ident = (case ge_field E ident of
       Some (ord, t) \<Rightarrow> thenE emitOsDup (emitSave (word_of_nat ord))
     | None \<Rightarrow> (case get_var ident (ge_isvars E) of
         Some v \<Rightarrow> thenE emitIsDup (emitISet (word_of_nat (sv_pos v)))
       | None \<Rightarrow> (case get_var ident (ge_svars E) of
           Some v \<Rightarrow> thenE emitOsDup (emitSet (word_of_nat (sv_pos v)))
         | None \<Rightarrow> plc_error ''no field'')))"

text \<open>
  The number of arguments: the length of the chain of right children. \<open>None\<close> is the failed
  cast of a node that has no right child.
\<close>

fun n_params :: "node \<Rightarrow> nat option" where
  "n_params NoNode = Some 0"
| "n_params (BinNode b l r) = map_option Suc (n_params r)"
| "n_params (ValEqNode l r) = map_option Suc (n_params r)"
| "n_params (ValNeqNode l r) = map_option Suc (n_params r)"
| "n_params (RefEqNode l r) = map_option Suc (n_params r)"
| "n_params (RefNeqNode l r) = map_option Suc (n_params r)"
| "n_params (OpAssignNode l r) = map_option Suc (n_params r)"
| "n_params (OpVassignNode l r) = map_option Suc (n_params r)"
| "n_params (OpSubscriptNode l r) = map_option Suc (n_params r)"
| "n_params (SequenceNode l r) = map_option Suc (n_params r)"
| "n_params (IfNode l m r) = map_option Suc (n_params r)"
| "n_params (DoWhileNode l m r) = map_option Suc (n_params r)"
| "n_params (CallArgNode l r) = map_option Suc (n_params r)"
| "n_params (OpMethodCallNode l m r) = map_option Suc (n_params r)"
| "n_params (OpDynamicMethodCallNode l m r) = map_option Suc (n_params r)"
| "n_params (CatchNode t x l r) = map_option Suc (n_params r)"
| "n_params (ForeachNode x l r) = map_option Suc (n_params r)"
| "n_params (NewNode t l r) = map_option Suc (n_params r)"
| "n_params n = None"

definition with_params :: "node \<Rightarrow> (i32 \<Rightarrow> unit cgen) \<Rightarrow> unit cgen" where
  "with_params r k = (case n_params r of
       None \<Rightarrow> raise (Java_exception ''ClassCastException'' []) | Some n \<Rightarrow> k (word_of_nat n))"

definition method_ordinal :: "gen_env \<Rightarrow> phtype option \<Rightarrow> method_id \<Rightarrow> nat option" where
  "method_ordinal E t m = (case m of
       By_number k \<Rightarrow> Some k
     | By_name ident \<Rightarrow> (case t of Some (T_class c) \<Rightarrow> map_option fst (ge_method E c ident) | _ \<Rightarrow> None))"

lemma iterE_cong [fundef_cong]:
  "xs = ys \<Longrightarrow> (\<And>x. x \<in> set ys \<Longrightarrow> f x = g x) \<Longrightarrow> iterE f xs = iterE g ys"
  by (induction xs arbitrary: ys) auto

text \<open>The labels that \<^verbatim>\<open>continue\<close> and \<^verbatim>\<open>break\<close> jump to; \<open>None\<close> is \<^verbatim>\<open>null\<close>.\<close>

record gen_state =
  gs_continue :: label
  gs_break :: label

fun generate_code :: "gen_env \<Rightarrow> gen_state \<Rightarrow> node \<Rightarrow> unit cgen" where
  "generate_code E s NoNode = raise (Java_exception ''NullPointerException'' [])"
| "generate_code E s EmptyNode = ret ()"
| "generate_code E s NullNode = emitSummonNull"
| "generate_code E s (ThisNode c) = emitSummonThis"
| "generate_code E s (StringConstNode str) = emitString str"
| "generate_code E s (BinaryConstNode bs) = emitBinary bs"
| "generate_code E s (IntConstNode v) = emitIConst_32bit v"
| "generate_code E s (IntConst64Node v) = emitIConst_64bit v"
| "generate_code E s (IdentNode ident) = load_ident E ident"
| "generate_code E s (BinNode b l r) =
     thenE (if l \<noteq> NoNode then thenE (generate_code E s l) (move_between_stacks True (is_on_int_stack E l)) else ret ())
    (thenE (if r \<noteq> NoNode then thenE (generate_code E s r) (move_between_stacks True (is_on_int_stack E r)) else ret ())
    (int_only (getType E (BinNode b l r)) (emit_binop b)))"
| "generate_code E s (ValEqNode l r) =
    (let obj = go_to_object_stack E l r in
     thenE (generate_code E s l) (thenE (if obj \<and> is_on_int_stack E l then emit_i2o else ret ())
    (thenE (generate_code E s r) (thenE (if obj \<and> is_on_int_stack E r then emit_i2o else ret ())
    (if \<not> obj
     then if getType E (ValEqNode l r) \<noteq> Some T_int then plc_error ''not an int in int stack''
          else thenE emitISubLU emitLogNot
     else thenE (emitCall 4 1) emit_o2i)))))"
| "generate_code E s (ValNeqNode l r) =
    (let obj = go_to_object_stack E l r in
     thenE (generate_code E s l) (thenE (if obj \<and> is_on_int_stack E l then emit_i2o else ret ())
    (thenE (generate_code E s r) (thenE (if obj \<and> is_on_int_stack E r then emit_i2o else ret ())
    (if \<not> obj
     then if getType E (ValNeqNode l r) \<noteq> Some T_int then plc_error ''not an int on int stack''
          else emitISubLU
     else thenE (emitCall 4 1) (thenE emit_o2i emitLogNot))))))"
| "generate_code E s (RefEqNode l r) =
     thenE (if l \<noteq> NoNode then thenE (generate_code E s l) (move_between_stacks False (is_on_int_stack E l)) else ret ())
    (thenE (if r \<noteq> NoNode then thenE (generate_code E s r) (move_between_stacks False (is_on_int_stack E r)) else ret ()) emit_ptr_eq)"
| "generate_code E s (RefNeqNode l r) =
     thenE (if l \<noteq> NoNode then thenE (generate_code E s l) (move_between_stacks False (is_on_int_stack E l)) else ret ())
    (thenE (if r \<noteq> NoNode then thenE (generate_code E s r) (move_between_stacks False (is_on_int_stack E r)) else ret ()) emit_ptr_neq)"
| "generate_code E s (OpNotNode l) =
     thenE (if l \<noteq> NoNode then thenE (generate_code E s l) (move_between_stacks True (is_on_int_stack E l)) else ret ()) emit_inot"
| "generate_code E s (BoolNotNode l) =
     thenE (if l \<noteq> NoNode then thenE (generate_code E s l) (move_between_stacks True (is_on_int_stack E l)) else ret ()) emitLogNot"
| "generate_code E s (OpAssignNode l r) = (case l of
       IdentNode ident \<Rightarrow>
         thenE (if r \<noteq> NoNode
                then thenE (generate_code E s r) (move_between_stacks (ident_on_int_stack E ident) (is_on_int_stack E r))
                else ret ())
           (store_ident E ident)
     | OpSubscriptNode atom subscr \<Rightarrow>
         thenE (thenE (generate_code E s atom) (move_between_stacks False (is_on_int_stack E atom)))
        (thenE (if r \<noteq> NoNode then thenE (generate_code E s r) (move_between_stacks False (is_on_int_stack E r)) else ret ())
        (thenE (thenE (generate_code E s subscr) (move_between_stacks False (is_on_int_stack E subscr)))
        (thenE (emitCall 11 2)
        (if getType E atom = None then plc_error ''type'' else ret ()))))
     | _ \<Rightarrow> plc_error ''unknown left Node'')"
| "generate_code E s (OpVassignNode l r) =
     thenE (if l \<noteq> NoNode then thenE (generate_code E s l) (move_between_stacks False (is_on_int_stack E l)) else ret ())
    (thenE (if r \<noteq> NoNode then thenE (generate_code E s r) (move_between_stacks False (is_on_int_stack E r)) else ret ())
    (plc_error ''not implemented''))"
| "generate_code E s (OpSubscriptNode atom subscr) =
     thenE (thenE (generate_code E s atom) (move_between_stacks False (is_on_int_stack E atom)))
    (thenE (thenE (generate_code E s subscr) (move_between_stacks False (is_on_int_stack E subscr)))
    (emitCall 10 1))"
| "generate_code E s (OpArrayLength atom) =
    (case getType E atom of
       Some (T_container c) \<Rightarrow>
         thenE (thenE (generate_code E s atom) (move_between_stacks False (is_on_int_stack E atom))) (emitCall 12 0)
     | _ \<Rightarrow> plc_error ''not a container'')"
| "generate_code E s (VoidNode l) =
     thenE (thenE (generate_code E s l) (move_between_stacks (is_on_int_stack E l) (is_on_int_stack E l)))
       (if is_on_int_stack E l then emitIsDrop else emitOsDrop)"
| "generate_code E s (SequenceNode l r) =
     thenE (if l \<noteq> NoNode then thenE (generate_code E s l) (move_between_stacks False (is_on_int_stack E l)) else ret ())
       (if r \<noteq> NoNode then thenE (generate_code E s r) (move_between_stacks False (is_on_int_stack E r)) else ret ())"
| "generate_code E s (StatementsNode ns) = iterE (generate_code E s) ns"
| "generate_code E s (IfNode l m r) =
    (if l = NoNode then plc_error ''no expression'' else
     thenE (generate_code E s l) (thenE (if is_on_int_stack E l then ret () else emit_o2i)
    (if getType E l = None then plc_error ''type'' else
     bindE getLabel (\<lambda>label_no. bindE getLabel (\<lambda>label_after.
     thenE (emitJz label_no)
    (thenE (if m \<noteq> NoNode then generate_code E s m else ret ())
    (thenE (if r \<noteq> NoNode then emitJmp label_after else ret ())
    (thenE (markLabel label_no)
    (if r \<noteq> NoNode then thenE (generate_code E s r) (markLabel label_after) else ret ())))))))))"
| "generate_code E s (DoWhileNode l m r) =
    (if m = NoNode then plc_error ''no expression'' else
     bindE getLabel (\<lambda>label_continue. bindE getLabel (\<lambda>label_break.
     let s' = \<lparr>gs_continue = label_continue, gs_break = label_break\<rparr> in
     thenE (markLabel label_continue)
    (thenE (if l \<noteq> NoNode then generate_code E s' l else ret ())
    (thenE (generate_code E s' m)
    (thenE (if is_on_int_stack E m then ret () else emit_o2i)
    (if getType E m = None then plc_error ''type'' else
     thenE (emitJz label_break)
    (thenE (if r \<noteq> NoNode then generate_code E s' r else ret ())
    (thenE (emitJmp label_continue) (markLabel label_break))))))))))"
| "generate_code E s BreakNode =
    (if gs_break s = None then plc_error ''nothing to break out from'' else emitJmp (gs_break s))"
| "generate_code E s ContinueNode =
    (if gs_continue s = None then plc_error ''nothing to continue here'' else emitJmp (gs_continue s))"
| "generate_code E s (ReturnNode l) =
     thenE (if l \<noteq> NoNode then thenE (generate_code E s l) (move_between_stacks False (is_on_int_stack E l)) else ret ())
    (thenE (if ge_debug E then emitDebug 2 (Some ''Disabled debug'') else ret ()) emitRet)"
| "generate_code E s (ThrowNode l) =
     thenE (if l \<noteq> NoNode then thenE (generate_code E s l) (move_between_stacks False (is_on_int_stack E l)) else ret ())
       emitThrow"
| "generate_code E s (JumpNode lbl) = emitJmp lbl"
| "generate_code E s (JzNode lbl) = emitJz lbl"
| "generate_code E s (JumpTargetNode lbl) = markLabel lbl"
| "generate_code E s (SwitchLabelNode lbl) = thenE (markLabel lbl) emitIsDrop"
| "generate_code E s (SwitchNode e cases deflt bdy) =
    (if e = NoNode then plc_error ''no expression to switch on'' else
     thenE (thenE (generate_code E s e) (move_between_stacks True (is_on_int_stack E e)))
    (thenE (iterE (\<lambda>(lbl, ce). thenE emitIsDup
         (thenE (thenE (generate_code E s ce) (move_between_stacks True (is_on_int_stack E ce)))
         (thenE emitISubLU (emitJz lbl)))) cases)
    (thenE (emitJmp (case deflt of Some lbl \<Rightarrow> lbl | None \<Rightarrow> gs_break s))
    (bindE getLabel (\<lambda>break_label.
     thenE (if bdy \<noteq> NoNode then generate_code E (s\<lparr>gs_break := break_label\<rparr>) bdy else ret ())
       (markLabel break_label))))))"
| "generate_code E s (SwitchListNode e cases deflt) =
    (if e = NoNode then plc_error ''no expression to switch on''
     else if getType E e \<noteq> Some T_int then plc_error ''not an integer expression''
     else thenE (thenE (generate_code E s e) (move_between_stacks True (is_on_int_stack E e)))
         (thenE (iterE (\<lambda>(lbl, v). thenE emitIsDup (thenE (emitIConst_32bit v) (thenE emitISubLU (emitJz lbl)))) cases)
         (thenE emitIsDrop (emitJmp deflt))))"
| "generate_code E s (CallArgNode l r) =
     thenE (if l \<noteq> NoNode then thenE (generate_code E s l) (move_between_stacks False (is_on_int_stack E l)) else ret ())
       (if r \<noteq> NoNode then thenE (generate_code E s r) (move_between_stacks False (is_on_int_stack E r)) else ret ())"
| "generate_code E s (OpMethodCallNode l m r) =
     thenE (thenE (generate_code E s l) (move_between_stacks False (is_on_int_stack E l)))
    (thenE (if r \<noteq> NoNode then generate_code E s r else ret ())
    (case method_ordinal E (getType E l) m of
       None \<Rightarrow> plc_error ''don't know Method number''
     | Some k \<Rightarrow> with_params r (emitCall (word_of_nat k))))"
| "generate_code E s (OpDynamicMethodCallNode l name r) =
     thenE (with_params r (\<lambda>_. ret ()))
    (thenE (if r \<noteq> NoNode then generate_code E s r else ret ())
    (thenE (with_params r emitIConst_32bit)
    (thenE (thenE (generate_code E s l) (move_between_stacks False (is_on_int_stack E l)))
    (thenE (emitString name) emitDynamicCall))))"
| "generate_code E s (CatchNode t ident l r) =
     bindE getLabel (\<lambda>out_label. bindE getLabel (\<lambda>catch_label.
     if l = NoNode then plc_error ''can't skip code'' else
     thenE (emit_get_class_object t)
    (thenE (emitPushCatcher catch_label)
    (thenE (generate_code E s l)
    (thenE emitPopCatcher
    (thenE (emitJmp out_label)
    (thenE (markLabel catch_label)
    (thenE (case get_var ident (ge_svars E) of
        None \<Rightarrow> plc_error ''no variable??''
      | Some v \<Rightarrow> emitSet (word_of_nat (sv_pos v)))
    (thenE (if r \<noteq> NoNode then thenE (generate_code E s r) (move_between_stacks False (is_on_int_stack E r)) else ret ())
    (markLabel out_label))))))))))"
| "generate_code E s (ForeachNode ident l r) =
     bindE getLabel (\<lambda>break_label. bindE getLabel (\<lambda>continue_label.
     case (get_var ident (ge_svars E), get_var (ident @ ''$iterator'') (ge_svars E)) of
       (Some svar, Some ivar) \<Rightarrow>
        if l = NoNode then plc_error ''need something to iterate on''
        else if is_on_int_stack E l then plc_error ''can't iterate on integer''
        else (let s' = \<lparr>gs_continue = continue_label, gs_break = break_label\<rparr> in
         thenE (generate_code E s' l) (thenE (emitCall 8 0) (thenE (emitSet (word_of_nat (sv_pos ivar)))
        (thenE (markLabel continue_label) (thenE (emitGet (word_of_nat (sv_pos ivar))) (thenE emitOsDup
        (thenE (emitCall 8 0) (thenE emitOsDup (thenE (emitSet (word_of_nat (sv_pos svar)))
        (thenE emitIsNull (thenE emitLogNot (thenE (emitJz break_label)
        (thenE (emitCall 333 0)
        (thenE (if r \<noteq> NoNode then generate_code E s' r else ret ())
        (thenE (emitJmp continue_label) (thenE (markLabel break_label) emitOsDrop))))))))))))))))
     | _ \<Rightarrow> plc_error ''no variable??''))"
| "generate_code E s (NewNode st l r) =
    (if st = None \<and> l = NoNode then plc_error ''no type known'' else
     thenE (if l \<noteq> NoNode
            then thenE (generate_code E s l)
                   (if is_on_int_stack E l then plc_error ''type expression can't be int'' else ret ())
            else emit_get_class_object (the st))
    (thenE emitNew
    (if r \<noteq> NoNode then thenE (generate_code E s r) (plc_error ''no constructor parameters yet'') else ret ())))"
| "generate_code E s (SummonClassNode t) = emit_get_class_object t"
| "generate_code E s (InstanceOfNode l t) =
     thenE (if l \<noteq> NoNode then thenE (generate_code E s l) (move_between_stacks False (is_on_int_stack E l)) else ret ())
    (thenE (emit_get_class_object t) (emitCall 14 1))"
| "generate_code E s (MonitorNode l lock) =
     thenE (thenE (generate_code E s l) (move_between_stacks False (is_on_int_stack E l)))
    (thenE (thenE (generate_code E s l) (move_between_stacks False (is_on_int_stack E l)))
    (if lock then emitLock else emitUnLock))"
| "generate_code E s (StaticLoadNode c ident) = (case ge_static E ident of
       None \<Rightarrow> plc_error ''no such field in class''
     | Some ord \<Rightarrow> thenE (emitSummonByName c) (thenE (emitIConst_32bit (word_of_nat ord)) (emitCall 11 1)))"
| "generate_code E s (StaticSaveNode c ident l) = (case ge_static E ident of
       None \<Rightarrow> plc_error ''no such field in class''
     | Some ord \<Rightarrow>
         thenE (thenE (generate_code E s l) (move_between_stacks False (is_on_int_stack E l)))
        (thenE (emitSummonByName c) (thenE (emitIConst_32bit (word_of_nat ord))
        (thenE (thenE (generate_code E s l) (move_between_stacks False (is_on_int_stack E l)))
        (emitCall 10 2)))))"

section \<open>Methods\<close>

record cmethod =
  cm_name :: string
  cm_class :: string
  cm_n_args :: nat
  cm_code :: node

definition generate_method :: "gen_env \<Rightarrow> cmethod \<Rightarrow> unit cgen" where
  "generate_method E m = (if cm_code m = NoNode then emitRet else
     bindE getLabel (\<lambda>good_args_label.
     thenE (emitIConst_32bit (word_of_nat (cm_n_args m)))
    (thenE emitISubLU
    (thenE (emitJz good_args_label)
    (thenE (emitString (''arg count: '' @ cm_name m @ '' in '' @ cm_class m))
    (thenE emitThrow
    (thenE (markLabel good_args_label)
    (thenE (if ge_debug E then emitDebug 1 (Some ''Enabled debug'') else ret ())
    (thenE (iterE (\<lambda>_. emitPushNull) (replicate (ps_used_slots (ge_svars E)) ()))
    (thenE (iterE (\<lambda>_. emitIConst_0) (replicate (ps_used_slots (ge_isvars E)) ()))
    (thenE (generate_code E \<lparr>gs_continue = None, gs_break = None\<rparr> (cm_code m))
    (thenE (if ge_debug E then emitDebug 2 (Some ''Disabled debug'') else ret ())
    emitRet))))))))))))"

end
