(* ===== verification/Relocation.thy ===== *)
theory Relocation
  imports Codegen
begin

text \<open>
  What a run of the code generator leaves in the file. Every generator writes a list of
  items: bytes, references to labels, and marks. Relocation is shown to replace each
  reference by the distance to the mark, whatever the order in which the hash map
  delivers the labels, and the virtual machine's fetch of a jump target to invert it.
\<close>

section \<open>Items\<close>

datatype item = Code "u8 list" | Ref label | Mark label

primrec run_item :: "item \<Rightarrow> unit cgen" where
  "run_item (Code bs) = put_bytes bs"
| "run_item (Ref l) = putNamedInt32Reference l"
| "run_item (Mark l) = markLabel l"

primrec item_size :: "item \<Rightarrow> nat" where
  "item_size (Code bs) = length bs"
| "item_size (Ref l) = 4"
| "item_size (Mark l) = 0"

definition items_size :: "item list \<Rightarrow> nat" where
  "items_size its = sum_list (map item_size its)"

lemma items_size_simps [simp]:
  "items_size [] = 0" "items_size (i # its) = item_size i + items_size its"
  "items_size (xs @ ys) = items_size xs + items_size ys"
  by (simp_all add: items_size_def)

text \<open>References and marks with their positions in the file; the items start at \<open>p\<close>.\<close>

fun refs :: "nat \<Rightarrow> item list \<Rightarrow> (label \<times> nat) list" where
  "refs p [] = []"
| "refs p (Ref l # its) = (l, p) # refs (p + 4) its"
| "refs p (Code bs # its) = refs (p + length bs) its"
| "refs p (Mark l # its) = refs p its"

fun marks :: "nat \<Rightarrow> item list \<Rightarrow> (label \<times> nat) list" where
  "marks p [] = []"
| "marks p (Mark l # its) = (l, p) # marks p its"
| "marks p (Code bs # its) = marks (p + length bs) its"
| "marks p (Ref l # its) = marks (p + 4) its"

text \<open>The bytes of the items, with the four bytes of the reference at \<open>q\<close> given by \<open>f q\<close>.\<close>

fun resolve :: "(nat \<Rightarrow> u8 list) \<Rightarrow> nat \<Rightarrow> item list \<Rightarrow> u8 list" where
  "resolve f p [] = []"
| "resolve f p (Code bs # its) = bs @ resolve f (p + length bs) its"
| "resolve f p (Ref l # its) = f p @ resolve f (p + 4) its"
| "resolve f p (Mark l # its) = resolve f p its"

definition link_bytes :: "nat \<Rightarrow> nat \<Rightarrow> u8 list" where
  "link_bytes a q = int32_bytes (word_of_int (int a - int q))"

text \<open>The items linked: every reference holds the distance to its label.\<close>

fun linked :: "(label \<Rightarrow> nat) \<Rightarrow> nat \<Rightarrow> item list \<Rightarrow> u8 list" where
  "linked lab p [] = []"
| "linked lab p (Code bs # its) = bs @ linked lab (p + length bs) its"
| "linked lab p (Ref l # its) = link_bytes (lab l) p @ linked lab (p + 4) its"
| "linked lab p (Mark l # its) = linked lab p its"

lemma length_link_bytes [simp]: "length (link_bytes a q) = 4"
  by (simp add: link_bytes_def)

lemma link_bytes_nonempty [simp]: "link_bytes a q \<noteq> []"
  by (simp add: link_bytes_def int32_bytes_def)

lemma refs_append [simp]: "refs p (xs @ ys) = refs p xs @ refs (p + items_size xs) ys"
  by (induction p xs rule: refs.induct) (simp_all add: add.assoc)

lemma marks_append [simp]: "marks p (xs @ ys) = marks p xs @ marks (p + items_size xs) ys"
  by (induction p xs rule: marks.induct) (simp_all add: add.assoc)

lemma resolve_append: "resolve f p (xs @ ys) = resolve f p xs @ resolve f (p + items_size xs) ys"
  by (induction f p xs rule: resolve.induct) (simp_all add: add.assoc)

lemma refs_bounds: "(l, q) \<in> set (refs p its) \<Longrightarrow> p \<le> q \<and> q + 4 \<le> p + items_size its"
  by (induction p its rule: refs.induct) auto

lemma marks_bounds: "(l, q) \<in> set (marks p its) \<Longrightarrow> p \<le> q \<and> q \<le> p + items_size its"
  by (induction p its rule: marks.induct) auto

lemma refs_functional:
  "(l, q) \<in> set (refs p its) \<Longrightarrow> (l', q) \<in> set (refs p its) \<Longrightarrow> l = l'"
  by (induction p its rule: refs.induct) (auto dest: refs_bounds)

lemma length_resolve: "(\<And>q. length (f q) = 4) \<Longrightarrow> length (resolve f p its) = items_size its"
  by (induction f p its rule: resolve.induct) auto

lemma length_linked [simp]: "length (linked lab p its) = items_size its"
  by (induction lab p its rule: linked.induct) auto

lemma resolve_linked:
  "(\<And>l q. (l, q) \<in> set (refs p its) \<Longrightarrow> f q = link_bytes (lab l) q) \<Longrightarrow> resolve f p its = linked lab p its"
  by (induction f p its rule: resolve.induct) auto

lemma resolve_cong: "(\<And>q. p \<le> q \<Longrightarrow> f q = g q) \<Longrightarrow> resolve f p its = resolve g p its"
  by (induction f p its rule: resolve.induct) auto

section \<open>Writing items\<close>

definition no_link :: "u8 list" where
  "no_link = int32_bytes 0xFFFFFFFF"

lemma length_no_link [simp]: "length no_link = 4"
  by (simp add: no_link_def)

lemma rf_write_end:
  "rf_pos f = length (rf_bytes f) \<Longrightarrow>
   rf_write bb f = \<lparr>rf_bytes = rf_bytes f @ bb, rf_pos = length (rf_bytes f) + length bb\<rparr>"
  by (cases f) (simp add: rf_write_def)

definition at_end :: "codegen \<Rightarrow> bool" where
  "at_end c \<longleftrightarrow> rf_pos (cg_os c) = length (rf_bytes (cg_os c))"

definition written :: "item list \<Rightarrow> codegen \<Rightarrow> codegen" where
  "written its c = (let p = rf_pos (cg_os c) in
     c\<lparr>cg_os := \<lparr>rf_bytes = rf_bytes (cg_os c) @ resolve (\<lambda>_. no_link) p its, rf_pos = p + items_size its\<rparr>,
       cg_fmap := fold (\<lambda>(l, a). fmap_add l a) (marks p its) (cg_fmap c),
       cg_bmap := fold (\<lambda>(l, a). bmap_add l a) (refs p its) (cg_bmap c)\<rparr>)"

lemma at_end_written: "at_end c \<Longrightarrow> at_end (written its c)"
  by (simp add: at_end_def written_def Let_def length_resolve)

lemma next_label_written [simp]: "cg_next_label (written its c) = cg_next_label c"
  by (simp add: written_def Let_def)

lemma written_append: "written ys (written xs c) = written (xs @ ys) c"
  by (simp add: written_def Let_def resolve_append add.assoc)

lemma written_Nil [simp]: "written [] c = c"
proof (cases c)
  case (fields f fm bm st n)
  then show ?thesis by (cases f) (simp add: written_def)
qed

lemma written_label_swap:
  "written its (c\<lparr>cg_next_label := n\<rparr>) = (written its c)\<lparr>cg_next_label := n\<rparr>"
  by (simp add: written_def Let_def)

lemma run_item_written: "at_end c \<Longrightarrow> run_item i c = Inr ((), written [i] c)"
  by (cases i) (simp_all add: at_end_def written_def put_bytes_def putNamedInt32Reference_def put_int32_def
      markLabel_def comp_simps rf_write_end no_link_def Let_def)

lemma run_items_written: "at_end c \<Longrightarrow> iterE run_item its c = Inr ((), written its c)"
proof (induction its arbitrary: c)
  case (Cons i its)
  then show ?case
    using written_append [of its "[i]" c]
    by (simp add: thenE_apply run_item_written at_end_written)
qed simp

section \<open>The label tables\<close>

lemma map_of_fmap_fold:
  assumes "distinct (map fst ms)"
  shows "map_of (fold (\<lambda>(l, a). fmap_add l a) ms []) = map_of ms"
proof -
  have "map_of (fold (\<lambda>(l, a). fmap_add l a) ms m) = (\<lambda>l. case map_of (rev ms) l of None \<Rightarrow> map_of m l | Some a \<Rightarrow> Some a)" for m
    by (induction ms arbitrary: m) (auto simp: fmap_add_def update_conv' fun_eq_iff map_add_def split: option.splits)
  moreover have "map_of (rev ms) = map_of ms"
    using assms by (simp add: map_of_inject_set rev_map [symmetric])
  ultimately show ?thesis by (simp add: fun_eq_iff split: option.splits)
qed

definition refs_to :: "label \<Rightarrow> (label \<times> nat) list \<Rightarrow> nat list" where
  "refs_to l rs = map snd (filter (\<lambda>(l', a). l' = l) rs)"

lemma map_of_bmap_fold:
  "map_of (fold (\<lambda>(l, a). bmap_add l a) rs m) l =
     (if refs_to l rs = [] then map_of m l
      else Some ((case map_of m l of None \<Rightarrow> [] | Some q \<Rightarrow> q) @ refs_to l rs))"
  by (induction rs arbitrary: m)
    (auto simp: bmap_add_def update_conv' refs_to_def split: option.splits)

lemma set_refs_to: "set (refs_to l rs) = {q. (l, q) \<in> set rs}"
  by (force simp: refs_to_def)

lemma refs_to_Nil: "refs_to l rs = [] \<longleftrightarrow> l \<notin> fst ` set rs"
  by (force simp: refs_to_def filter_empty_conv)

section \<open>Relocation\<close>

lemma patch_resolve:
  assumes "q \<in> snd ` set (refs p its)" "length b = 4" "\<And>x. length (f x) = 4" "length pre = p"
  shows "take q (pre @ resolve f p its) @ b @ drop (q + 4) (pre @ resolve f p its) =
    pre @ resolve (f(q := b)) p its"
  using assms
proof (induction f p its arbitrary: pre rule: resolve.induct)
  case (2 f p bs its)
  from 2(1) [of "pre @ bs"] 2(2-) show ?case by simp
next
  case (3 f p l its)
  show ?case
  proof (cases "q = p")
    case True
    moreover have "resolve (f(p := b)) (p + 4) its = resolve f (p + 4) its" by (rule resolve_cong) simp
    ultimately show ?thesis using 3(3-) by (simp del: fun_upd_apply add: fun_upd_same)
  next
    case False
    with 3(1) [of "pre @ f p"] 3(2-) show ?thesis by auto
  qed
qed auto

text \<open>The file after some references have been patched, the file pointer being anywhere.\<close>

definition patched :: "codegen \<Rightarrow> item list \<Rightarrow> (nat \<Rightarrow> u8 list) \<Rightarrow> codegen \<Rightarrow> bool" where
  "patched c its f c' \<longleftrightarrow> (\<forall>q. length (f q) = 4) \<and>
     rf_bytes (cg_os c') = rf_bytes (cg_os c) @ resolve f (length (rf_bytes (cg_os c))) its"

abbreviation in_range :: "codegen \<Rightarrow> item list \<Rightarrow> bool" where
  "in_range c its \<equiv> length (rf_bytes (cg_os c)) + items_size its < 2 ^ 31"

lemma correct_at_patches:
  assumes p: "patched c its f c'" and r: "in_range c its"
    and q: "q \<in> snd ` set (refs (length (rf_bytes (cg_os c))) its)"
    and a: "a \<le> length (rf_bytes (cg_os c)) + items_size its"
  obtains o' where "correct_at a q c' = Inr ((), c'\<lparr>cg_os := o'\<rparr>)"
    "patched c its (f(q := link_bytes a q)) (c'\<lparr>cg_os := o'\<rparr>)"
proof
  let ?p = "length (rf_bytes (cg_os c))"
  let ?o = "rf_write (link_bytes a q) (rf_seek q (cg_os c'))"
  have le: "q + 4 \<le> ?p + items_size its" using q refs_bounds by fastforce
  then have "int a - int q \<le> 2 ^ 31 - 1" "int a - int q \<ge> - (2 ^ 31)" using a r by simp_all
  then show "correct_at a q c' = Inr ((), c'\<lparr>cg_os := ?o\<rparr>)"
    by (simp add: correct_at_def comp_simps put_int32_def put_bytes_def link_bytes_def Let_def)
  have "length (rf_bytes (cg_os c')) = ?p + items_size its"
    using p by (simp add: patched_def length_resolve)
  then have "rf_bytes ?o = take q (rf_bytes (cg_os c')) @ link_bytes a q @ drop (q + 4) (rf_bytes (cg_os c'))"
    using le by (simp add: rf_write_def rf_seek_def Let_def)
  with p patch_resolve [OF q length_link_bytes]
  show "patched c its (f(q := link_bytes a q)) (c'\<lparr>cg_os := ?o\<rparr>)"
    by (simp add: patched_def)
qed

lemma correct_all_patches:
  assumes "patched c its f c'" "in_range c its"
    "set qs \<subseteq> snd ` set (refs (length (rf_bytes (cg_os c))) its)"
    "a \<le> length (rf_bytes (cg_os c)) + items_size its"
  obtains o' where "iterE (correct_at a) qs c' = Inr ((), c'\<lparr>cg_os := o'\<rparr>)"
    "patched c its (\<lambda>q. if q \<in> set qs then link_bytes a q else f q) (c'\<lparr>cg_os := o'\<rparr>)"
  using assms
proof (induction qs arbitrary: f c' thesis)
  case Nil
  from Nil(1) [of "cg_os c'"] Nil(2) show ?case by simp
next
  case (Cons q qs)
  obtain o1 where 1: "correct_at a q c' = Inr ((), c'\<lparr>cg_os := o1\<rparr>)"
      "patched c its (f(q := link_bytes a q)) (c'\<lparr>cg_os := o1\<rparr>)"
    using correct_at_patches [OF Cons(3,4) _ Cons(6), of q] Cons(5) by auto
  obtain o2 where 2: "iterE (correct_at a) qs (c'\<lparr>cg_os := o1\<rparr>) = Inr ((), c'\<lparr>cg_os := o2\<rparr>)"
      "patched c its (\<lambda>x. if x \<in> set qs then link_bytes a x else (f(q := link_bytes a q)) x) (c'\<lparr>cg_os := o2\<rparr>)"
    using Cons(1) [OF _ 1(2) Cons(4) _ Cons(6)] Cons(5) by auto
  have "(\<lambda>x. if x \<in> set qs then link_bytes a x else (f(q := link_bytes a q)) x) =
    (\<lambda>x. if x \<in> set (q # qs) then link_bytes a x else f x)" by auto
  with 1 2 Cons(2) [of o2] show ?case by (simp add: thenE_apply)
qed

text \<open>
  The state in the middle of relocation: the labels in \<open>don\<close> have been handled.
\<close>

definition relocating :: "codegen \<Rightarrow> item list \<Rightarrow> label set \<Rightarrow> codegen \<Rightarrow> bool" where
  "relocating c its don c' \<longleftrightarrow> (let p = length (rf_bytes (cg_os c)) in
     map_of (cg_fmap c') = map_of (marks p its) \<and>
     (\<forall>l. map_of (cg_bmap c') l = (if l \<in> don \<or> refs_to l (refs p its) = [] then None else Some (refs_to l (refs p its)))) \<and>
     (\<exists>f. patched c its f c' \<and>
       (\<forall>(l, q) \<in> set (refs p its). l \<in> don \<longrightarrow> f q = link_bytes (the (map_of (marks p its) l)) q)))"

lemma relocating_start:
  assumes "at_end c" "cg_fmap c = []" "cg_bmap c = []" "distinct (map fst (marks (rf_pos (cg_os c)) its))"
  shows "relocating c its {} (written its c)"
  using assms
  by (auto simp: relocating_def written_def Let_def at_end_def map_of_fmap_fold map_of_bmap_fold patched_def
      intro!: exI [of _ "\<lambda>_. no_link"])

lemma relocate_one_step:
  assumes r: "relocating c its don c'" and rng: "in_range c its"
    and m: "(l, a) \<in> set (marks (length (rf_bytes (cg_os c))) its)"
    and d: "distinct (map fst (marks (length (rf_bytes (cg_os c))) its))"
  shows "\<exists>c''. relocate_one l c' = Inr ((), c'') \<and> relocating c its (insert l don) c''"
proof -
  let ?p = "length (rf_bytes (cg_os c))" let ?rs = "refs ?p its"
  from r obtain f where f: "map_of (cg_fmap c') = map_of (marks ?p its)" "patched c its f c'"
      "\<And>l. map_of (cg_bmap c') l = (if l \<in> don \<or> refs_to l ?rs = [] then None else Some (refs_to l ?rs))"
      "\<And>l q. (l, q) \<in> set ?rs \<Longrightarrow> l \<in> don \<Longrightarrow> f q = link_bytes (the (map_of (marks ?p its) l)) q"
    unfolding relocating_def Let_def by blast
  have la: "map_of (marks ?p its) l = Some a" using m d by simp
  have ale: "a \<le> ?p + items_size its" using marks_bounds [OF m] by simp
  define qs where "qs = (case map_of (cg_bmap c') l of None \<Rightarrow> [] | Some qs \<Rightarrow> qs)"
  have "set qs = (if l \<in> don then {} else set (refs_to l ?rs))"
    unfolding qs_def f(3) by simp
  then have qs_eq: "set qs = (if l \<in> don then {} else {q. (l, q) \<in> set ?rs})"
    unfolding set_refs_to .
  have qs: "set qs \<subseteq> snd ` set ?rs"
    using qs_eq by (auto split: if_splits intro!: rev_image_eqI [of "(l, q)" for q])
  obtain o' where o: "iterE (correct_at a) qs c' = Inr ((), c'\<lparr>cg_os := o'\<rparr>)"
      "patched c its (\<lambda>q. if q \<in> set qs then link_bytes a q else f q) (c'\<lparr>cg_os := o'\<rparr>)"
    by (rule correct_all_patches [OF f(2) rng qs ale])
  let ?c = "c'\<lparr>cg_os := o', cg_bmap := bmap_remove l (cg_bmap c')\<rparr>"
  have "relocate_one l c' = Inr ((), ?c)"
    using o(1) by (simp add: relocate_one_def fmap_get_def correct_int32_def comp_simps f(1) la qs_def split: option.splits)
  moreover have "relocating c its (insert l don) ?c"
    unfolding relocating_def Let_def
  proof (intro conjI exI)
    show "patched c its (\<lambda>q. if q \<in> set qs then link_bytes a q else f q) ?c"
      using o(2) by (simp add: patched_def)
    show "\<forall>(k, q)\<in>set ?rs. k \<in> insert l don \<longrightarrow>
        (if q \<in> set qs then link_bytes a q else f q) = link_bytes (the (map_of (marks ?p its) k)) q"
      unfolding qs_eq using la f(4) refs_functional [of l _ ?p its] by fastforce
  qed (use f in \<open>auto simp: bmap_remove_def delete_conv'\<close>)
  ultimately show ?thesis by blast
qed

lemma relocate_iter:
  assumes "relocating c its don c'" "in_range c its" "set names \<subseteq> fst ` set (marks (length (rf_bytes (cg_os c))) its)"
    "distinct (map fst (marks (length (rf_bytes (cg_os c))) its))"
  shows "\<exists>c''. iterE relocate_one names c' = Inr ((), c'') \<and> relocating c its (don \<union> set names) c''"
  using assms
proof (induction names arbitrary: don c')
  case (Cons l names)
  then obtain a where "(l, a) \<in> set (marks (length (rf_bytes (cg_os c))) its)" by auto
  with relocate_one_step [OF Cons(2,3) _ Cons(5)] obtain c1
    where 1: "relocate_one l c' = Inr ((), c1)" "relocating c its (insert l don) c1" by blast
  with Cons(1) [OF 1(2) Cons(3) _ Cons(5)] Cons(4) show ?case by (auto simp: thenE_apply)
qed auto

text \<open>A generator that has just been pointed at the end of a file.\<close>

definition fresh_at :: "nat \<Rightarrow> codegen \<Rightarrow> bool" where
  "fresh_at p c \<longleftrightarrow> length (rf_bytes (cg_os c)) = p \<and> rf_pos (cg_os c) = p \<and> cg_fmap c = [] \<and> cg_bmap c = []"

text \<open>The names of the labels that the items mark, and of those they refer to.\<close>

definition marked_in :: "item list \<Rightarrow> label set" where
  "marked_in its = fst ` set (marks 0 its)"

definition used_in :: "item list \<Rightarrow> label set" where
  "used_in its = fst ` set (refs 0 its)"

definition marks_once :: "item list \<Rightarrow> bool" where
  "marks_once its \<longleftrightarrow> distinct (map fst (marks 0 its))"

lemma marks_shift: "marks (p + n) its = map (\<lambda>(l, a). (l, a + n)) (marks p its)"
  by (induction p its rule: marks.induct) (simp_all add: ac_simps)

lemma refs_shift: "refs (p + n) its = map (\<lambda>(l, a). (l, a + n)) (refs p its)"
  by (induction p its rule: refs.induct) (simp_all add: ac_simps)

lemma names_of_marks: "map fst (marks p its) = map fst (marks 0 its)"
  using marks_shift [of 0 p its] by (simp add: comp_def case_prod_beta)

lemma names_of_refs: "map fst (refs p its) = map fst (refs 0 its)"
  using refs_shift [of 0 p its] by (simp add: comp_def case_prod_beta)

lemma name_sets: "fst ` set (marks p its) = marked_in its" "fst ` set (refs p its) = used_in its"
  unfolding marked_in_def used_in_def
  by (metis names_of_marks list.set_map) (metis names_of_refs list.set_map)

lemma names_append [simp]:
  "marked_in (xs @ ys) = marked_in xs \<union> marked_in ys" "used_in (xs @ ys) = used_in xs \<union> used_in ys"
  using name_sets [of "items_size xs" ys] by (simp_all add: marked_in_def used_in_def image_Un)

lemma names_Cons [simp]:
  "marked_in (Code bs # its) = marked_in its" "marked_in (Ref l # its) = marked_in its"
  "marked_in (Mark l # its) = insert l (marked_in its)"
  "used_in (Code bs # its) = used_in its" "used_in (Ref l # its) = insert l (used_in its)"
  "used_in (Mark l # its) = used_in its"
  using name_sets [of 4 its] name_sets [of "length bs" its] by (simp_all add: marked_in_def used_in_def)

lemma names_Nil [simp]: "marked_in [] = {}" "used_in [] = {}"
  by (simp_all add: marked_in_def used_in_def)

lemma marks_once_Cons [simp]:
  "marks_once []" "marks_once (Code bs # its) = marks_once its" "marks_once (Ref l # its) = marks_once its"
  "marks_once (Mark l # its) \<longleftrightarrow> l \<notin> marked_in its \<and> marks_once its"
  by (simp_all add: marks_once_def names_of_marks [of "length bs"] names_of_marks [of 4] marked_in_def)

lemma marks_once_append [simp]:
  "marks_once (xs @ ys) \<longleftrightarrow> marks_once xs \<and> marks_once ys \<and> marked_in xs \<inter> marked_in ys = {}"
  by (simp add: marks_once_def names_of_marks [of "items_size xs"] marked_in_def)

lemma relocated:
  assumes "fresh_at p c" "marks_once its" "p + items_size its < 2 ^ 31" "set names = marked_in its"
  obtains c' where "iterE relocate_one names (written its c) = Inr ((), c')" "relocating c its (marked_in its) c'"
proof -
  have l: "length (rf_bytes (cg_os c)) = p" "rf_pos (cg_os c) = p" using assms(1) by (simp_all add: fresh_at_def)
  have d: "distinct (map fst (marks p its))"
    using assms(2) unfolding marks_once_def names_of_marks [of p its] .
  with assms(1) have "relocating c its {} (written its c)"
    by (intro relocating_start) (simp_all add: fresh_at_def at_end_def)
  from relocate_iter [OF this, of names, unfolded l name_sets(1) [of p]] assms(3,4) d that show thesis by auto
qed

lemma relocating_bmap:
  assumes "relocating c its (marked_in its) c'"
  shows "cg_bmap c' = [] \<longleftrightarrow> used_in its \<subseteq> marked_in its"
proof -
  let ?p = "length (rf_bytes (cg_os c))"
  have m: "map_of (cg_bmap c') l = None \<longleftrightarrow> l \<in> marked_in its \<or> l \<notin> used_in its" for l
    using assms by (simp add: relocating_def Let_def refs_to_Nil name_sets(2) [of ?p its])
  have "cg_bmap c' = [] \<longleftrightarrow> (\<forall>l. map_of (cg_bmap c') l = None)"
    by (metis map_of_eq_empty_iff)
  then show ?thesis unfolding m by blast
qed

lemma relocate_all_links:
  assumes "fresh_at p c" "marks_once its" "p + items_size its < 2 ^ 31" "set names = marked_in its"
    "used_in its \<subseteq> marked_in its"
  obtains c' where "relocate_all names (written its c) = Inr ((), c')"
    "rf_bytes (cg_os c') = rf_bytes (cg_os c) @ linked (\<lambda>l. the (map_of (marks p its) l)) p its"
proof -
  obtain c' where c': "iterE relocate_one names (written its c) = Inr ((), c')" "relocating c its (marked_in its) c'"
    by (rule relocated [OF assms(1-4)])
  have p: "length (rf_bytes (cg_os c)) = p" using assms(1) by (simp add: fresh_at_def)
  have "relocate_all names (written its c) = Inr ((), c')"
    using relocating_bmap [OF c'(2)] assms(5) by (simp add: relocate_all_def comp_simps c'(1))
  moreover obtain f where f: "patched c its f c'"
      "\<And>l q. (l, q) \<in> set (refs p its) \<Longrightarrow> l \<in> marked_in its \<Longrightarrow> f q = link_bytes (the (map_of (marks p its) l)) q"
    using c'(2) unfolding relocating_def Let_def p by blast
  have "l \<in> marked_in its" if "(l, q) \<in> set (refs p its)" for l q
    using that assms(5) name_sets(2) [of p its] by force
  with f have "resolve f p its = linked (\<lambda>l. the (map_of (marks p its) l)) p its"
    by (intro resolve_linked) blast
  with f(1) p have "rf_bytes (cg_os c') = rf_bytes (cg_os c) @ linked (\<lambda>l. the (map_of (marks p its) l)) p its"
    by (simp add: patched_def)
  ultimately show thesis by (rule that)
qed

lemma relocate_all_undefined:
  assumes "fresh_at p c" "marks_once its" "p + items_size its < 2 ^ 31" "set names = marked_in its"
    "\<not> used_in its \<subseteq> marked_in its"
  shows "relocate_all names (written its c) = Inl (Java_exception ''PlcException'' ''Undefined labels'')"
proof -
  obtain c' where c': "iterE relocate_one names (written its c) = Inr ((), c')" "relocating c its (marked_in its) c'"
    by (rule relocated [OF assms(1-4)])
  with relocating_bmap [OF c'(2)] assms(5) show ?thesis by (simp add: relocate_all_def comp_simps)
qed

section \<open>Jumps as the virtual machine reads them\<close>

lemma linked_append: "linked lab p (xs @ ys) = linked lab p xs @ linked lab (p + items_size xs) ys"
  by (induction lab p xs rule: linked.induct) (simp_all add: add.assoc)

lemma refs_split:
  "(l, q) \<in> set (refs p its) \<Longrightarrow> \<exists>xs ys. its = xs @ Ref l # ys \<and> q = p + items_size xs"
proof (induction p its rule: refs.induct)
  case (2 p k its)
  show ?case
  proof (cases "(l, q) = (k, p)")
    case True
    then show ?thesis by - (rule exI [of _ "[]"], auto)
  next
    case False
    with 2 obtain xs ys where "its = xs @ Ref l # ys" "q = p + 4 + items_size xs" by auto
    then show ?thesis by - (rule exI [of _ "Ref k # xs"], auto)
  qed
next
  case (3 p bs its)
  then obtain xs ys where "its = xs @ Ref l # ys" "q = p + length bs + items_size xs" by auto
  then show ?case by - (rule exI [of _ "Code bs # xs"], auto)
next
  case (4 p k its)
  then obtain xs ys where "its = xs @ Ref l # ys" "q = p + items_size xs" by auto
  then show ?case by - (rule exI [of _ "Mark k # xs"], auto)
qed auto

lemma linked_at:
  "(l, q) \<in> set (refs p its) \<Longrightarrow> take 4 (drop (q - p) (linked lab p its)) = link_bytes (lab l) q"
  by (auto simp: linked_append dest!: refs_split)

lemma link_target:
  assumes "p \<le> a" "p \<le> q" "a - p < 2 ^ 32"
  shows "unat (word_of_nat (q - p) + pvm_code_do_get_int (link_bytes a q)) = a - p"
proof -
  have "int a - int q = int (a - p) - int (q - p)" using assms by simp
  then have "word_of_nat (q - p) + (word_of_int (int a - int q) :: i32) = word_of_nat (a - p)"
    by (metis of_int_of_nat_eq of_int_add add.commute diff_add_cancel)
  then show ?thesis using assms(3) by (simp add: link_bytes_def unat_of_nat take_bit_eq_mod)
qed

lemma linked_jump:
  assumes "(l, q) \<in> set (refs p its)" "p \<le> lab l" "lab l - p < 2 ^ 32" "items_size its + 8 < 2 ^ 32"
  shows "pvm_code_get_rel_IP_as_abs \<lparr>ch_code = linked lab p its, ch_IP = q - p, ch_IP_max = items_size its\<rparr> =
    Inr (lab l - p, \<lparr>ch_code = linked lab p its, ch_IP = q - p + 4, ch_IP_max = items_size its\<rparr>)"
proof -
  let ?c = "\<lparr>ch_code = linked lab p its, ch_IP = q - p, ch_IP_max = items_size its\<rparr>"
  have b: "p \<le> q" "q - p + 4 \<le> items_size its" using refs_bounds [OF assms(1)] by auto
  have "code_ok ?c" "4 \<le> length (upcoming ?c)" "take 4 (upcoming ?c) = link_bytes (lab l) q"
    using b assms linked_at [OF assms(1)] by (simp_all add: code_ok_def upcoming_def)
  then show ?thesis
    using link_target [OF assms(2) b(1) assms(3)] by (simp add: get_rel_IP_eval at_IP_def)
qed

section \<open>Properties\<close>

text \<open>
  C14. Jumps reach their labels. Let the code generator, pointed at the end of a file of
  \<open>p\<close> bytes, write any sequence of code, references and marks in which every label is
  marked once and every referenced label is marked. Then relocation succeeds for every
  order in which the hash map enumerates the labels, the file grows by the code only, and
  the virtual machine, fetching a jump target at the reference, gets the position of the
  mark, both counted from the start of the code. The file stays below $2^{31}$ bytes.
\<close>

theorem relocation_links_jumps:
  assumes c: "fresh_at p c" and o: "marks_once its" and n: "p + items_size its < 2 ^ 31"
    and names: "set names = marked_in its" and u: "used_in its \<subseteq> marked_in its"
    and r: "(l, q) \<in> set (refs p its)" and m: "(l, a) \<in> set (marks p its)"
  shows "\<exists>c' code h. thenE (iterE run_item its) (relocate_all names) c = Inr ((), c') \<and>
    rf_bytes (cg_os c') = rf_bytes (cg_os c) @ code \<and> length code = items_size its \<and>
    pvm_code_get_rel_IP_as_abs \<lparr>ch_code = code, ch_IP = q - p, ch_IP_max = length code\<rparr> = Inr (a - p, h)"
proof -
  let ?lab = "\<lambda>l. the (map_of (marks p its) l)"
  obtain c' where c': "relocate_all names (written its c) = Inr ((), c')"
      "rf_bytes (cg_os c') = rf_bytes (cg_os c) @ linked ?lab p its"
    by (rule relocate_all_links [OF c o n names u])
  have "at_end c" using c by (simp add: fresh_at_def at_end_def)
  with c' have run: "thenE (iterE run_item its) (relocate_all names) c = Inr ((), c')"
    by (simp add: thenE_apply run_items_written)
  have "distinct (map fst (marks p its))" using o unfolding marks_once_def names_of_marks [of p its] .
  with m have lab: "?lab l = a" by simp
  have "p \<le> a" "a - p < 2 ^ 32" "items_size its + 8 < 2 ^ 32"
    using marks_bounds [OF m] n by auto
  with linked_jump [OF r, of ?lab] lab run c'(2) show ?thesis by fastforce
qed

text \<open>The items of a loop: a mark, a conditional jump out of it, a jump back, the exit mark.\<close>

definition loop_items :: "item list" where
  "loop_items = [Mark (Some ''top''), Code [opcode_jz], Ref (Some ''out''), Code [opcode_jmp],
     Ref (Some ''top''), Mark (Some ''out'')]"

theorem relocation_links_jumps_witness:
  "\<exists>c' code h. thenE (iterE run_item loop_items) (relocate_all [Some ''out'', Some ''top'']) new_codegen = Inr ((), c') \<and>
    rf_bytes (cg_os c') = rf_bytes (cg_os new_codegen) @ code \<and> length code = items_size loop_items \<and>
    pvm_code_get_rel_IP_as_abs \<lparr>ch_code = code, ch_IP = 6 - 0, ch_IP_max = length code\<rparr> = Inr (0 - 0, h)"
  by (rule relocation_links_jumps [where l = "Some ''top''"])
    (auto simp: fresh_at_def new_codegen_def loop_items_def)

text \<open>
  C25. Undefined labels are reported: if the written code, which marks no label twice and
  keeps the file below $2^{31}$ bytes, refers to a label that it does not mark, relocation ends with the exception \<^verbatim>\<open>PlcException("Undefined labels")\<close>, for every
  order of the hash map.
\<close>

theorem undefined_labels_rejected:
  assumes "fresh_at p c" "marks_once its" "p + items_size its < 2 ^ 31" "set names = marked_in its"
    "l \<in> used_in its" "l \<notin> marked_in its"
  shows "thenE (iterE run_item its) (relocate_all names) c =
    Inl (Java_exception ''PlcException'' ''Undefined labels'')"
proof -
  have "at_end c" using assms(1) by (simp add: fresh_at_def at_end_def)
  moreover have "\<not> used_in its \<subseteq> marked_in its" using assms(5,6) by blast
  ultimately show ?thesis
    using relocate_all_undefined [OF assms(1-4)] by (simp add: thenE_apply run_items_written)
qed

theorem undefined_labels_rejected_witness:
  "thenE (iterE run_item [Code [opcode_jmp], Ref None]) (relocate_all []) new_codegen =
    Inl (Java_exception ''PlcException'' ''Undefined labels'')"
  by (rule undefined_labels_rejected [where p = 0 and l = None])
    (auto simp: fresh_at_def new_codegen_def)

text \<open>
  C24. Operands survive the way from the compiler to the virtual machine: a 32-bit constant,
  and a string shorter than $2^{31}$ bytes, appended to code of at most $2^{30}$ bytes by
  the emit functions, are fetched by the machine at the byte after the opcode exactly as
  they were.
\<close>

theorem operands_round_trip:
  assumes "at_end c" "length (rf_bytes (cg_os c)) \<le> 2 ^ 30" "length s < 2 ^ 31"
  shows "\<exists>c1 c2 h1 h2. emitIConst_32bit v c = Inr ((), c1) \<and> emitBinary s c = Inr ((), c2) \<and>
    pvm_code_get_int32 \<lparr>ch_code = rf_bytes (cg_os c1), ch_IP = length (rf_bytes (cg_os c)) + 1,
      ch_IP_max = length (rf_bytes (cg_os c1))\<rparr> = Inr (v, h1) \<and>
    pvm_code_get_string \<lparr>ch_code = rf_bytes (cg_os c2), ch_IP = length (rf_bytes (cg_os c)) + 1,
      ch_IP_max = length (rf_bytes (cg_os c2))\<rparr> = Inr (s, h2)"
proof -
  let ?b = "rf_bytes (cg_os c)"
  define i where "i = ?b @ opcode_iconst_32bit # int32_bytes v"
  define t where "t = ?b @ opcode_sconst_bin # string_bin_bytes s"
  have w: "put_bytes bb d = Inr ((), written [Code bb] d)" if "at_end d" for bb d
    using run_item_written [OF that, of "Code bb"] by simp
  have c1: "emitIConst_32bit v c = Inr ((), written [Code [opcode_iconst_32bit], Code (int32_bytes v)] c)"
    using assms(1) by (simp add: emitIConst_32bit_def put_byte_def put_int32_def thenE_apply w at_end_written
        written_append)
  have c2: "emitBinary s c = Inr ((), written [Code [opcode_sconst_bin], Code (int32_bytes (word_of_nat (length s))), Code s] c)"
    using assms(1) by (simp add: emitBinary_def put_byte_def put_int32_def put_string_bin_def thenE_apply w
        at_end_written written_append)
  let ?h = "\<lambda>bs. \<lparr>ch_code = bs, ch_IP = length ?b + 1, ch_IP_max = length bs\<rparr>"
  have "pvm_code_get_int32 (?h i) = Inr (v, at_IP (length ?b + 5) (?h i))"
    using assms(2) by (subst get_int32_cases) (simp_all add: code_ok_def upcoming_def i_def)
  moreover have "pvm_code_get_string (?h t) = Inr (s, at_IP (length ?b + 1 + 4 + length s) (?h t))"
    using assms(2,3) get_string_eval [of "?h t" "length s"]
    by (simp add: code_ok_def upcoming_def t_def string_bin_bytes_def)
  ultimately show ?thesis
    using c1 c2 by (simp add: written_def Let_def i_def t_def string_bin_bytes_def)
qed

theorem operands_round_trip_witness:
  "\<exists>c1 c2 h1 h2. emitIConst_32bit 200 new_codegen = Inr ((), c1) \<and>
    emitBinary (getBytes ''phantom'') new_codegen = Inr ((), c2) \<and>
    pvm_code_get_int32 \<lparr>ch_code = rf_bytes (cg_os c1), ch_IP = length (rf_bytes (cg_os new_codegen)) + 1,
      ch_IP_max = length (rf_bytes (cg_os c1))\<rparr> = Inr (200, h1) \<and>
    pvm_code_get_string \<lparr>ch_code = rf_bytes (cg_os c2), ch_IP = length (rf_bytes (cg_os new_codegen)) + 1,
      ch_IP_max = length (rf_bytes (cg_os c2))\<rparr> = Inr (getBytes ''phantom'', h2)"
  by (rule operands_round_trip) (simp_all add: at_end_def new_codegen_def getBytes_def)

lemma get_written_int32:
  "fst (get_int32 (rf_seek (rf_pos f) (rf_write (int32_bytes v) f))) =
     scast (low8 v) OR push_bit 8 (scast (low8 (signed_drop_bit 8 v))) OR push_bit 16 (scast (low8 (signed_drop_bit 16 v))) OR
     push_bit 24 (scast (low8 (signed_drop_bit 24 v)))"
proof -
  have "take 4 (drop (rf_pos f) (rf_bytes (rf_write (int32_bytes v) f))) = int32_bytes v"
    by (cases "rf_pos f \<le> length (rf_bytes f)") (simp_all add: rf_write_def int32_bytes_def Let_def)
  then show ?thesis by (simp add: get_int32_def rf_read_def rf_seek_def Let_def) (simp add: int32_bytes_def)
qed

lemma bit_low8: "bit (low8 v) n \<longleftrightarrow> n < 8 \<and> bit v n"
proof -
  have "v AND 0xFF = v AND mask 8" by (simp add: mask_eq_exp_minus_1)
  then show ?thesis by (auto simp: low8_def bit_simps dest: bit_imp_le_length)
qed

text \<open>
  C28. The reader of class files does not invert the writer. What \<^verbatim>\<open>put_int32\<close> writes for a number \<open>v\<close>
  \<^verbatim>\<open>Fileops.get_int32\<close> reads back, from the same place of the file, as \<open>v\<close> with all bits
  above bit 7, 15 or 23 set whenever that bit is set in \<open>v\<close>, because each byte is
  sign-extended before they are combined.
\<close>

theorem get_int32_sign_extends:
  "\<exists>c'. put_int32 v c = Inr ((), c') \<and>
     fst (get_int32 (rf_seek (rf_pos (cg_os c)) (cg_os c'))) =
       v OR (if bit v 7 then - 0x100 else 0) OR (if bit v 15 then - 0x10000 else 0) OR (if bit v 23 then - 0x1000000 else 0)"
proof -
  have m: "(- 0x100 :: i32) = push_bit 8 (mask 24)" "(- 0x10000 :: i32) = push_bit 16 (mask 16)"
    "(- 0x1000000 :: i32) = push_bit 24 (mask 8)"
    by (simp_all add: mask_eq_exp_minus_1 push_bit_eq_mult)
  have "scast (low8 v) OR push_bit 8 (scast (low8 (signed_drop_bit 8 v))) OR push_bit 16 (scast (low8 (signed_drop_bit 16 v))) OR
      push_bit 24 (scast (low8 (signed_drop_bit 24 v))) =
    v OR (if bit v 7 then - 0x100 else 0) OR (if bit v 15 then - 0x10000 else 0) OR (if bit v 23 then - 0x1000000 else 0)"
    unfolding m
  proof (rule bit_word_eqI)
    fix n assume "n < LENGTH(32)"
    then consider "n < 7" | "n = 7" | "8 \<le> n" "n < 15" | "n = 15" | "16 \<le> n" "n < 23" | "n = 23" | "24 \<le> n" "n < 31" | "n = 31"
      by fastforce
    then show "bit (scast (low8 v) OR push_bit 8 (scast (low8 (signed_drop_bit 8 v))) OR
        push_bit 16 (scast (low8 (signed_drop_bit 16 v))) OR push_bit 24 (scast (low8 (signed_drop_bit 24 v))) :: i32) n =
      bit (v OR (if bit v 7 then push_bit 8 (mask 24) else 0) OR (if bit v 15 then push_bit 16 (mask 16) else 0) OR
        (if bit v 23 then push_bit 24 (mask 8) else 0)) n"
      by cases (auto simp: bit_simps bit_low8 min_def)
  qed
  then show ?thesis by (simp add: put_int32_def put_bytes_def get_written_int32)
qed

end
