(* ===== verification/Compile_Items.thy ===== *)
theory Compile_Items
  imports Compiler_Nodes Relocation
begin

text \<open>
  The integer part of the language as code items. For expressions over integer variables
  and constants and for statements built from them (assignment, sequences, conditionals,
  loops with break and continue, return), \<open>expr_items\<close> and \<open>stmt_items\<close> give the items that
  \<^verbatim>\<open>generate_code\<close> writes, as a function of the next free label; the code generator is
  proved to write exactly these, and their labels to be fresh, marked once and defined.
\<close>

section \<open>The integer part of the language\<close>

text \<open>The stack position of an integer variable.\<close>

definition int_var :: "gen_env \<Rightarrow> string \<Rightarrow> nat option" where
  "int_var E x = (if ge_field E x \<noteq> None then None else
     case get_var x (ge_isvars E) of
       Some v \<Rightarrow> (if sv_type v = T_int \<and> sv_pos v < 2 ^ 32 then Some (sv_pos v) else None)
     | None \<Rightarrow> None)"

fun int_expr :: "gen_env \<Rightarrow> node \<Rightarrow> bool" where
  "int_expr E (IntConstNode v) = True"
| "int_expr E (IdentNode x) = (int_var E x \<noteq> None)"
| "int_expr E (BinNode b l r) = (int_expr E l \<and> int_expr E r)"
| "int_expr E (ValEqNode l r) = (int_expr E l \<and> int_expr E r)"
| "int_expr E (ValNeqNode l r) = (int_expr E l \<and> int_expr E r)"
| "int_expr E (OpNotNode l) = int_expr E l"
| "int_expr E (BoolNotNode l) = int_expr E l"
| "int_expr E (OpAssignNode l r) = (case l of IdentNode x \<Rightarrow> int_var E x \<noteq> None \<and> int_expr E r | _ \<Rightarrow> False)"
| "int_expr E n = False"

text \<open>\<open>lp\<close> tells whether the statement is inside a loop.\<close>

fun int_stmt :: "gen_env \<Rightarrow> bool \<Rightarrow> node \<Rightarrow> bool" where
  "int_stmt E lp EmptyNode = True"
| "int_stmt E lp (VoidNode e) = int_expr E e"
| "int_stmt E lp (SequenceNode a b) = (int_stmt E lp a \<and> int_stmt E lp b)"
| "int_stmt E lp (IfNode e m r) =
     (int_expr E e \<and> (m = NoNode \<or> int_stmt E lp m) \<and> (r = NoNode \<or> int_stmt E lp r))"
| "int_stmt E lp (DoWhileNode l e r) =
     (int_expr E e \<and> (l = NoNode \<or> int_stmt E True l) \<and> (r = NoNode \<or> int_stmt E True r))"
| "int_stmt E lp BreakNode = lp"
| "int_stmt E lp ContinueNode = lp"
| "int_stmt E lp (ReturnNode l) = (l = NoNode)"
| "int_stmt E lp n = False"

primrec binop_code :: "binop \<Rightarrow> u8" where
  "binop_code OpPlus = opcode_isum"
| "binop_code OpMinus = opcode_isublu"
| "binop_code OpMultiply = opcode_imul"
| "binop_code OpDivide = opcode_idivlu"
| "binop_code OpRemainder = opcode_iremlu"
| "binop_code OpAnd = opcode_iand"
| "binop_code OpOr = opcode_ior"
| "binop_code OpXor = opcode_ior"
| "binop_code OpShiftLeft = opcode_ishl"
| "binop_code OpShiftRight = opcode_ishr"
| "binop_code OpShiftRightUnsigned = opcode_ushr"
| "binop_code BoolAnd = opcode_log_and"
| "binop_code BoolOr = opcode_log_or"
| "binop_code ValGe = opcode_ige"
| "binop_code ValGt = opcode_igt"
| "binop_code ValLe = opcode_ile"
| "binop_code ValLt = opcode_ilt"

fun expr_items :: "gen_env \<Rightarrow> node \<Rightarrow> item list" where
  "expr_items E (IntConstNode v) = [Code (opcode_iconst_32bit # int32_bytes v)]"
| "expr_items E (IdentNode x) = [Code (opcode_is_get32 # int32_bytes (word_of_nat (the (int_var E x))))]"
| "expr_items E (BinNode b l r) = expr_items E l @ expr_items E r @ [Code [binop_code b]]"
| "expr_items E (ValEqNode l r) = expr_items E l @ expr_items E r @ [Code [opcode_isublu], Code [opcode_log_not]]"
| "expr_items E (ValNeqNode l r) = expr_items E l @ expr_items E r @ [Code [opcode_isublu]]"
| "expr_items E (OpNotNode l) = expr_items E l @ [Code [opcode_inot]]"
| "expr_items E (BoolNotNode l) = expr_items E l @ [Code [opcode_log_not]]"
| "expr_items E (OpAssignNode l r) = (case l of
       IdentNode x \<Rightarrow> expr_items E r @ [Code [opcode_is_dup], Code (opcode_is_set32 # int32_bytes (word_of_nat (the (int_var E x))))]
     | _ \<Rightarrow> [])"
| "expr_items E n = []"

definition jump_item :: "u8 \<Rightarrow> label \<Rightarrow> item list" where
  "jump_item op l = [Code [op], Ref l]"

fun stmt_items :: "gen_env \<Rightarrow> gen_state \<Rightarrow> node \<Rightarrow> nat \<Rightarrow> item list \<times> nat" where
  "stmt_items E s (VoidNode e) n = (expr_items E e @ [Code [opcode_is_drop]], n)"
| "stmt_items E s (SequenceNode a b) n =
    (let (xs, n1) = stmt_items E s a n; (ys, n2) = stmt_items E s b n1 in (xs @ ys, n2))"
| "stmt_items E s (IfNode e m r) n =
    (let no = label_name n; after = label_name (n + 1);
         (xs, n1) = stmt_items E s m (n + 2); (ys, n2) = stmt_items E s r n1
     in (expr_items E e @ jump_item opcode_jz no @ xs @
         (if r \<noteq> NoNode then jump_item opcode_jmp after else []) @ [Mark no] @
         (if r \<noteq> NoNode then ys @ [Mark after] else []), n2))"
| "stmt_items E s (DoWhileNode l e r) n =
    (let cont = label_name n; brk = label_name (n + 1); s' = \<lparr>gs_continue = cont, gs_break = brk\<rparr>;
         (xs, n1) = stmt_items E s' l (n + 2); (ys, n2) = stmt_items E s' r n1
     in ([Mark cont] @ xs @ expr_items E e @ jump_item opcode_jz brk @ ys @ jump_item opcode_jmp cont @ [Mark brk], n2))"
| "stmt_items E s BreakNode n = (jump_item opcode_jmp (gs_break s), n)"
| "stmt_items E s ContinueNode n = (jump_item opcode_jmp (gs_continue s), n)"
| "stmt_items E s (ReturnNode l) n = ([Code [opcode_ret]], n)"
| "stmt_items E s nd n = ([], n)"

section \<open>The code generator writes the items\<close>

definition generates :: "unit cgen \<Rightarrow> (nat \<Rightarrow> item list \<times> nat) \<Rightarrow> bool" where
  "generates m f \<longleftrightarrow> (\<forall>c. at_end c \<longrightarrow>
     m c = Inr ((), (written (fst (f (cg_next_label c))) c)\<lparr>cg_next_label := snd (f (cg_next_label c))\<rparr>))"

abbreviation puts :: "unit cgen \<Rightarrow> item list \<Rightarrow> bool" where
  "puts m its \<equiv> generates m (\<lambda>n. (its, n))"

lemma at_end_label [simp]: "at_end (c\<lparr>cg_next_label := n\<rparr>) = at_end c"
  by (simp add: at_end_def)

lemma puts_ret: "puts (ret ()) []"
  by (simp add: generates_def)

lemma generates_then:
  assumes "generates m f" "generates m' g"
  shows "generates (thenE m m') (\<lambda>n. let (xs, n1) = f n; (ys, n2) = g n1 in (xs @ ys, n2))"
  using assms
  by (auto simp: generates_def thenE_apply at_end_written written_label_swap written_append split: prod.splits)

lemma puts_then:
  assumes "puts m xs" "puts m' ys"
  shows "puts (thenE m m') (xs @ ys)"
  using generates_then [OF assms] by simp

lemma generates_eq: "generates m f \<Longrightarrow> f = g \<Longrightarrow> generates m g"
  by simp

lemma puts_bytes: "puts (put_bytes bs) [Code bs]"
  using run_item_written [where i = "Code bs"] by (simp add: generates_def)

lemma puts_ref: "puts (putNamedInt32Reference l) [Ref l]"
  using run_item_written [where i = "Ref l"] by (simp add: generates_def)

lemma puts_mark: "puts (markLabel l) [Mark l]"
  using run_item_written [where i = "Mark l"] by (simp add: generates_def)

lemma generates_label:
  assumes "\<And>l. generates (m l) (f l)"
  shows "generates (bindE getLabel m) (\<lambda>n. f (label_name n) (n + 1))"
  using assms by (simp add: generates_def bindE_apply getLabel_def comp_simps written_label_swap)



lemma thenE_ret_left [simp]: "thenE (ret ()) m = m"
  by (rule ext) (simp add: thenE_apply)

lemma thenE_ret_right [simp]: "thenE m (ret ()) = (m :: ('s, unit) comp)"
  by (rule ext) (simp add: thenE_apply split: sum.split)

lemma move_same [simp]: "move_between_stacks b b = ret ()" "move_between_stacks False False = ret ()"
  by (simp_all add: move_between_stacks_def)

lemma puts_nothing: "puts (\<lambda>c. Inr ((), c)) []"
  by (simp add: generates_def)

lemma puts_byte: "puts (put_byte b) [Code [b]]"
  by (simp add: put_byte_def puts_bytes)

lemma puts_join: "puts m [Code a, Code b] \<Longrightarrow> puts m [Code (a @ b)]"
  by (simp add: generates_def written_def Let_def add.assoc)

lemma puts_op32: "puts (thenE (put_byte op) (put_int32 v)) [Code (op # int32_bytes v)]"
  using puts_join [OF puts_then [OF puts_byte puts_bytes, simplified]]
  by (simp add: put_int32_def)

lemma puts_jump: "puts (thenE (put_byte op) (putNamedInt32Reference l)) (jump_item op l)"
  using puts_then [OF puts_byte puts_ref] by (simp add: jump_item_def)

lemma puts_binop: "puts (emit_binop b) [Code [binop_code b]]"
  by (cases b) (simp_all add: puts_byte emitISum_def emitISubLU_def emitIMul_def emitIDivLU_def emitIRemLU_def
      emit_iand_def emit_ior_def emitIShiftLeft_def emitIShiftRight_def emitUShiftRight_def emitLogAnd_def
      emitLogOr_def emit_ige_def emit_igt_def emit_ile_def emit_ilt_def)

lemma int_var_Some: "int_var E x = Some i \<longleftrightarrow> ge_field E x = None \<and>
  (\<exists>v. get_var x (ge_isvars E) = Some v \<and> sv_type v = T_int \<and> sv_pos v = i \<and> i < 2 ^ 32)"
  by (cases "ge_field E x"; cases "get_var x (ge_isvars E)") (auto simp: int_var_def)

lemma int_expr_int:
  "int_expr E e \<Longrightarrow> getType E e = Some T_int \<and> is_on_int_stack E e \<and> e \<noteq> NoNode"
  by (induction E e rule: int_expr.induct)
    (auto simp: int_var_def ident_type_def ident_on_int_stack_def binode_type_def type_equals_def
      split: option.splits if_splits node.splits)

lemma puts_load: "int_var E x \<noteq> None \<Longrightarrow>
  puts (load_ident E x) [Code (opcode_is_get32 # int32_bytes (word_of_nat (the (int_var E x))))]"
  by (auto simp: load_ident_def int_var_def emitIGet_def puts_op32 split: option.splits if_splits)

lemma puts_store: "int_var E x \<noteq> None \<Longrightarrow>
  puts (store_ident E x) [Code [opcode_is_dup], Code (opcode_is_set32 # int32_bytes (word_of_nat (the (int_var E x))))]"
  using puts_then [OF puts_byte puts_op32, of opcode_is_dup opcode_is_set32]
  by (auto simp: store_ident_def int_var_def emitISet_def emitIsDup_def split: option.splits if_splits)

lemma puts_expr: "int_expr E e \<Longrightarrow> puts (generate_code E s e) (expr_items E e)"
proof (induction E e rule: int_expr.induct)
  case (1 E v)
  then show ?case by (simp add: emitIConst_32bit_def puts_op32)
next
  case (2 E x)
  then show ?case by (simp add: puts_load)
next
  case (3 E b l r)
  then show ?case using int_expr_int [of E l] int_expr_int [of E r]
    by (auto simp: binode_type_def type_equals_def int_only_def intro!: puts_then puts_binop)
next
  case (4 E l r)
  then have "puts (thenE (generate_code E s l) (thenE (generate_code E s r) (thenE emitISubLU emitLogNot)))
    (expr_items E l @ expr_items E r @ [Code [opcode_isublu]] @ [Code [opcode_log_not]])"
    by (intro puts_then) (simp_all add: emitISubLU_def emitLogNot_def puts_byte)
  then show ?case using 4 int_expr_int [of E l] int_expr_int [of E r]
    by (simp add: binode_type_def type_equals_def go_to_object_stack_def)
next
  case (5 E l r)
  then show ?case using int_expr_int [of E l] int_expr_int [of E r]
    by (auto simp: binode_type_def type_equals_def go_to_object_stack_def emitISubLU_def puts_byte intro!: puts_then)
next
  case (6 E l)
  then show ?case using int_expr_int [of E l] by (auto simp: emit_inot_def puts_byte intro!: puts_then)
next
  case (7 E l)
  then show ?case using int_expr_int [of E l] by (auto simp: emitLogNot_def puts_byte intro!: puts_then)
next
  case (8 E l r)
  then obtain x where x: "l = IdentNode x" "int_var E x \<noteq> None" "int_expr E r" by (auto split: node.splits)
  have "ident_on_int_stack E x"
    using x(2) by (auto simp: int_var_Some ident_on_int_stack_def)
  moreover have "puts (generate_code E s r) (expr_items E r)"
    using 8(1) x by auto
  ultimately show ?case using x int_expr_int [of E r] by (auto intro!: puts_then puts_store)
qed simp_all

lemma generates_then':
  "generates m f \<Longrightarrow> generates m' g \<Longrightarrow> (\<And>n. h n = (fst (f n) @ fst (g (snd (f n))), snd (g (snd (f n))))) \<Longrightarrow>
   generates (thenE m m') h"
  using generates_then [of m f m' g] by (auto simp: generates_def split_def Let_def)

lemma stmt_items_fun:
  "stmt_items E s NoNode = Pair []" "stmt_items E s EmptyNode = Pair []"
  "stmt_items E s (VoidNode e) = Pair (expr_items E e @ [Code [opcode_is_drop]])"
  "stmt_items E s BreakNode = Pair (jump_item opcode_jmp (gs_break s))"
  "stmt_items E s ContinueNode = Pair (jump_item opcode_jmp (gs_continue s))"
  "stmt_items E s (ReturnNode l) = Pair [Code [opcode_ret]]"
  by (rule ext, simp)+

lemma generates_opt: "(nd \<noteq> NoNode \<Longrightarrow> generates (generate_code E s nd) (stmt_items E s nd)) \<Longrightarrow>
  generates (if nd \<noteq> NoNode then generate_code E s nd else ret ()) (stmt_items E s nd)"
  using puts_ret by (simp add: stmt_items_fun)


lemma generates_label2:
  assumes "\<And>i j. generates (m (label_name i) (label_name j)) (f (label_name i) (label_name j))"
  shows "generates (bindE getLabel (\<lambda>k. bindE getLabel (m k))) (\<lambda>n. f (label_name n) (label_name (n + 1)) (n + 2))"
  using assms by (simp add: generates_def bindE_apply getLabel_def comp_simps written_label_swap)

lemma generates_stmt:
  "\<not> ge_debug E \<Longrightarrow> int_stmt E lp nd \<Longrightarrow> (lp \<longrightarrow> gs_break s \<noteq> None \<and> gs_continue s \<noteq> None) \<Longrightarrow>
    generates (generate_code E s nd) (stmt_items E s nd) \<and> \<not> is_on_int_stack E nd \<and> nd \<noteq> NoNode"
proof (induction E lp nd arbitrary: s rule: int_stmt.induct)
  case (1 E lp)
  then show ?case using puts_nothing by (simp add: stmt_items_fun)
next
  case (2 E lp e)
  then show ?case using int_expr_int [of E e]
    by (auto simp: stmt_items_fun emitIsDrop_def puts_byte intro!: puts_then puts_expr)
next
  case (3 E lp a b)
  then show ?case by (auto simp: Let_def split_def intro!: generates_then')
next
  case (4 E lp e m r)
  have m: "generates (if m \<noteq> NoNode then generate_code E s m else ret ()) (stmt_items E s m)"
    by (rule generates_opt) (use 4 in auto)
  have r: "r \<noteq> NoNode \<Longrightarrow> generates (generate_code E s r) (stmt_items E s r)"
    using 4 by auto
  define yes where "yes no after = thenE (emitJz no) (thenE (if m \<noteq> NoNode then generate_code E s m else ret ())
    (thenE (if r \<noteq> NoNode then emitJmp after else ret ()) (thenE (markLabel no)
    (if r \<noteq> NoNode then thenE (generate_code E s r) (markLabel after) else ret ()))))" for no after
  have j: "puts (if r \<noteq> NoNode then emitJmp after else ret ()) (if r \<noteq> NoNode then jump_item opcode_jmp after else [])" for after
    using puts_ret puts_jump by (simp add: emitJmp_def)
  have e: "generates (if r \<noteq> NoNode then thenE (generate_code E s r) (markLabel after) else ret ())
      (\<lambda>n. let (ys, n2) = stmt_items E s r n in (if r \<noteq> NoNode then ys @ [Mark after] else [], n2))" for after
    using puts_ret generates_then [OF r puts_mark] by (simp add: split_def)
  have "generates (yes no after) (\<lambda>n. let (xs, n1) = stmt_items E s m n; (ys, n2) = stmt_items E s r n1 in
      (jump_item opcode_jz no @ xs @ (if r \<noteq> NoNode then jump_item opcode_jmp after else []) @ [Mark no] @
         (if r \<noteq> NoNode then ys @ [Mark after] else []), n2))" for no after
    unfolding yes_def emitJz_def
    by (rule generates_eq [OF generates_then [OF puts_jump generates_then [OF m generates_then [OF j
        generates_then [OF puts_mark e]]]]]) (simp add: split_def Let_def)
  from generates_then [OF puts_expr generates_label [OF generates_label [OF this]], of E e s]
  show ?case using 4(4) int_expr_int [of E e]
    by (auto simp: yes_def split_def Let_def cong: if_cong)
next
  case (5 E lp l e r)
  define lp_code where "lp_code cont brk = (let s' = \<lparr>gs_continue = cont, gs_break = brk\<rparr> in
    thenE (markLabel cont) (thenE (if l \<noteq> NoNode then generate_code E s' l else ret ())
    (thenE (generate_code E s' e) (thenE (emitJz brk)
    (thenE (if r \<noteq> NoNode then generate_code E s' r else ret ())
    (thenE (emitJmp cont) (markLabel brk)))))))" for cont brk
  define lp_items where "lp_items cont brk n = (let s' = \<lparr>gs_continue = cont, gs_break = brk\<rparr>;
      (xs, n1) = stmt_items E s' l n; (ys, n2) = stmt_items E s' r n1 in
      ([Mark cont] @ xs @ expr_items E e @ jump_item opcode_jz brk @ ys @ jump_item opcode_jmp cont @ [Mark brk], n2))"
    for cont brk n
  have "generates (lp_code (Some k) (Some b)) (lp_items (Some k) (Some b))" for k b
  proof -
    let ?s = "\<lparr>gs_continue = Some k, gs_break = Some b\<rparr>"
    have l: "generates (if l \<noteq> NoNode then generate_code E ?s l else ret ()) (stmt_items E ?s l)"
      by (rule generates_opt) (use 5 in auto)
    have r: "generates (if r \<noteq> NoNode then generate_code E ?s r else ret ()) (stmt_items E ?s r)"
      by (rule generates_opt) (use 5 in auto)
    have e: "puts (generate_code E ?s e) (expr_items E e)" by (rule puts_expr) (use 5 in simp)
    show ?thesis
      unfolding lp_code_def Let_def emitJz_def emitJmp_def
      by (rule generates_eq [OF generates_then [OF puts_mark generates_then [OF l generates_then [OF e
          generates_then [OF puts_jump generates_then [OF r generates_then [OF puts_jump puts_mark]]]]]]])
        (simp add: lp_items_def fun_eq_iff split_def Let_def)
  qed
  then have "generates (lp_code (label_name i) (label_name j)) (lp_items (label_name i) (label_name j))" for i j
    unfolding label_name_def .
  note generates_label2 [of lp_code lp_items, OF this]
  moreover have "generate_code E s (DoWhileNode l e r) = bindE getLabel (\<lambda>k. bindE getLabel (lp_code k))"
    using 5(4) int_expr_int [of E e] by (simp add: lp_code_def [abs_def] Let_def)
  moreover have "stmt_items E s (DoWhileNode l e r) = (\<lambda>n. lp_items (label_name n) (label_name (n + 1)) (n + 2))"
    by (rule ext) (simp add: lp_items_def Let_def)
  ultimately show ?case by simp
next
  case (6 E lp)
  then show ?case by (auto simp: stmt_items_fun emitJmp_def puts_jump)
next
  case (7 E lp)
  then show ?case by (auto simp: stmt_items_fun emitJmp_def puts_jump)
next
  case (8 E lp l)
  then show ?case by (auto simp: stmt_items_fun emitRet_def puts_byte)
qed simp_all


section \<open>Labels\<close>

fun undec :: "string \<Rightarrow> nat" where
  "undec s = foldl (\<lambda>n c. n * 10 + (of_char c - 48)) 0 s"

lemma undec_dec: "undec (dec n) = n"
proof (induction n rule: dec.induct)
  case (1 n)
  show ?case
  proof (cases "n < 10")
    case False
    with 1 have "foldl (\<lambda>n c. n * 10 + (of_char c - 48)) 0 (dec (n div 10)) = n div 10" by simp
    then show ?thesis using False by (simp add: dec.simps [of n])
  qed (simp add: dec.simps [of n])
qed

lemma label_name_inj [simp]: "label_name i = label_name j \<longleftrightarrow> i = j"
  by (auto simp: label_name_def dest: arg_cong [where f = undec] simp: undec_dec simp del: undec.simps)

lemma expr_items_labels [simp]: "marks p (expr_items E e) = []" "refs p (expr_items E e) = []"
  by (induction E e arbitrary: p rule: expr_items.induct) (auto split: node.split)

lemma jump_item_simps [simp]:
  "marks p (jump_item op l) = []" "refs p (jump_item op l) = [(l, p + 1)]" "items_size (jump_item op l) = 5"
  by (simp_all add: jump_item_def)

lemma expr_items_names [simp]: "marked_in (expr_items E e) = {}" "used_in (expr_items E e) = {}"
  "marks_once (expr_items E e)"
  by (simp_all add: marked_in_def used_in_def marks_once_def)

lemma jump_item_names [simp]: "marked_in (jump_item op l) = {}" "used_in (jump_item op l) = {l}"
  "marks_once (jump_item op l)"
  by (simp_all add: jump_item_def)

lemma stmt_marks:
  "stmt_items E s nd n = (its, n') \<Longrightarrow>
   n \<le> n' \<and> marks_once its \<and> marked_in its \<subseteq> label_name ` {n..<n'}"
proof (induction E s nd n arbitrary: its n' rule: stmt_items.induct)
  case (2 E s a b n)
  then show ?case by (fastforce simp: Let_def split: prod.splits)
next
  case (3 E s e m r n)
  then show ?case by (fastforce simp: Let_def split: prod.splits if_splits)
next
  case (4 E s l e r n)
  then show ?case by (fastforce simp: Let_def split: prod.splits)
qed auto

lemma stmt_uses:
  "int_stmt E lp nd \<or> nd = NoNode \<Longrightarrow> stmt_items E s nd n = (its, n') \<Longrightarrow>
   used_in its \<subseteq> marked_in its \<union> (if lp then {gs_break s, gs_continue s} else {})"
proof (induction E s nd n arbitrary: its n' lp rule: stmt_items.induct)
  case (2 E s a b n)
  then show ?case by (fastforce simp: Let_def split: prod.splits)
next
  case (3 E s e m r n)
  then show ?case by (fastforce simp: Let_def split: prod.splits if_splits)
next
  case (4 E s l e r n)
  then show ?case by (fastforce simp: Let_def split: prod.splits)
qed auto

end
