(* ===== verification/Int_Machine.thy ===== *)
theory Int_Machine
  imports Exec_Interp
begin

text \<open>
  Integer code on the virtual machine. \<open>int_step\<close> is a small stack machine over byte codes,
  an instruction pointer and a list of 32-bit numbers; the interpreter, with its code
  object, thread object and paged integer stack in the heap, is proved to simulate it
  step by step and over whole runs.
\<close>

section \<open>The abstract machine\<close>

definition int_at :: "u8 list \<Rightarrow> nat \<Rightarrow> i32" where
  "int_at bs i = pvm_code_do_get_int (take 4 (drop i bs))"

definition jump_target :: "u8 list \<Rightarrow> nat \<Rightarrow> nat" where
  "jump_target bs i = unat (word_of_nat i + int_at bs i)"

definition div_opt :: "i32 \<Rightarrow> i32 \<Rightarrow> i32 option" where
  "div_opt a b = (if b = 0 \<or> sint a sdiv sint b \<ge> 2 ^ 31 then None else Some (word_of_int (sint a sdiv sint b)))"

text \<open>Binary operations: first the element on top of the stack, then the one below it.\<close>

definition int_binops :: "(u8 \<times> (i32 \<Rightarrow> i32 \<Rightarrow> i32 option)) list" where
  "int_binops =
    [(opcode_ishl, \<lambda>t n. Some (c_shl t n)), (opcode_ishr, \<lambda>t n. Some (c_shr t n)),
     (opcode_ushr, \<lambda>t n. Some (c_ushr t n)), (opcode_isum, \<lambda>t n. Some (n + t)),
     (opcode_imul, \<lambda>t n. Some (n * t)), (opcode_isubul, \<lambda>t n. Some (t - n)),
     (opcode_isublu, \<lambda>t n. Some (n - t)), (opcode_idivul, \<lambda>t n. div_opt t n),
     (opcode_idivlu, \<lambda>t n. div_opt n t), (opcode_ior, \<lambda>t n. Some (n OR t)),
     (opcode_iand, \<lambda>t n. Some (n AND t)), (opcode_ixor, \<lambda>t n. Some (n XOR t)),
     (opcode_log_or, \<lambda>t n. Some (of_bool (t \<noteq> 0 \<or> n \<noteq> 0))),
     (opcode_log_and, \<lambda>t n. Some (of_bool (t \<noteq> 0 \<and> n \<noteq> 0))),
     (opcode_log_xor, \<lambda>t n. Some (of_bool ((t \<noteq> 0) \<noteq> (n \<noteq> 0)))),
     (opcode_ige, \<lambda>t n. Some (of_bool (sint n \<ge> sint t))),
     (opcode_ile, \<lambda>t n. Some (of_bool (sint n \<le> sint t))),
     (opcode_igt, \<lambda>t n. Some (of_bool (sint n > sint t))),
     (opcode_ilt, \<lambda>t n. Some (of_bool (sint n < sint t)))]"

definition int_unops :: "(u8 \<times> (i32 \<Rightarrow> i32)) list" where
  "int_unops = [(opcode_inot, NOT), (opcode_log_not, \<lambda>v. of_bool (v = 0))]"

text \<open>The list of the machine has its newest element last.\<close>

definition push_const :: "u8 list \<Rightarrow> nat \<Rightarrow> i32 list \<Rightarrow> (nat \<times> i32 list) option" where
  "push_const bs ip xs = (let i = bs ! ip in
     if i = opcode_iconst_0 then Some (ip + 1, xs @ [0])
     else if i = opcode_iconst_1 then Some (ip + 1, xs @ [1])
     else if i = opcode_iconst_8bit
     then (if ip + 2 \<le> length bs then Some (ip + 2, xs @ [word_of_nat (unat (bs ! (ip + 1)))]) else None)
     else if i = opcode_iconst_32bit
     then (if ip + 5 \<le> length bs then Some (ip + 5, xs @ [int_at bs (ip + 1)]) else None)
     else None)"

definition stack_instr :: "u8 list \<Rightarrow> nat \<Rightarrow> i32 list \<Rightarrow> (nat \<times> i32 list) option" where
  "stack_instr bs ip xs = (let i = bs ! ip; n = unat (int_at bs (ip + 1)) in
     if i = opcode_nop then Some (ip + 1, xs)
     else if xs = [] then None
     else if i = opcode_is_dup then Some (ip + 1, xs @ [last xs])
     else if i = opcode_is_drop then Some (ip + 1, butlast xs)
     else if length bs < ip + 5 then None
     else if i = opcode_is_get32 then (if n < length xs then Some (ip + 5, xs @ [xs ! n]) else None)
     else if i = opcode_is_set32
     then (if n < length xs - 1 then Some (ip + 5, (butlast xs)[n := last xs]) else None)
     else None)"

definition jump_instr :: "u8 list \<Rightarrow> nat \<Rightarrow> i32 list \<Rightarrow> (nat \<times> i32 list) option" where
  "jump_instr bs ip xs = (let i = bs ! ip; target = jump_target bs (ip + 1) in
     if length bs < ip + 5 then None
     else if i = opcode_jmp then Some (target, xs)
     else if xs = [] then None
     else if i = opcode_jz then Some (if last xs = 0 then target else ip + 5, butlast xs)
     else if i = opcode_djnz
     then Some (if last xs - 1 \<noteq> 0 then target else ip + 5, butlast xs @ [last xs - 1])
     else None)"

definition arith_instr :: "u8 list \<Rightarrow> nat \<Rightarrow> i32 list \<Rightarrow> (nat \<times> i32 list) option" where
  "arith_instr bs ip xs = (case map_of int_binops (bs ! ip) of
       Some f \<Rightarrow> (if 2 \<le> length xs
         then map_option (\<lambda>v. (ip + 1, butlast (butlast xs) @ [v])) (f (last xs) (last (butlast xs)))
         else None)
     | None \<Rightarrow> (case map_of int_unops (bs ! ip) of
         Some f \<Rightarrow> (if xs \<noteq> [] then Some (ip + 1, butlast xs @ [f (last xs)]) else None)
       | None \<Rightarrow> None))"

definition int_step :: "u8 list \<Rightarrow> nat \<times> i32 list \<Rightarrow> (nat \<times> i32 list) option" where
  "int_step bs = (\<lambda>(ip, xs).
     if length bs \<le> ip then None
     else case push_const bs ip xs of Some st \<Rightarrow> Some st | None \<Rightarrow>
         (case stack_instr bs ip xs of Some st \<Rightarrow> Some st | None \<Rightarrow>
         (case jump_instr bs ip xs of Some st \<Rightarrow> Some st | None \<Rightarrow> arith_instr bs ip xs)))"

primrec int_run :: "nat \<Rightarrow> u8 list \<Rightarrow> nat \<times> i32 list \<Rightarrow> (nat \<times> i32 list) option" where
  "int_run 0 bs st = Some st"
| "int_run (Suc n) bs st = Option.bind (int_step bs st) (int_run n bs)"

section \<open>The machine in the heap\<close>

text \<open>
  The thread object \<open>da\<close> runs the code \<open>bs\<close> at position \<open>ip\<close> with the integer stack \<open>xs\<close>;
  \<open>outer\<close> tells whether it is in its outermost frame.
\<close>

definition thread_at :: "vm_state \<Rightarrow> addr \<Rightarrow> data_area_4_thread \<Rightarrow> bool" where
  "thread_at s da t \<longleftrightarrow> (\<exists>ob. heap s da = Some ob \<and> ob_live ob \<and> o_da ob = DA_thread t)"

definition code_at :: "vm_state \<Rightarrow> addr \<Rightarrow> u8 list \<Rightarrow> bool" where
  "code_at s c bs \<longleftrightarrow> (\<exists>ob. heap s c = Some ob \<and> ob_live ob \<and> o_da ob = DA_code (length bs) bs)"

definition frame_at :: "vm_state \<Rightarrow> addr \<Rightarrow> data_area_4_call_frame \<Rightarrow> bool" where
  "frame_at s p cf \<longleftrightarrow> (\<exists>ob. heap s p = Some ob \<and> ob_live ob \<and> o_da ob = DA_call_frame cf)"

definition int_frame :: "vm_state \<Rightarrow> addr \<Rightarrow> bool \<Rightarrow> u8 list \<Rightarrow> nat \<Rightarrow> i32 list \<Rightarrow> bool" where
  "int_frame s da outer bs ip xs \<longleftrightarrow> std_env s \<and> length bs + 8 < 2 ^ 32 \<and> (\<exists>t ps cf. thread_at s da t \<and>
     th_code t \<noteq> 0 \<and> code_at s (th_code t) bs \<and> th_IP t = ip \<and> th_IP_max t = length bs \<and>
     istack_rep s ps xs \<and> th_istack t = ps ! 0 \<and>
     frame_at s (ob_data (th_call_frame t)) cf \<and> (outer \<longleftrightarrow> pvm_is_null s (cf_prev cf)))"

lemma thread_load: "thread_at s da t \<Longrightarrow> load_da as_thread da s = Inr (t, s)"
  by (auto simp: thread_at_def load_da_Some)

lemma code_load: "code_at s c bs \<Longrightarrow> load_da as_code c s = Inr ((length bs, bs), s)"
  by (auto simp: code_at_def load_da_Some)

lemma thread_live: "thread_at s da t \<Longrightarrow> da \<in> live s"
  by (auto simp: thread_at_def live_def)

lemma code_live: "code_at s c bs \<Longrightarrow> c \<in> live s"
  by (auto simp: code_at_def live_def)

lemma istack_not_thread:
  assumes "istack_rep s ps xs" "thread_at s da t"
  shows "da \<notin> set ps"
  using assms by (fastforce simp: stack_rep_def pages_at_def thread_at_def istack_kind_def in_set_conv_nth)

lemma istack_not_code:
  assumes "istack_rep s ps xs" "code_at s c bs"
  shows "c \<notin> set ps"
  using assms by (fastforce simp: stack_rep_def pages_at_def code_at_def istack_kind_def in_set_conv_nth)

lemma thread_at_keeps: "thread_at s da t \<Longrightarrow> keeps s s' A \<Longrightarrow> da \<notin> A \<Longrightarrow> thread_at s' da t"
  using thread_live by (fastforce simp: thread_at_def keeps_def)

lemma code_at_keeps: "code_at s c bs \<Longrightarrow> keeps s s' A \<Longrightarrow> c \<notin> A \<Longrightarrow> code_at s' c bs"
  using code_live by (fastforce simp: code_at_def keeps_def)

text \<open>Writing the thread's registers leaves everything else alone.\<close>

lemma thread_store:
  assumes t: "thread_at s da t" and e: "std_env s"
  obtains s' where "store_da da (DA_thread t') s = Inr ((), s')" "thread_at s' da t'" "std_env s'"
    "keeps s s' {da}"
proof -
  from t obtain ob where ob: "heap s da = Some ob" "ob_live ob" "o_da ob = DA_thread t"
    by (auto simp: thread_at_def)
  let ?s = "put_ob da (ob\<lparr>o_da := DA_thread t'\<rparr>) s"
  show thesis
  proof (rule that)
    show "store_da da (DA_thread t') s = Inr ((), ?s)" by (rule store_da_Some [OF ob(1)])
    show "thread_at ?s da t'" using ob by (simp add: thread_at_def ob_live_def)
    show "std_env ?s" by (rule std_env_put [OF e ob(1)]) (simp add: ob)
    have "live ?s = live s" using ob by (auto simp: live_def ob_live_def)
    then show "keeps s ?s {da}" by (auto simp: keeps_def put_ob_def)
  qed
qed

lemma frame_load: "frame_at s p cf \<Longrightarrow> load_da as_call_frame p s = Inr (cf, s)"
  by (auto simp: frame_at_def load_da_Some)

lemma frame_at_keeps: "frame_at s p cf \<Longrightarrow> keeps s s' A \<Longrightarrow> p \<notin> A \<Longrightarrow> frame_at s' p cf"
  by (fastforce simp: frame_at_def keeps_def live_def)

lemma istack_not_frame:
  assumes "istack_rep s ps xs" "frame_at s c cf"
  shows "c \<notin> set ps"
  using assms by (fastforce simp: stack_rep_def pages_at_def frame_at_def istack_kind_def in_set_conv_nth)

lemma keeps_is_null: "keeps s s' A \<Longrightarrow> pvm_is_null s' r = pvm_is_null s r"
  by (simp add: pvm_is_null_addr keeps_null)

lemma int_frameE:
  assumes "int_frame s da outer bs ip xs"
  obtains t ps cf where "std_env s" "thread_at s da t" "th_code t \<noteq> 0" "code_at s (th_code t) bs"
    "th_IP t = ip" "th_IP_max t = length bs" "istack_rep s ps xs" "th_istack t = ps ! 0" "ps \<noteq> []"
    "length bs + 8 < 2 ^ 32" "frame_at s (ob_data (th_call_frame t)) cf" "outer \<longleftrightarrow> pvm_is_null s (cf_prev cf)"
proof -
  from assms obtain t ps cf where t: "std_env s" "thread_at s da t" "th_code t \<noteq> 0" "code_at s (th_code t) bs"
    "th_IP t = ip" "th_IP_max t = length bs" "istack_rep s ps xs" "th_istack t = ps ! 0"
    "frame_at s (ob_data (th_call_frame t)) cf" "outer \<longleftrightarrow> pvm_is_null s (cf_prev cf)"
    and n: "length bs + 8 < 2 ^ 32" unfolding int_frame_def by blast
  have "ps \<noteq> []" using t(7) by (auto simp: stack_rep_def chain_ok_def)
  with that t n show thesis by blast
qed

lemma move_frame:
  assumes f: "int_frame s da outer bs ip xs"
  obtains t s' where "thread_at s da t" "th_code t \<noteq> 0" "code_at s (th_code t) bs" "th_IP t = ip"
    "th_IP_max t = length bs" "store_da da (DA_thread (t\<lparr>th_IP := ip'\<rparr>)) s = Inr ((), s')"
    "int_frame s' da outer bs ip' xs"
proof -
  from f obtain t ps cf where t: "std_env s" "thread_at s da t" "th_code t \<noteq> 0" "code_at s (th_code t) bs"
    "th_IP t = ip" "th_IP_max t = length bs" "istack_rep s ps xs" "th_istack t = ps ! 0" "ps \<noteq> []"
    and n: "length bs + 8 < 2 ^ 32"
    and cf: "frame_at s (ob_data (th_call_frame t)) cf" "outer \<longleftrightarrow> pvm_is_null s (cf_prev cf)" by (rule int_frameE)
  from thread_store [OF t(2,1), of "t\<lparr>th_IP := ip'\<rparr>"] obtain s'
    where s': "store_da da (DA_thread (t\<lparr>th_IP := ip'\<rparr>)) s = Inr ((), s')"
      "thread_at s' da (t\<lparr>th_IP := ip'\<rparr>)" "std_env s'" "keeps s s' {da}" by blast
  have "th_code t \<noteq> da" "ob_data (th_call_frame t) \<noteq> da"
    using t(2,4) cf(1) by (auto simp: thread_at_def code_at_def frame_at_def)
  then have "code_at s' (th_code t) bs" "frame_at s' (ob_data (th_call_frame t)) cf"
    using code_at_keeps [OF t(4) s'(4)] frame_at_keeps [OF cf(1) s'(4)] by simp_all
  moreover have "istack_rep s' ps xs"
    by (rule stack_rep_keeps [OF t(7) s'(4)]) (use istack_not_thread [OF t(7,2)] in simp)
  ultimately have "int_frame s' da outer bs ip' xs"
    using t n s'(2,3) cf(2) keeps_is_null [OF s'(4)] unfolding int_frame_def
    by (intro conjI exI [of _ "t\<lparr>th_IP := ip'\<rparr>"] exI [of _ ps] exI [of _ cf]) simp_all
  with that t s'(1) show thesis by blast
qed

section \<open>Fetching and stack operations of the running thread\<close>

definition handler :: "u8 list \<Rightarrow> nat \<Rightarrow> pvm_code_handler" where
  "handler bs ip = \<lparr>ch_code = bs, ch_IP = ip, ch_IP_max = length bs\<rparr>"

lemma handler_ok: "length bs + 8 < 2 ^ 32 \<Longrightarrow> ip \<le> length bs \<Longrightarrow> code_ok (handler bs ip)"
  by (simp add: code_ok_def handler_def)

lemma handler_sel [simp]: "upcoming (handler bs ip) = drop ip bs" "at_IP n (handler bs ip) = handler bs n"
  "ch_IP (handler bs ip) = ip"
  by (simp_all add: upcoming_def handler_def at_IP_def)

lemma on_code_frame:
  assumes f: "int_frame s da outer bs ip xs" and m: "m (handler bs ip) = Inr (x, handler bs ip')"
  shows "\<exists>s'. on_code da m s = Inr (x, s') \<and> int_frame s' da outer bs ip' xs"
proof -
  from move_frame [OF f, of ip'] obtain t s' where t: "thread_at s da t" "th_code t \<noteq> 0"
    "code_at s (th_code t) bs" "th_IP t = ip" "th_IP_max t = length bs"
    "store_da da (DA_thread (t\<lparr>th_IP := ip'\<rparr>)) s = Inr ((), s')" "int_frame s' da outer bs ip' xs" by blast
  with m show ?thesis
    by (simp add: on_code_def bindE_apply thread_load [OF t(1)] code_load [OF t(3)] thenE_apply handler_def)
qed

lemma frame_length: "int_frame s da outer bs ip xs \<Longrightarrow> length bs + 8 < 2 ^ 32"
  by (simp add: int_frame_def)

lemma fetch_instr:
  assumes "int_frame s da outer bs ip xs" "ip < length bs"
  shows "\<exists>s'. on_code da pvm_code_get_byte s = Inr (bs ! ip, s') \<and> int_frame s' da outer bs (ip + 1) xs"
  using assms(2) by (intro on_code_frame [OF assms(1)])
    (auto simp: get_byte_cases [OF handler_ok [OF frame_length [OF assms(1)]]] Cons_nth_drop_Suc [symmetric])

lemma fetch_int:
  assumes "int_frame s da outer bs ip xs" "ip + 4 \<le> length bs"
  shows "\<exists>s'. fetch_int32 da s = Inr (int_at bs ip, s') \<and> int_frame s' da outer bs (ip + 4) xs"
  unfolding fetch_int32_def using assms(2) by (intro on_code_frame [OF assms(1)])
    (auto simp: get_int32_cases [OF handler_ok [OF frame_length [OF assms(1)]]] int_at_def)

lemma fetch_target:
  assumes "int_frame s da outer bs ip xs" "ip + 4 \<le> length bs"
  shows "\<exists>s'. on_code da pvm_code_get_rel_IP_as_abs s = Inr (jump_target bs ip, s') \<and>
    int_frame s' da outer bs (ip + 4) xs"
  using assms(2) by (intro on_code_frame [OF assms(1)])
    (auto simp: get_rel_IP_eval [OF handler_ok [OF frame_length [OF assms(1)]]] int_at_def jump_target_def)

lemma set_IP_frame:
  assumes "int_frame s da outer bs ip xs"
  shows "\<exists>s'. set_IP da ip' s = Inr ((), s') \<and> int_frame s' da outer bs ip' xs"
proof -
  from move_frame [OF assms, of ip'] obtain t s' where t: "thread_at s da t"
    "store_da da (DA_thread (t\<lparr>th_IP := ip'\<rparr>)) s = Inr ((), s')" "int_frame s' da outer bs ip' xs" by blast
  then show ?thesis by (simp add: set_IP_def bindE_apply thread_load [OF t(1)])
qed

lemma frame_after:
  assumes f: "int_frame s da outer bs ip xs" and r: "istack_rep s ps xs" "thread_at s da t" "th_istack t = ps ! 0"
    and k: "keeps s s' (set ps)" "std_env s'" and r': "istack_rep s' (ps @ qs) ys"
  shows "int_frame s' da outer bs ip ys"
proof -
  from f obtain t' ps' cf where t: "thread_at s da t'" "th_code t' \<noteq> 0" "code_at s (th_code t') bs"
    "th_IP t' = ip" "th_IP_max t' = length bs" "length bs + 8 < 2 ^ 32"
    and cf: "frame_at s (ob_data (th_call_frame t')) cf" "outer \<longleftrightarrow> pvm_is_null s (cf_prev cf)"
    by (rule int_frameE)
  have tt: "t' = t" using t(1) r(2) by (auto simp: thread_at_def)
  have "ps \<noteq> []" using r(1) by (auto simp: stack_rep_def chain_ok_def)
  moreover have "thread_at s' da t" "code_at s' (th_code t) bs" "frame_at s' (ob_data (th_call_frame t)) cf"
    using thread_at_keeps [OF r(2) k(1)] istack_not_thread [OF r(1,2)]
      code_at_keeps [OF t(3) k(1)] istack_not_code [OF r(1) t(3)]
      frame_at_keeps [OF cf(1) k(1)] istack_not_frame [OF r(1) cf(1)] tt by simp_all
  ultimately show ?thesis
    using t tt r(3) k(2) r' cf(2) keeps_is_null [OF k(1)] unfolding int_frame_def
    by (intro conjI exI [of _ t] exI [of _ "ps @ qs"] exI [of _ cf]) (simp_all add: nth_append)
qed

lemma push_frame:
  assumes f: "int_frame s da outer bs ip xs"
  shows "yields (is_push da v) s (\<lambda>_ s'. int_frame s' da outer bs ip (xs @ [v]))"
proof -
  from f obtain t ps where t: "std_env s" "thread_at s da t" "istack_rep s ps xs" "th_istack t = ps ! 0"
    by (rule int_frameE) blast
  have "yields (stack_push istack_kind (ps ! 0) v) s (\<lambda>_ s'. int_frame s' da outer bs ip (xs @ [v]))"
    by (rule yields_mono [OF istk.push_list [OF t(1,3)]])
      (auto simp: istk.pushed_def intro: frame_after [OF f t(3,2,4)])
  then show ?thesis
    by (simp add: is_push_def yields_bind_ret [where m = "load_da as_thread da", OF thread_load [OF t(2)]]
        pvm_istack_push_def t(4))
qed

lemma popped_frame:
  assumes f: "int_frame s da outer bs ip xs" and t: "thread_at s da t" "istack_rep s ps xs" "th_istack t = ps ! 0"
    and p: "istk.popped s ps ys s'"
  shows "int_frame s' da outer bs ip ys"
  using p frame_after [OF f t(2,1,3), where qs = "[]"] by (simp add: istk.popped_def)

lemma pop_frame:
  assumes f: "int_frame s da outer bs ip xs" and ne: "xs \<noteq> []"
  shows "\<exists>s'. is_pop da s = Inr (last xs, s') \<and> int_frame s' da outer bs ip (butlast xs)"
    and "\<exists>s'. is_top da s = Inr (last xs, s') \<and> int_frame s' da outer bs ip xs"
proof -
  from f obtain t ps where t: "std_env s" "thread_at s da t" "istack_rep s ps xs" "th_istack t = ps ! 0"
    by (rule int_frameE) blast
  note P = istk.pop_list [OF t(1,3) ne] and F = popped_frame [OF f t(2-4)]
  show "\<exists>s'. is_pop da s = Inr (last xs, s') \<and> int_frame s' da outer bs ip (butlast xs)"
    using P(1) F by (auto simp: is_pop_def bindE_apply thread_load [OF t(2)] pvm_istack_pop_def t(4))
  show "\<exists>s'. is_top da s = Inr (last xs, s') \<and> int_frame s' da outer bs ip xs"
    using P(2) F by (auto simp: is_top_def bindE_apply thread_load [OF t(2)] pvm_istack_top_def t(4))
qed

lemma iget_frame:
  assumes f: "int_frame s da outer bs ip xs" and i: "i < length xs"
  shows "yields (pvm_exec_iget da i) s (\<lambda>_ s'. int_frame s' da outer bs ip (xs @ [xs ! i]))"
proof -
  from f obtain t ps where t: "std_env s" "thread_at s da t" "istack_rep s ps xs" "th_istack t = ps ! 0"
    by (rule int_frameE) blast
  have "pvm_istack_abs_get (ps ! 0) i s = Inr (xs ! i, s)"
    using istk.abs_get_list [OF t(3) i] by (simp add: pvm_istack_abs_get_def)
  then show ?thesis
    using push_frame [OF f, of "xs ! i"]
    by (simp add: pvm_exec_iget_def yields_def bindE_apply thread_load [OF t(2)] t(4))
qed

lemma iset_frame:
  assumes f: "int_frame s da outer bs ip xs" and i: "i < length xs - 1"
  shows "\<exists>s'. pvm_exec_iset da i s = Inr ((), s') \<and> int_frame s' da outer bs ip ((butlast xs)[i := last xs])"
proof -
  from f obtain t ps where t: "std_env s" "thread_at s da t" "istack_rep s ps xs" "th_istack t = ps ! 0"
    by (rule int_frameE) blast
  have "xs \<noteq> []" using i by auto
  from istk.pop_list(1) [OF t(1,3) this] obtain s1 where p:
    "stack_pop istack_kind (ps ! 0) s = Inr (last xs, s1)" "istk.popped s ps (butlast xs) s1" by blast
  then have r: "std_env s1" "istack_rep s1 ps (butlast xs)" "keeps s s1 (set ps)" by (auto simp: istk.popped_def)
  have f1: "int_frame s1 da outer bs ip (butlast xs)" by (rule popped_frame [OF f t(2-4) p(2)])
  have t1: "thread_at s1 da t" by (rule thread_at_keeps [OF t(2) r(3) istack_not_thread [OF t(3,2)]])
  from istk.abs_set_list [OF r(1,2), of i "''i abs_set: out of stack''" "last xs"] i obtain s2 where
    "pvm_istack_abs_set (ps ! 0) i (last xs) s1 = Inr ((), s2)" "istk.popped s1 ps ((butlast xs)[i := last xs]) s2"
    by (auto simp: pvm_istack_abs_set_def)
  with p(1) popped_frame [OF f1 t1 r(2) t(4)] show ?thesis
    by (simp add: pvm_exec_iset_def is_pop_def pvm_istack_pop_def bindE_apply thread_load [OF t(2)] t(4))
qed


section \<open>Simulation of one instruction\<close>

text \<open>The instructions that the loop itself handles.\<close>

definition special :: "u8 \<Rightarrow> bool" where
  "special b \<longleftrightarrow> b \<in> {opcode_prefix_long, opcode_prefix_float, opcode_prefix_double, opcode_ret}"

lemma binop_frame:
  assumes f: "int_frame s da outer bs ip xs" and n: "2 \<le> length xs"
    and g: "g (last xs) (last (butlast xs)) = ret v"
  shows "yields (is_binop da g) s (\<lambda>_ s'. int_frame s' da outer bs ip (butlast (butlast xs) @ [v]))"
proof -
  have ne: "xs \<noteq> []" "butlast xs \<noteq> []" using n by (auto simp flip: length_greater_0_conv)
  from pop_frame(1) [OF f ne(1)] obtain s1 where s1: "is_pop da s = Inr (last xs, s1)"
    "int_frame s1 da outer bs ip (butlast xs)" by blast
  from pop_frame(1) [OF s1(2) ne(2)] obtain s2 where s2: "is_pop da s1 = Inr (last (butlast xs), s2)"
    "int_frame s2 da outer bs ip (butlast (butlast xs))" by blast
  from push_frame [OF s2(2), of v] s1(1) s2(1) g show ?thesis
    by (simp add: is_binop_def yields_def bindE_apply)
qed

lemma unop_frame:
  assumes f: "int_frame s da outer bs ip xs" and ne: "xs \<noteq> []"
  shows "yields (is_unop da g) s (\<lambda>_ s'. int_frame s' da outer bs ip (butlast xs @ [g (last xs)]))"
proof -
  from pop_frame(1) [OF f ne] obtain s1 where s1: "is_pop da s = Inr (last xs, s1)"
    "int_frame s1 da outer bs ip (butlast xs)" by blast
  from push_frame [OF s1(2)] s1(1) show ?thesis by (simp add: is_unop_def yields_def bindE_apply)
qed

text \<open>The keys of the instruction tables are different, so a lookup finds an entry of any table.\<close>

definition op_keys :: "u8 list" where
  "op_keys = [opcode_nop, opcode_debug, opcode_general_lock, opcode_general_unlock, opcode_is_dup,
     opcode_is_drop, opcode_iconst_0, opcode_iconst_1, opcode_iconst_8bit, opcode_iconst_32bit,
     opcode_iconst_64bit, opcode_ishl, opcode_ishr, opcode_ushr, opcode_isum, opcode_imul,
     opcode_isubul, opcode_isublu, opcode_idivul, opcode_idivlu, opcode_ior, opcode_iand,
     opcode_ixor, opcode_inot, opcode_log_or, opcode_log_and, opcode_log_xor, opcode_log_not,
     opcode_ige, opcode_ile, opcode_igt, opcode_ilt, opcode_i2o, opcode_o2i, opcode_os_eq,
     opcode_os_neq, opcode_os_isnull, opcode_summon_null, opcode_summon_thread, opcode_summon_this,
     opcode_summon_class_class, opcode_summon_interface_class, opcode_summon_code_class,
     opcode_summon_int_class, opcode_summon_string_class, opcode_summon_array_class,
     opcode_summon_by_name, opcode_new, opcode_copy, opcode_sconst_bin, opcode_jmp, opcode_djnz,
     opcode_jz, opcode_switch, opcode_throw, opcode_push_catcher, opcode_pop_catcher,
     opcode_short_call_0, opcode_short_call_1, opcode_short_call_2, opcode_short_call_3,
     opcode_call_8bit, opcode_call_32bit, opcode_dynamic_invoke, opcode_os_dup, opcode_os_drop,
     opcode_os_pull32, opcode_os_load8, opcode_os_load32, opcode_os_save8, opcode_os_save32,
     opcode_is_load8, opcode_is_save8, opcode_os_get32, opcode_os_set32, opcode_is_get32,
     opcode_is_set32]"

lemma exec_ops_keys: "map fst (exec_ops X exec th px) = op_keys"
  by (simp add: exec_ops_def op_keys_def misc_ops_def istack_ops_def arith_ops_def convert_ops_def
      summon_ops_def Let_def flow_ops_def call_ops_def ostack_ops_def)

lemma op_keys_distinct: "distinct op_keys" "b \<in> set op_keys \<Longrightarrow> \<not> special b"
proof -
  have "distinct (map unat (op_keys @ [opcode_prefix_long, opcode_prefix_float, opcode_prefix_double, opcode_ret]))"
    by (simp add: op_keys_def opcode_defs)
  then have "distinct (op_keys @ [opcode_prefix_long, opcode_prefix_float, opcode_prefix_double, opcode_ret])"
    by (simp only: distinct_map)
  then show "distinct op_keys" "b \<in> set op_keys \<Longrightarrow> \<not> special b" by (auto simp: special_def)
qed

lemma exec_ops_entry:
  assumes "(b, act) \<in> set (exec_ops X exec th px)"
  shows "map_of (exec_ops X exec th px) b = Some act" "\<not> special b"
proof -
  have "distinct (map fst (exec_ops X exec th px))" using op_keys_distinct(1) by (simp only: exec_ops_keys)
  with assms show "map_of (exec_ops X exec th px) b = Some act" by simp
  have "b \<in> set (map fst (exec_ops X exec th px))" using assms by force
  then show "\<not> special b" unfolding exec_ops_keys by (rule op_keys_distinct(2))
qed

lemma exec_ops_tables:
  "x \<in> set (misc_ops (ob_data th)) \<Longrightarrow> x \<in> set (exec_ops X exec th px)"
  "x \<in> set (istack_ops px (ob_data th)) \<Longrightarrow> x \<in> set (exec_ops X exec th px)"
  "x \<in> set (arith_ops (ob_data th)) \<Longrightarrow> x \<in> set (exec_ops X exec th px)"
  "x \<in> set (flow_ops (ob_data th)) \<Longrightarrow> x \<in> set (exec_ops X exec th px)"
  "x \<in> set (ostack_ops (ob_data th)) \<Longrightarrow> x \<in> set (exec_ops X exec th px)"
  unfolding exec_ops_def Let_def by simp_all

lemma step_via:
  assumes f: "int_frame s da outer bs ip xs" and ip: "ip < length bs" and th: "ob_data th = da"
    and act: "(bs ! ip, act) \<in> set (exec_ops X exec th no_prefix)"
    and run: "\<And>s1. int_frame s1 da outer bs (ip + 1) xs \<Longrightarrow> yields act s1 (\<lambda>_ s'. int_frame s' da outer bs ip' ys)"
  shows "yields (exec_step X exec th no_prefix) s (\<lambda>r s'. r = (False, no_prefix) \<and> int_frame s' da outer bs ip' ys)"
proof -
  from fetch_instr [OF f ip] obtain s1 where s1: "on_code da pvm_code_get_byte s = Inr (bs ! ip, s1)"
    "int_frame s1 da outer bs (ip + 1) xs" by blast
  with run have "yields act s1 (\<lambda>_ s'. int_frame s' da outer bs ip' ys)" by blast
  then show ?thesis
    using s1(1) exec_ops_entry [OF act] th
    by (auto simp: special_def exec_step_def exec_instr_def yields_def bindE_apply thenE_apply Let_def no_prefix_def)
qed

lemma arith_lookup:
  "(opcode_ishl, is_binop da (\<lambda>val n. ret (c_shl val n))) \<in> set (arith_ops da)"
  "(opcode_ishr, is_binop da (\<lambda>val n. ret (c_shr val n))) \<in> set (arith_ops da)"
  "(opcode_ushr, is_binop da (\<lambda>val n. ret (c_ushr val n))) \<in> set (arith_ops da)"
  "(opcode_isum, is_binop da (\<lambda>add nxt. ret (nxt + add))) \<in> set (arith_ops da)"
  "(opcode_imul, is_binop da (\<lambda>mul nxt. ret (nxt * mul))) \<in> set (arith_ops da)"
  "(opcode_isubul, is_binop da (\<lambda>u l. ret (u - l))) \<in> set (arith_ops da)"
  "(opcode_isublu, is_binop da (\<lambda>u l. ret (l - u))) \<in> set (arith_ops da)"
  "(opcode_idivul, is_binop da (\<lambda>u l. c_div u l)) \<in> set (arith_ops da)"
  "(opcode_idivlu, is_binop da (\<lambda>u l. c_div l u)) \<in> set (arith_ops da)"
  "(opcode_ior, is_binop da (\<lambda>operand nxt. ret (nxt OR operand))) \<in> set (arith_ops da)"
  "(opcode_iand, is_binop da (\<lambda>operand nxt. ret (nxt AND operand))) \<in> set (arith_ops da)"
  "(opcode_ixor, is_binop da (\<lambda>operand nxt. ret (nxt XOR operand))) \<in> set (arith_ops da)"
  "(opcode_inot, is_unop da NOT) \<in> set (arith_ops da)"
  "(opcode_log_or, is_binop da (\<lambda>o1 o2. ret (of_bool (o1 \<noteq> 0 \<or> o2 \<noteq> 0)))) \<in> set (arith_ops da)"
  "(opcode_log_and, is_binop da (\<lambda>o1 o2. ret (of_bool (o1 \<noteq> 0 \<and> o2 \<noteq> 0)))) \<in> set (arith_ops da)"
  "(opcode_log_xor, is_binop da (\<lambda>o1 o2. ret (of_bool ((o1 \<noteq> 0) \<noteq> (o2 \<noteq> 0))))) \<in> set (arith_ops da)"
  "(opcode_log_not, is_unop da (\<lambda>operand. of_bool (operand = 0))) \<in> set (arith_ops da)"
  "(opcode_ige, is_binop da (\<lambda>operand nxt. ret (of_bool (sint nxt \<ge> sint operand)))) \<in> set (arith_ops da)"
  "(opcode_ile, is_binop da (\<lambda>operand nxt. ret (of_bool (sint nxt \<le> sint operand)))) \<in> set (arith_ops da)"
  "(opcode_igt, is_binop da (\<lambda>operand nxt. ret (of_bool (sint nxt > sint operand)))) \<in> set (arith_ops da)"
  "(opcode_ilt, is_binop da (\<lambda>operand nxt. ret (of_bool (sint nxt < sint operand)))) \<in> set (arith_ops da)"
  unfolding arith_ops_def by (simp_all only: list.set insert_iff simp_thms)

lemma binops_match:
  "\<forall>x \<in> set int_binops. \<exists>g. (fst x, is_binop da g) \<in> set (arith_ops da) \<and>
     (\<forall>t n v. snd x t n = Some v \<longrightarrow> g t n = ret v)"
  unfolding int_binops_def list.set ball_simps fst_conv snd_conv
  by (intro conjI TrueI; rule exI, rule conjI, rule arith_lookup)
    (auto simp: div_opt_def c_div_def split: if_splits)

lemma lookup_binop:
  assumes "map_of int_binops b = Some f" "f t n = Some v"
  shows "\<exists>g. (b, is_binop da g) \<in> set (arith_ops da) \<and> g t n = ret v"
proof -
  have "(b, f) \<in> set int_binops" using assms(1) by (rule map_of_SomeD)
  from bspec [OF binops_match this, of da] assms(2) show ?thesis by auto
qed

lemma lookup_unop: "map_of int_unops b = Some f \<Longrightarrow> (b, is_unop da f) \<in> set (arith_ops da)"
  unfolding int_unops_def by (auto intro: arith_lookup split: if_splits)

lemma arith_simulated:
  assumes f: "int_frame s da outer bs ip xs" and ip: "ip < length bs" and th: "ob_data th = da"
    and st: "arith_instr bs ip xs = Some (ip', ys)"
  shows "yields (exec_step X exec th no_prefix) s (\<lambda>r s'. r = (False, no_prefix) \<and> int_frame s' da outer bs ip' ys)"
proof (cases "map_of int_binops (bs ! ip)")
  case (Some g)
  with st obtain v where v: "2 \<le> length xs" "g (last xs) (last (butlast xs)) = Some v"
    "ip' = ip + 1" "ys = butlast (butlast xs) @ [v]" by (auto simp: arith_instr_def split: if_splits)
  from lookup_binop [OF Some v(2), of da] obtain h where h: "(bs ! ip, is_binop da h) \<in> set (arith_ops (ob_data th))" "h (last xs) (last (butlast xs)) = ret v" using th by auto
  show ?thesis
    by (rule step_via [OF f ip th exec_ops_tables(3) [OF h(1)]]) (simp add: v(3,4) binop_frame v(1) h(2))
next
  case None
  with st obtain g where g: "map_of int_unops (bs ! ip) = Some g" "xs \<noteq> []" "ip' = ip + 1"
    "ys = butlast xs @ [g (last xs)]" by (auto simp: arith_instr_def split: option.splits if_splits)
  from lookup_unop [OF g(1), of da] th have h: "(bs ! ip, is_unop da g) \<in> set (arith_ops (ob_data th))" by simp
  show ?thesis
    by (rule step_via [OF f ip th exec_ops_tables(3) [OF h]]) (simp add: g(3,4) unop_frame g(2))
qed

lemma istack_lookup:
  "(opcode_iconst_0, (thenE (is_push da 0) (ret ()))) \<in> set (istack_ops no_prefix da)"
  "(opcode_iconst_1, (thenE (is_push da 1) (ret ()))) \<in> set (istack_ops no_prefix da)"
  "(opcode_iconst_8bit, (bindE (fetch_byte da) (\<lambda>v. is_push da (word_of_nat v)))) \<in> set (istack_ops no_prefix da)"
  "(opcode_iconst_32bit, (bindE (fetch_int32 da) (is_push da))) \<in> set (istack_ops no_prefix da)"
  "(opcode_is_dup, (bindE (is_top da) (is_push da))) \<in> set (istack_ops no_prefix da)"
  "(opcode_is_drop, (bindE (is_pop da) (\<lambda>_. ret ()))) \<in> set (istack_ops no_prefix da)"
  by (simp_all add: istack_ops_def DO_TWICE_def no_prefix_def whenE_def)

lemma other_lookup:
  "(opcode_nop, (ret ())) \<in> set (misc_ops da)"
  "(opcode_is_get32, (bindE (fetch_int32 da) (\<lambda>n. pvm_exec_iget da (unat n)))) \<in> set (ostack_ops da)"
  "(opcode_is_set32, (bindE (fetch_int32 da) (\<lambda>n. pvm_exec_iset da (unat n)))) \<in> set (ostack_ops da)"
  "(opcode_jmp, (bindE (on_code da pvm_code_get_rel_IP_as_abs) (set_IP da))) \<in> set (flow_ops da)"
  "(opcode_jz, (bindE (on_code da pvm_code_get_rel_IP_as_abs) (\<lambda>new_IP.
     bindE (is_pop da) (\<lambda>test. whenE (test = 0) (set_IP da new_IP))))) \<in> set (flow_ops da)"
  "(opcode_djnz, (exec_djnz da)) \<in> set (flow_ops da)"
  unfolding misc_ops_def ostack_ops_def flow_ops_def by (simp_all only: list.set insert_iff simp_thms)

lemma yields_bind_some:
  assumes "\<exists>s'. m s = Inr (x, s') \<and> I s'" "\<And>s'. I s' \<Longrightarrow> yields (f x) s' Q"
  shows "yields (bindE m f) s Q"
proof -
  from assms(1) obtain s' where "m s = Inr (x, s')" "I s'" by blast
  with assms(2) show ?thesis by (auto intro: yields_bind_exact)
qed

lemma yields_fetch_int:
  assumes f: "int_frame s da outer bs ip xs" and n: "ip + 4 \<le> length bs"
    and k: "\<And>s1. int_frame s1 da outer bs (ip + 4) xs \<Longrightarrow> yields (g (int_at bs ip)) s1 Q"
  shows "yields (bindE (fetch_int32 da) g) s Q"
  by (rule yields_bind_some, rule fetch_int [OF f n], erule k)

lemma yields_fetch_byte:
  assumes f: "int_frame s da outer bs ip xs" and n: "ip < length bs"
    and k: "\<And>s1. int_frame s1 da outer bs (ip + 1) xs \<Longrightarrow> yields (g (unat (bs ! ip))) s1 Q"
  shows "yields (bindE (fetch_byte da) g) s Q"
proof (rule yields_bind_some)
  show "\<exists>s'. fetch_byte da s = Inr (unat (bs ! ip), s') \<and> int_frame s' da outer bs (ip + 1) xs"
    using fetch_instr [OF f n] by (auto simp: fetch_byte_def bindE_apply)
qed (rule k)

lemma yields_fetch_target:
  assumes f: "int_frame s da outer bs ip xs" and n: "ip + 4 \<le> length bs"
    and k: "\<And>s1. int_frame s1 da outer bs (ip + 4) xs \<Longrightarrow> yields (g (jump_target bs ip)) s1 Q"
  shows "yields (bindE (on_code da pvm_code_get_rel_IP_as_abs) g) s Q"
  by (rule yields_bind_some, rule fetch_target [OF f n], erule k)

lemma yields_pop:
  assumes f: "int_frame s da outer bs ip xs" and n: "xs \<noteq> []"
    and k: "\<And>s1. int_frame s1 da outer bs ip (butlast xs) \<Longrightarrow> yields (g (last xs)) s1 Q"
  shows "yields (bindE (is_pop da) g) s Q"
  by (rule yields_bind_some, rule pop_frame(1) [OF f n], erule k)

lemma yields_top:
  assumes f: "int_frame s da outer bs ip xs" and n: "xs \<noteq> []"
    and k: "\<And>s1. int_frame s1 da outer bs ip xs \<Longrightarrow> yields (g (last xs)) s1 Q"
  shows "yields (bindE (is_top da) g) s Q"
  by (rule yields_bind_some, rule pop_frame(2) [OF f n], erule k)

lemma yields_set_IP: "int_frame s da outer bs ip xs \<Longrightarrow> yields (set_IP da ip') s (\<lambda>_ s'. int_frame s' da outer bs ip' xs)"
  using set_IP_frame by (auto simp: yields_def)

lemma yields_iset:
  "int_frame s da outer bs ip xs \<Longrightarrow> i < length xs - 1 \<Longrightarrow>
     yields (pvm_exec_iset da i) s (\<lambda>_ s'. int_frame s' da outer bs ip ((butlast xs)[i := last xs]))"
  using iset_frame by (auto simp: yields_def)

lemma push_const_cases:
  "push_const bs ip xs = Some (ip', ys) \<Longrightarrow>
    bs ! ip = opcode_iconst_0 \<and> ip' = ip + 1 \<and> ys = xs @ [0] \<or>
    bs ! ip = opcode_iconst_1 \<and> ip' = ip + 1 \<and> ys = xs @ [1] \<or>
    bs ! ip = opcode_iconst_8bit \<and> ip + 2 \<le> length bs \<and> ip' = ip + 1 + 1 \<and>
      ys = xs @ [word_of_nat (unat (bs ! (ip + 1)))] \<or>
    bs ! ip = opcode_iconst_32bit \<and> ip + 5 \<le> length bs \<and> ip' = ip + 1 + 4 \<and> ys = xs @ [int_at bs (ip + 1)]"
  unfolding push_const_def Let_def by (simp only: option.inject prod.inject split: if_split_asm) simp_all

lemma stack_instr_cases:
  "stack_instr bs ip xs = Some (ip', ys) \<Longrightarrow> bs ! ip = opcode_nop \<and> ip' = ip + 1 \<and> ys = xs \<or>
    xs \<noteq> [] \<and> bs ! ip = opcode_is_dup \<and> ip' = ip + 1 \<and> ys = xs @ [last xs] \<or>
    xs \<noteq> [] \<and> bs ! ip = opcode_is_drop \<and> ip' = ip + 1 \<and> ys = butlast xs \<or>
    bs ! ip = opcode_is_get32 \<and> ip + 5 \<le> length bs \<and> unat (int_at bs (ip + 1)) < length xs \<and>
      ip' = ip + 1 + 4 \<and> ys = xs @ [xs ! unat (int_at bs (ip + 1))] \<or>
    bs ! ip = opcode_is_set32 \<and> ip + 5 \<le> length bs \<and> unat (int_at bs (ip + 1)) < length xs - 1 \<and>
      ip' = ip + 1 + 4 \<and> ys = (butlast xs)[unat (int_at bs (ip + 1)) := last xs]"
  unfolding stack_instr_def Let_def by (simp only: option.inject prod.inject split: if_split_asm) simp_all

lemma jump_instr_cases:
  "jump_instr bs ip xs = Some (ip', ys) \<Longrightarrow> ip + 5 \<le> length bs \<and>
    (bs ! ip = opcode_jmp \<and> ip' = jump_target bs (ip + 1) \<and> ys = xs \<or>
     xs \<noteq> [] \<and> bs ! ip = opcode_jz \<and> ys = butlast xs \<and>
       ip' = (if last xs = 0 then jump_target bs (ip + 1) else ip + 1 + 4) \<or>
     xs \<noteq> [] \<and> bs ! ip = opcode_djnz \<and> ys = butlast xs @ [last xs - 1] \<and>
       ip' = (if last xs - 1 \<noteq> 0 then jump_target bs (ip + 1) else ip + 1 + 4))"
  unfolding jump_instr_def Let_def by (simp only: option.inject prod.inject split: if_split_asm) simp_all

lemma const_simulated:
  assumes f: "int_frame s da outer bs ip xs" and ip: "ip < length bs" and th: "ob_data th = da"
    and st: "push_const bs ip xs = Some (ip', ys)"
  shows "yields (exec_step X exec th no_prefix) s (\<lambda>r s'. r = (False, no_prefix) \<and> int_frame s' da outer bs ip' ys)"
proof -
  note via = step_via [OF f ip th exec_ops_tables(2)]
  from push_const_cases [OF st] consider "bs ! ip = opcode_iconst_0" "ip' = ip + 1" "ys = xs @ [0]"
    | "bs ! ip = opcode_iconst_1" "ip' = ip + 1" "ys = xs @ [1]"
    | "bs ! ip = opcode_iconst_8bit" "ip + 2 \<le> length bs" "ip' = ip + 1 + 1"
      "ys = xs @ [word_of_nat (unat (bs ! (ip + 1)))]"
    | "bs ! ip = opcode_iconst_32bit" "ip + 5 \<le> length bs" "ip' = ip + 1 + 4" "ys = xs @ [int_at bs (ip + 1)]"
    by blast
  then show ?thesis
  proof cases
    case 1
    show ?thesis
      by (rule via, unfold 1(1) th, rule istack_lookup)
        (simp add: 1(2,3), rule yields_then [OF push_frame], assumption, simp)
  next
    case 2
    show ?thesis
      by (rule via, unfold 2(1) th, rule istack_lookup)
        (simp add: 2(2,3), rule yields_then [OF push_frame], assumption, simp)
  next
    case 3
    show ?thesis
      by (rule via, unfold 3(1) th, rule istack_lookup)
        (unfold 3(3,4), rule yields_fetch_byte, assumption, use 3(2) in simp, rule push_frame)
  next
    case 4
    show ?thesis
      by (rule via, unfold 4(1) th, rule istack_lookup)
        (unfold 4(3,4), rule yields_fetch_int, assumption, use 4(2) in simp, rule push_frame)
  qed
qed


lemma stack_simulated:
  assumes f: "int_frame s da outer bs ip xs" and ip: "ip < length bs" and th: "ob_data th = da"
    and st: "stack_instr bs ip xs = Some (ip', ys)"
  shows "yields (exec_step X exec th no_prefix) s (\<lambda>r s'. r = (False, no_prefix) \<and> int_frame s' da outer bs ip' ys)"
proof -
  note via = step_via [OF f ip th]
  let ?n = "unat (int_at bs (ip + 1))"
  from stack_instr_cases [OF st] consider "bs ! ip = opcode_nop" "ip' = ip + 1" "ys = xs"
    | "bs ! ip = opcode_is_dup" "xs \<noteq> []" "ip' = ip + 1" "ys = xs @ [last xs]"
    | "bs ! ip = opcode_is_drop" "xs \<noteq> []" "ip' = ip + 1" "ys = butlast xs"
    | "bs ! ip = opcode_is_get32" "ip + 5 \<le> length bs" "?n < length xs" "ip' = ip + 1 + 4" "ys = xs @ [xs ! ?n]"
    | "bs ! ip = opcode_is_set32" "ip + 5 \<le> length bs" "?n < length xs - 1" "ip' = ip + 1 + 4"
      "ys = (butlast xs)[?n := last xs]" by blast
  then show ?thesis
  proof cases
    case 1
    show ?thesis
      by (rule via, rule exec_ops_tables(1), unfold 1(1) th, rule other_lookup) (simp add: 1)
  next
    case 2
    show ?thesis
      by (rule via, rule exec_ops_tables(2), unfold 2(1) th, rule istack_lookup)
        (unfold 2(3,4), rule yields_top, assumption, rule 2(2), rule push_frame)
  next
    case 3
    show ?thesis
      by (rule via, rule exec_ops_tables(2), unfold 3(1) th, rule istack_lookup)
        (unfold 3(3,4), rule yields_pop, assumption, rule 3(2), simp)
  next
    case 4
    show ?thesis
      by (rule via, rule exec_ops_tables(5), unfold 4(1) th, rule other_lookup)
        (unfold 4(4,5), rule yields_fetch_int, assumption, use 4(2) in simp, rule iget_frame, assumption, rule 4(3))
  next
    case 5
    show ?thesis
      by (rule via, rule exec_ops_tables(5), unfold 5(1) th, rule other_lookup)
        (unfold 5(4,5), rule yields_fetch_int, assumption, use 5(2) in simp, rule yields_iset, assumption, rule 5(3))
  qed
qed

lemma jump_simulated:
  assumes f: "int_frame s da outer bs ip xs" and ip: "ip < length bs" and th: "ob_data th = da"
    and st: "jump_instr bs ip xs = Some (ip', ys)"
  shows "yields (exec_step X exec th no_prefix) s (\<lambda>r s'. r = (False, no_prefix) \<and> int_frame s' da outer bs ip' ys)"
proof -
  note via = step_via [OF f ip th exec_ops_tables(4)]
  from jump_instr_cases [OF st] have n: "ip + 1 + 4 \<le> length bs" by simp
  let ?t = "jump_target bs (ip + 1)"
  from jump_instr_cases [OF st] consider "bs ! ip = opcode_jmp" "ip' = ?t" "ys = xs"
    | "bs ! ip = opcode_jz" "xs \<noteq> []" "ip' = (if last xs = 0 then ?t else ip + 1 + 4)" "ys = butlast xs"
    | "bs ! ip = opcode_djnz" "xs \<noteq> []" "ip' = (if last xs - 1 \<noteq> 0 then ?t else ip + 1 + 4)"
      "ys = butlast xs @ [last xs - 1]" by blast
  then show ?thesis
  proof cases
    case 1
    show ?thesis
      by (rule via, unfold 1(1) th, rule other_lookup)
        (unfold 1(2,3), rule yields_fetch_target, assumption, rule n, rule yields_set_IP)
  next
    case 2
    have "yields (whenE (last xs = 0) (set_IP da ?t)) s1 (\<lambda>_ s'. int_frame s' da outer bs ip' (butlast xs))"
      if "int_frame s1 da outer bs (ip + 1 + 4) (butlast xs)" for s1
      using that yields_set_IP [OF that] by (simp add: whenE_def 2(3))
    then show ?thesis
      by - (rule via, unfold 2(1) th, rule other_lookup,
          unfold 2(4), rule yields_fetch_target, assumption, rule n, rule yields_pop, assumption, rule 2(2))
  next
    case 3
    have "yields (bindE (is_top da) (\<lambda>top. whenE (top \<noteq> 0) (set_IP da ?t))) s1
        (\<lambda>_ s'. int_frame s' da outer bs ip' (butlast xs @ [last xs - 1]))"
      if "int_frame s1 da outer bs (ip + 1 + 4) (butlast xs @ [last xs - 1])" for s1
      by (rule yields_top [OF that]) (use yields_set_IP in \<open>auto simp: whenE_def 3(3)\<close>)
    then show ?thesis
      unfolding exec_djnz_def
      by - (rule via, unfold 3(1) th, rule other_lookup,
          unfold 3(4) exec_djnz_def, rule yields_fetch_target, assumption, rule n, rule yields_pop,
          assumption, rule 3(2), rule yields_then [OF push_frame], assumption)
  qed
qed

text \<open>One iteration of the interpreter's loop does what the abstract machine does.\<close>

lemma int_step_simulated:
  assumes f: "int_frame s da outer bs ip xs" and th: "ob_data th = da"
    and st: "int_step bs (ip, xs) = Some (ip', ys)"
  shows "yields (exec_step X exec th no_prefix) s (\<lambda>r s'. r = (False, no_prefix) \<and> int_frame s' da outer bs ip' ys)"
proof -
  from st have ip: "ip < length bs" by (simp add: int_step_def split: if_splits)
  from st ip consider "push_const bs ip xs = Some (ip', ys)" | "stack_instr bs ip xs = Some (ip', ys)"
    | "jump_instr bs ip xs = Some (ip', ys)" | "arith_instr bs ip xs = Some (ip', ys)"
    by (auto simp: int_step_def split: option.splits)
  then show ?thesis
    using const_simulated stack_simulated jump_simulated arith_simulated f ip th by cases auto
qed

lemma int_run_simulated:
  assumes "int_frame s da outer bs ip xs" "ob_data th = da" "int_run n bs (ip, xs) = Some (ip', ys)"
    and "\<And>s'. int_frame s' da outer bs ip' ys \<Longrightarrow> yields (exec_loop m X th no_prefix) s' Q"
  shows "yields (exec_loop (n + m) X th no_prefix) s Q"
  using assms
proof (induction n arbitrary: s ip xs)
  case 0
  then show ?case by simp
next
  case (Suc n)
  from Suc.prems(3) obtain ip1 xs1 where st: "int_step bs (ip, xs) = Some (ip1, xs1)"
    "int_run n bs (ip1, xs1) = Some (ip', ys)" by (auto simp: Option.bind_eq_Some_conv)
  show ?case
    unfolding add_Suc exec_loop.simps
    by (rule yields_bind [OF int_step_simulated [OF Suc.prems(1,2) st(1)]])
      (auto intro!: Suc.IH [OF _ Suc.prems(2) st(2) Suc.prems(4)])
qed


lemma ret_from_top:
  assumes f: "int_frame s da True bs ip xs" and th: "ob_data th = da" and ip: "ip < length bs"
    and op: "bs ! ip = opcode_ret"
  shows "\<exists>s'. exec_loop (Suc n) X th no_prefix s = Inr ((), s') \<and> int_frame s' da True bs (ip + 1) xs"
proof -
  from fetch_instr [OF f ip] obtain s1 where s1: "on_code da pvm_code_get_byte s = Inr (opcode_ret, s1)"
    "int_frame s1 da True bs (ip + 1) xs" using op by auto
  from s1(2) obtain t ps cf where t: "thread_at s1 da t" "frame_at s1 (ob_data (th_call_frame t)) cf"
    "pvm_is_null s1 (cf_prev cf)" by (rule int_frameE) blast
  have "prev_frame da s1 = Inr (cf_prev cf, s1)"
    by (simp add: prev_frame_def bindE_apply thread_load [OF t(1)] frame_load [OF t(2)])
  moreover have "opcode_ret \<notin> {opcode_prefix_long, opcode_prefix_float, opcode_prefix_double}"
    by (simp add: opcode_defs)
  ultimately show ?thesis
    using s1 th t(3) by (simp add: exec_step_def exec_instr_def bindE_apply thenE_apply Let_def no_prefix_def)
qed

lemma run_returns:
  assumes f: "int_frame s da True bs ip xs" and th: "ob_data th = da"
    and run: "int_run n bs (ip, xs) = Some (ip', ys)" and r: "ip' < length bs" "bs ! ip' = opcode_ret"
    and m: "n < m"
  shows "yields (exec_loop m X th no_prefix) s (\<lambda>_ s'. int_frame s' da True bs (ip' + 1) ys)"
proof -
  have "yields (exec_loop (n + Suc (m - Suc n)) X th no_prefix) s (\<lambda>_ s'. int_frame s' da True bs (ip' + 1) ys)"
  proof (rule int_run_simulated [OF f th run])
    fix s1 assume "int_frame s1 da True bs ip' ys"
    from ret_from_top [OF this th r, of "m - Suc n"]
    show "yields (exec_loop (Suc (m - Suc n)) X th no_prefix) s1 (\<lambda>_ s'. int_frame s' da True bs (ip' + 1) ys)"
      by (auto simp: yields_def simp del: exec_loop.simps)
  qed
  then show ?thesis using m by simp
qed

section \<open>A thread about to run given code\<close>

text \<open>The code \<open>bs\<close> and the numbers \<open>xs\<close> on the integer stack, in a small heap.\<close>

definition running_state :: "u8 list \<Rightarrow> i32 list \<Rightarrow> vm_state" where
  "running_state bs xs = sample_state 0
     [DA_thread (zero_thread\<lparr>th_code := spot 5, th_IP_max := length bs, th_call_frame := at_spot 3,
        th_istack := spot 4\<rparr>),
      DA_call_frame (zero_call_frame\<lparr>cf_prev := at_spot 0, cf_istack := at_spot 4\<rparr>),
      DA_istack (filled_page (at_spot 4) PVM_INTEGER_STACK_SIZE 0 xs),
      DA_code (length bs) bs]"

definition program_state :: "u8 list \<Rightarrow> vm_state" where
  "program_state bs = running_state bs []"

lemma running_state_frame:
  assumes "length bs + 8 < 2 ^ 32" "length xs \<le> PVM_INTEGER_STACK_SIZE"
  shows "int_frame (running_state bs xs) (spot 2) True bs 0 xs"
proof -
  let ?s = "running_state bs xs"
  have e: "std_env ?s" unfolding running_state_def by (rule sample_state_env) simp
  have h: "heap ?s (spot 2) = Some (sample_ob (at_spot 1) 0 (DA_thread (zero_thread\<lparr>th_code := spot 5,
        th_IP_max := length bs, th_call_frame := at_spot 3, th_istack := spot 4\<rparr>)))"
    "heap ?s (spot 3) = Some (sample_ob (at_spot 1) 0
       (DA_call_frame (zero_call_frame\<lparr>cf_prev := at_spot 0, cf_istack := at_spot 4\<rparr>)))"
    "heap ?s (spot 4) = Some (sample_ob (at_spot 1) 0
       (DA_istack (filled_page (at_spot 4) PVM_INTEGER_STACK_SIZE 0 xs)))"
    "heap ?s (spot 5) = Some (sample_ob (at_spot 1) 0 (DA_code (length bs) bs))"
    by (simp_all add: running_state_def sample_state_def)
  have n: "null_of ?s = spot 0" by (simp add: running_state_def)
  have "istack_rep ?s [spot 4] xs"
    by (rule filled_stack_rep [OF h(3), of _ "at_spot 4" _ 0]) (simp_all add: istack_kind_def n assms(2))
  with e h n assms show ?thesis
    unfolding int_frame_def
    by (auto simp: thread_at_def code_at_def frame_at_def zero_thread_def zero_call_frame_def
        pvm_is_null_addr null_addr_def intro!: exI [of _ "[spot 4]"])
qed

lemma program_state_frame:
  "length bs + 8 < 2 ^ 32 \<Longrightarrow> int_frame (program_state bs) (spot 2) True bs 0 []"
  unfolding program_state_def by (rule running_state_frame) simp_all

section \<open>Properties\<close>

text \<open>
  C12. The interpreter implements the integer stack machine. Let a thread be about to execute
  integer code (constants, arithmetic, logic, comparisons, stack and local-variable access,
  jumps), and let the abstract machine, started with the same code, position and stack,
  take one step. Then one iteration of \<^verbatim>\<open>pvm_exec\<close>, unless memory for a new stack page runs
  out, succeeds, leaves no prefix pending, and leaves the thread in the position and with
  the stack of the abstract machine.
\<close>

theorem exec_step_refines:
  assumes "int_frame s da outer bs ip xs" "ob_data th = da" "int_step bs (ip, xs) = Some (ip', ys)"
  shows "yields (exec_step X exec th no_prefix) s
    (\<lambda>r s'. r = (False, no_prefix) \<and> int_frame s' da outer bs ip' ys)"
  by (rule int_step_simulated [OF assms])

text \<open>The code pushes 1 and 5, adds them and returns; the machine has no windows and no system calls.\<close>

definition no_ext :: vm_ext where
  "no_ext = \<lparr>x_ui_init = (\<lambda>_ _. ret ()), x_syscalls = (\<lambda>_ _. None), x_behind = (\<lambda>_ _. null_ref)\<rparr>"

definition sum_code :: "u8 list" where
  "sum_code = [opcode_iconst_1, opcode_iconst_8bit, 5, opcode_isum, opcode_ret]"

theorem exec_step_refines_witness:
  "yields (exec_step no_ext (\<lambda>_. raise Diverges) (at_spot 2) no_prefix) (program_state sum_code)
     (\<lambda>r s'. r = (False, no_prefix) \<and> int_frame s' (spot 2) True sum_code 1 [1])"
  using exec_step_refines [OF program_state_frame, of sum_code "at_spot 2" 1 "[1]"]
  by (simp add: sum_code_def int_step_def push_const_def opcode_defs)

text \<open>
  C13. Integer code that runs to a \<^verbatim>\<open>ret\<close> in the outermost frame ends the loop of \<^verbatim>\<open>pvm_exec\<close>:
  if the abstract machine reaches the return instruction in \<open>n\<close> steps, then within \<open>n + 1\<close> iterations
  (any larger number allowed) the interpreter's loop has returned, with the
  stack the abstract machine computed, or it has panicked because there was no memory
  for a page of the integer stack.
\<close>

theorem exec_loop_returns:
  assumes f: "int_frame s da True bs ip xs" and th: "ob_data th = da"
    and run: "int_run n bs (ip, xs) = Some (ip', ys)" and r: "ip' < length bs" "bs ! ip' = opcode_ret"
    and m: "n < m"
  shows "exec_loop m X th no_prefix s = Inl (Panic ''out of persistent mem'') \<or>
    (\<exists>s'. exec_loop m X th no_prefix s = Inr ((), s') \<and> int_frame s' da True bs (ip' + 1) ys)"
  using run_returns [OF assms, of X] by (simp add: yields_def out_of_mem_def)

theorem exec_loop_returns_witness:
  "exec_loop 4 no_ext (at_spot 2) no_prefix (program_state sum_code) = Inl (Panic ''out of persistent mem'') \<or>
   (\<exists>s'. exec_loop 4 no_ext (at_spot 2) no_prefix (program_state sum_code) = Inr ((), s') \<and>
      int_frame s' (spot 2) True sum_code 5 [6])"
proof -
  have "int_run 3 sum_code (0, []) = Some (4, [6])"
    by (simp add: sum_code_def int_step_def push_const_def stack_instr_def jump_instr_def arith_instr_def
        int_binops_def opcode_defs numeral_3_eq_3)
  from exec_loop_returns [OF program_state_frame _ this, of "at_spot 2" 4] show ?thesis
    by (simp add: sum_code_def)
qed

end
