(* ===== verification/Compile_Correct.thy ===== *)
theory Compile_Correct
  imports Compile_Items Int_Machine
begin

text \<open>
  The compiler and the virtual machine together. \<open>ieval\<close> and \<open>exec_stmt\<close> give the meaning of
  the integer part of the language over the values of the integer variables; the code that
  the compiler writes, after relocation, makes the interpreter compute the same values.
  The operators whose code does something else are listed and shown.
\<close>

section \<open>The meaning of the source\<close>

text \<open>
  The operators. The four that are missing, remainder, exclusive or and the shifts, are
  those whose code computes something else; they have theorems of their own below.
\<close>

fun source_op :: "binop \<Rightarrow> i32 \<Rightarrow> i32 \<Rightarrow> i32 option" where
  "source_op OpPlus a b = Some (a + b)"
| "source_op OpMinus a b = Some (a - b)"
| "source_op OpMultiply a b = Some (a * b)"
| "source_op OpDivide a b =
    (if b = 0 \<or> sint a sdiv sint b \<ge> 2 ^ 31 then None else Some (word_of_int (sint a sdiv sint b)))"
| "source_op OpAnd a b = Some (a AND b)"
| "source_op OpOr a b = Some (a OR b)"
| "source_op BoolAnd a b = Some (of_bool (a \<noteq> 0 \<and> b \<noteq> 0))"
| "source_op BoolOr a b = Some (of_bool (a \<noteq> 0 \<or> b \<noteq> 0))"
| "source_op ValGe a b = Some (of_bool (sint a \<ge> sint b))"
| "source_op ValGt a b = Some (of_bool (sint a > sint b))"
| "source_op ValLe a b = Some (of_bool (sint a \<le> sint b))"
| "source_op ValLt a b = Some (of_bool (sint a < sint b))"
| "source_op _ a b = None"

text \<open>What the machine computes for the instruction that the compiler chooses.\<close>

definition machine_op :: "binop \<Rightarrow> i32 \<Rightarrow> i32 \<Rightarrow> i32 option" where
  "machine_op b l r = (case map_of int_binops (binop_code b) of Some f \<Rightarrow> f r l | None \<Rightarrow> None)"

text \<open>
  Expressions; an assignment is an expression, so the variables are passed through.
  The value of \<^verbatim>\<open>!=\<close> is the difference, which is zero exactly when the operands are equal.
\<close>

fun ieval :: "(binop \<Rightarrow> i32 \<Rightarrow> i32 \<Rightarrow> i32 option) \<Rightarrow> gen_env \<Rightarrow> node \<Rightarrow> i32 list \<Rightarrow> (i32 \<times> i32 list) option" where
  "ieval bop E (IntConstNode v) vs = Some (v, vs)"
| "ieval bop E (IdentNode x) vs = (case int_var E x of
       Some i \<Rightarrow> if i < length vs then Some (vs ! i, vs) else None | None \<Rightarrow> None)"
| "ieval bop E (BinNode b l r) vs = (case ieval bop E l vs of None \<Rightarrow> None | Some (a, vs1) \<Rightarrow>
     (case ieval bop E r vs1 of None \<Rightarrow> None | Some (c, vs2) \<Rightarrow> map_option (\<lambda>v. (v, vs2)) (bop b a c)))"
| "ieval bop E (ValEqNode l r) vs = (case ieval bop E l vs of None \<Rightarrow> None | Some (a, vs1) \<Rightarrow>
     (case ieval bop E r vs1 of None \<Rightarrow> None | Some (c, vs2) \<Rightarrow> Some (of_bool (a = c), vs2)))"
| "ieval bop E (ValNeqNode l r) vs = (case ieval bop E l vs of None \<Rightarrow> None | Some (a, vs1) \<Rightarrow>
     (case ieval bop E r vs1 of None \<Rightarrow> None | Some (c, vs2) \<Rightarrow> Some (a - c, vs2)))"
| "ieval bop E (OpNotNode l) vs = map_option (\<lambda>(a, vs1). (NOT a, vs1)) (ieval bop E l vs)"
| "ieval bop E (BoolNotNode l) vs = map_option (\<lambda>(a, vs1). (of_bool (a = 0), vs1)) (ieval bop E l vs)"
| "ieval bop E (OpAssignNode l r) vs = (case l of
       IdentNode x \<Rightarrow> (case (int_var E x, ieval bop E r vs) of
           (Some i, Some (a, vs1)) \<Rightarrow> if i < length vs1 then Some (a, vs1[i := a]) else None
         | _ \<Rightarrow> None)
     | _ \<Rightarrow> None)"
| "ieval bop E n vs = None"

datatype outcome = Normal | Broken | Continued | Returned

text \<open>
  Statements, with the number of loop iterations bounded by the fuel. \<^verbatim>\<open>continue\<close> repeats the
  whole loop statement, with the part before the condition.
\<close>

function exec_stmt :: "(binop \<Rightarrow> i32 \<Rightarrow> i32 \<Rightarrow> i32 option) \<Rightarrow> gen_env \<Rightarrow> nat \<Rightarrow> node \<Rightarrow> i32 list \<Rightarrow>
    (outcome \<times> i32 list) option" where
  "exec_stmt bop E k nd vs = (case nd of
       NoNode \<Rightarrow> Some (Normal, vs)
     | EmptyNode \<Rightarrow> Some (Normal, vs)
     | VoidNode e \<Rightarrow> map_option (\<lambda>(_, vs1). (Normal, vs1)) (ieval bop E e vs)
     | SequenceNode a b \<Rightarrow> (case exec_stmt bop E k a vs of
           Some (Normal, vs1) \<Rightarrow> exec_stmt bop E k b vs1 | r \<Rightarrow> r)
     | IfNode e m r \<Rightarrow> (case ieval bop E e vs of
           None \<Rightarrow> None
         | Some (c, vs1) \<Rightarrow> if c \<noteq> 0 then exec_stmt bop E k m vs1 else exec_stmt bop E k r vs1)
     | DoWhileNode l e r \<Rightarrow> (case k of 0 \<Rightarrow> None | Suc j \<Rightarrow>
          (case exec_stmt bop E j l vs of
             None \<Rightarrow> None
           | Some (Broken, vs1) \<Rightarrow> Some (Normal, vs1)
           | Some (Returned, vs1) \<Rightarrow> Some (Returned, vs1)
           | Some (Continued, vs1) \<Rightarrow> exec_stmt bop E j nd vs1
           | Some (Normal, vs1) \<Rightarrow> (case ieval bop E e vs1 of
               None \<Rightarrow> None
             | Some (c, vs2) \<Rightarrow>
                 if c = 0 then Some (Normal, vs2)
                 else (case exec_stmt bop E j r vs2 of
                     None \<Rightarrow> None
                   | Some (Broken, vs3) \<Rightarrow> Some (Normal, vs3)
                   | Some (Returned, vs3) \<Rightarrow> Some (Returned, vs3)
                   | Some (_, vs3) \<Rightarrow> exec_stmt bop E j nd vs3))))
     | BreakNode \<Rightarrow> Some (Broken, vs)
     | ContinueNode \<Rightarrow> Some (Continued, vs)
     | ReturnNode l \<Rightarrow> if l = NoNode then Some (Returned, vs) else None
     | _ \<Rightarrow> None)"
  by pat_completeness auto
termination
  by (relation "measures [\<lambda>(bop, E, k, nd, vs). k, \<lambda>(bop, E, k, nd, vs). size nd]") auto

declare exec_stmt.simps [simp del]

lemma source_op_machine: "source_op b l r = Some v \<Longrightarrow> machine_op b l r = Some v"
  by (cases b) (auto simp: machine_op_def int_binops_def opcode_defs div_opt_def split: if_splits)


section \<open>Placed code\<close>

text \<open>The items lie in the code at \<open>p\<close>, with every label of theirs where \<open>lab\<close> says.\<close>

definition placed :: "(label \<Rightarrow> nat) \<Rightarrow> u8 list \<Rightarrow> nat \<Rightarrow> item list \<Rightarrow> bool" where
  "placed lab bs p its \<longleftrightarrow> p + items_size its \<le> length bs \<and>
     take (items_size its) (drop p bs) = linked lab p its \<and> (\<forall>(l, a) \<in> set (marks p its). lab l = a)"

lemma placed_append [simp]:
  "placed lab bs p (xs @ ys) \<longleftrightarrow> placed lab bs p xs \<and> placed lab bs (p + items_size xs) ys"
proof -
  have "p + items_size xs \<le> length bs \<Longrightarrow>
    take (items_size xs + items_size ys) (drop p bs) = linked lab p xs @ linked lab (p + items_size xs) ys \<longleftrightarrow>
    take (items_size xs) (drop p bs) = linked lab p xs \<and>
    take (items_size ys) (drop (p + items_size xs) bs) = linked lab (p + items_size xs) ys"
    by (subst take_add, subst append_eq_append_conv) (simp_all add: add.commute)
  then show ?thesis by (auto simp: placed_def linked_append ball_Un)
qed

lemma placed_Nil [simp]: "placed lab bs p [] \<longleftrightarrow> p \<le> length bs"
  by (simp add: placed_def)

lemma placed_mark [simp]: "placed lab bs p [Mark l] \<longleftrightarrow> p \<le> length bs \<and> lab l = p"
  by (simp add: placed_def)

lemma placed_code: "placed lab bs p [Code cs] \<longleftrightarrow> p + length cs \<le> length bs \<and> take (length cs) (drop p bs) = cs"
  by (simp add: placed_def)

lemma placed_ref: "placed lab bs p [Ref l] \<longleftrightarrow> p + 4 \<le> length bs \<and> take 4 (drop p bs) = link_bytes (lab l) p"
  by (simp add: placed_def)

lemma placed_op:
  "placed lab bs p [Code (op # cs)] \<longleftrightarrow> p < length bs \<and> bs ! p = op \<and> placed lab bs (p + 1) [Code cs]"
  by (cases "p < length bs") (auto simp: placed_code take_Suc_conv_app_nth Cons_nth_drop_Suc [symmetric])

lemma placed_int_at:
  "placed lab bs p [Code (int32_bytes v)] \<Longrightarrow> p + 4 \<le> length bs \<and> int_at bs p = v"
  by (simp add: placed_code int_at_def)

section \<open>Runs of the integer machine\<close>

definition steps :: "u8 list \<Rightarrow> nat \<times> i32 list \<Rightarrow> nat \<times> i32 list \<Rightarrow> bool" where
  "steps bs st st' \<longleftrightarrow> (\<exists>k. int_run k bs st = Some st')"

lemma steps_refl [simp]: "steps bs st st"
  unfolding steps_def by (rule exI [of _ 0]) simp

lemma int_run_add: "int_run (j + k) bs st = Option.bind (int_run j bs st) (int_run k bs)"
  by (induction j arbitrary: st) (auto split: Option.bind_splits)

lemma steps_trans [trans]: "steps bs a b \<Longrightarrow> steps bs b c \<Longrightarrow> steps bs a c"
  unfolding steps_def by (metis int_run_add Option.bind.bind_lunit)

lemma steps_one: "int_step bs st = Some st' \<Longrightarrow> steps bs st st'"
  unfolding steps_def by (rule exI [of _ 1]) simp

lemma const_steps:
  assumes "placed lab bs p [Code (opcode_iconst_32bit # int32_bytes v)]"
  shows "steps bs (p, xs) (p + 5, xs @ [v])"
proof (rule steps_one)
  from assms have "p < length bs" "bs ! p = opcode_iconst_32bit" "p + 5 \<le> length bs" "int_at bs (p + 1) = v"
    by (auto simp: placed_op dest!: placed_int_at)
  then show "int_step bs (p, xs) = Some (p + 5, xs @ [v])"
    by (simp add: int_step_def push_const_def opcode_defs)
qed

lemma get_steps:
  assumes "placed lab bs p [Code (opcode_is_get32 # int32_bytes (word_of_nat i))]" "i < length xs" "i < 2 ^ 32"
  shows "steps bs (p, xs) (p + 5, xs @ [xs ! i])"
proof (rule steps_one)
  from assms(1) have "p < length bs" "bs ! p = opcode_is_get32" "p + 5 \<le> length bs" "int_at bs (p + 1) = word_of_nat i"
    by (auto simp: placed_op dest!: placed_int_at)
  with assms(2,3) show "int_step bs (p, xs) = Some (p + 5, xs @ [xs ! i])"
    by (auto simp: int_step_def push_const_def stack_instr_def opcode_defs unat_of_nat take_bit_eq_mod)
qed

lemma set_steps:
  assumes "placed lab bs p [Code (opcode_is_set32 # int32_bytes (word_of_nat i))]" "i < length xs" "i < 2 ^ 32"
  shows "steps bs (p, xs @ [v]) (p + 5, xs[i := v])"
proof (rule steps_one)
  from assms(1) have "p < length bs" "bs ! p = opcode_is_set32" "p + 5 \<le> length bs" "int_at bs (p + 1) = word_of_nat i"
    by (auto simp: placed_op dest!: placed_int_at)
  with assms(2,3) show "int_step bs (p, xs @ [v]) = Some (p + 5, xs[i := v])"
    by (auto simp: int_step_def push_const_def stack_instr_def opcode_defs unat_of_nat take_bit_eq_mod)
qed

lemma simple_steps:
  assumes "placed lab bs p [Code [op]]"
  shows "op = opcode_is_dup \<Longrightarrow> steps bs (p, xs @ [v]) (p + 1, xs @ [v, v])"
    "op = opcode_is_drop \<Longrightarrow> steps bs (p, xs @ [v]) (p + 1, xs)"
    "op = opcode_iconst_0 \<Longrightarrow> steps bs (p, xs) (p + 1, xs @ [0])"
    "op = opcode_inot \<Longrightarrow> steps bs (p, xs @ [v]) (p + 1, xs @ [NOT v])"
    "op = opcode_log_not \<Longrightarrow> steps bs (p, xs @ [v]) (p + 1, xs @ [of_bool (v = 0)])"
  using assms
  by (auto intro!: steps_one simp: placed_op int_step_def push_const_def stack_instr_def jump_instr_def
      arith_instr_def int_binops_def int_unops_def opcode_defs Let_def)

lemma binop_steps:
  assumes "placed lab bs p [Code [binop_code b]]" "machine_op b l r = Some v"
  shows "steps bs (p, xs @ [l, r]) (p + 1, xs @ [v])"
proof (rule steps_one)
  from assms(1) have p: "p < length bs" "bs ! p = binop_code b" by (auto simp: placed_op)
  obtain f where f: "map_of int_binops (binop_code b) = Some f" "f r l = Some v"
    using assms(2) by (auto simp: machine_op_def split: option.splits)
  have "push_const bs p ys = None" "stack_instr bs p ys = None" "jump_instr bs p ys = None" for ys
    using p(2) by (cases b; simp add: push_const_def stack_instr_def jump_instr_def opcode_defs Let_def)+
  with p f show "int_step bs (p, xs @ [l, r]) = Some (p + 1, xs @ [v])"
    by (simp add: int_step_def arith_instr_def butlast_append)
qed

text \<open>Jumps, which reach any label below $2^{32}$.\<close>

lemma jump_steps:
  assumes "placed lab bs p (jump_item op l)" "lab l < 2 ^ 32"
  shows "op = opcode_jmp \<Longrightarrow> steps bs (p, xs) (lab l, xs)"
    "op = opcode_jz \<Longrightarrow> steps bs (p, xs @ [v]) (if v = 0 then lab l else p + 5, xs)"
proof -
  have "placed lab bs p ([Code [op]] @ [Ref l])" using assms(1) by (simp add: jump_item_def)
  then have p: "p < length bs" "bs ! p = op" "p + 5 \<le> length bs"
      "take 4 (drop (p + 1) bs) = link_bytes (lab l) (p + 1)"
    unfolding placed_append by (auto simp: placed_op placed_ref)
  have "jump_target bs (p + 1) = lab l"
    using link_target [of 0 "lab l" "p + 1"] assms(2) p(4) by (simp add: jump_target_def int_at_def)
  with p show "op = opcode_jmp \<Longrightarrow> steps bs (p, xs) (lab l, xs)"
    "op = opcode_jz \<Longrightarrow> steps bs (p, xs @ [v]) (if v = 0 then lab l else p + 5, xs)"
    by (auto intro!: steps_one simp: int_step_def push_const_def stack_instr_def jump_instr_def opcode_defs Let_def)
qed


section \<open>Expressions\<close>

lemma ieval_Some:
  "ieval bop E (IdentNode x) vs = Some (v, vs') \<longleftrightarrow>
     (\<exists>i. int_var E x = Some i \<and> i < length vs \<and> v = vs ! i \<and> vs' = vs)"
  "ieval bop E (BinNode b l r) vs = Some (v, vs') \<longleftrightarrow>
     (\<exists>a vs1 c. ieval bop E l vs = Some (a, vs1) \<and> ieval bop E r vs1 = Some (c, vs') \<and> bop b a c = Some v)"
  "ieval bop E (ValEqNode l r) vs = Some (v, vs') \<longleftrightarrow>
     (\<exists>a vs1 c. ieval bop E l vs = Some (a, vs1) \<and> ieval bop E r vs1 = Some (c, vs') \<and> v = of_bool (a = c))"
  "ieval bop E (ValNeqNode l r) vs = Some (v, vs') \<longleftrightarrow>
     (\<exists>a vs1 c. ieval bop E l vs = Some (a, vs1) \<and> ieval bop E r vs1 = Some (c, vs') \<and> v = a - c)"
  "ieval bop E (OpNotNode l) vs = Some (v, vs') \<longleftrightarrow> (\<exists>a. ieval bop E l vs = Some (a, vs') \<and> v = NOT a)"
  "ieval bop E (BoolNotNode l) vs = Some (v, vs') \<longleftrightarrow> (\<exists>a. ieval bop E l vs = Some (a, vs') \<and> v = of_bool (a = 0))"
  by (auto split: option.splits)

lemma ieval_assign:
  "ieval bop E (OpAssignNode l r) vs = Some (v, vs') \<longleftrightarrow>
     (\<exists>x i vs1. l = IdentNode x \<and> int_var E x = Some i \<and> ieval bop E r vs = Some (v, vs1) \<and> i < length vs1 \<and> vs' = vs1[i := v])"
  by (cases l) (auto split: option.splits)

lemmas ieval_cases = ieval_Some ieval_assign

lemma ieval_length: "ieval bop E e vs = Some (v, vs') \<Longrightarrow> length vs' = length vs"
proof (induction e arbitrary: vs v vs')
  case (BinNode b l r)
  then show ?case unfolding ieval_cases by metis
next
  case (ValEqNode l r)
  then show ?case unfolding ieval_cases by metis
next
  case (ValNeqNode l r)
  then show ?case unfolding ieval_cases by metis
next
  case (OpAssignNode l r)
  then show ?case unfolding ieval_cases by (metis length_list_update)
qed (auto simp: ieval_Some simp del: ieval.simps(2-8))

lemma ieval_mono: "ieval source_op E e vs = Some (v, vs') \<Longrightarrow> ieval machine_op E e vs = Some (v, vs')"
proof (induction e arbitrary: vs v vs')
  case (BinNode b l r)
  then show ?case unfolding ieval_cases using source_op_machine by metis
next
  case (ValEqNode l r)
  then show ?case unfolding ieval_cases by metis
next
  case (ValNeqNode l r)
  then show ?case unfolding ieval_cases by metis
next
  case (OpAssignNode l r)
  then show ?case unfolding ieval_cases by metis
qed (auto simp: ieval_Some simp del: ieval.simps(2-8))

definition runs_expr :: "(label \<Rightarrow> nat) \<Rightarrow> u8 list \<Rightarrow> gen_env \<Rightarrow> node \<Rightarrow> bool" where
  "runs_expr lab bs E e \<longleftrightarrow> (\<forall>p vs v vs' ys. placed lab bs p (expr_items E e) \<longrightarrow>
     ieval machine_op E e vs = Some (v, vs') \<longrightarrow>
     steps bs (p, vs @ ys) (p + items_size (expr_items E e), vs' @ ys @ [v]))"

lemma runs_exprD:
  "runs_expr lab bs E e \<Longrightarrow> placed lab bs p (expr_items E e) \<Longrightarrow> ieval machine_op E e vs = Some (v, vs') \<Longrightarrow>
   steps bs (p, vs @ ys) (p + items_size (expr_items E e), vs' @ ys @ [v])"
  by (simp add: runs_expr_def)

text \<open>The code of two operands, one after the other.\<close>

lemma operands_steps:
  assumes "runs_expr lab bs E l" "runs_expr lab bs E r" "placed lab bs p (expr_items E l @ expr_items E r)"
    "ieval machine_op E l vs = Some (a, vs1)" "ieval machine_op E r vs1 = Some (c, vs2)"
  shows "steps bs (p, vs @ ys) (p + items_size (expr_items E l) + items_size (expr_items E r), (vs2 @ ys) @ [a, c])"
proof -
  have "placed lab bs p (expr_items E l)" "placed lab bs (p + items_size (expr_items E l)) (expr_items E r)"
    using assms(3) by simp_all
  with steps_trans [OF runs_exprD [OF assms(1) _ assms(4), of p ys] runs_exprD [OF assms(2) _ assms(5), of _ "ys @ [a]", simplified]]
  show ?thesis by simp
qed

lemma machine_minus: "machine_op OpMinus a c = Some (a - c)"
  by (rule source_op_machine) simp

lemma runs_exprI:
  assumes "\<And>p vs v vs' ys. placed lab bs p (expr_items E e) \<Longrightarrow> ieval machine_op E e vs = Some (v, vs') \<Longrightarrow>
    steps bs (p, vs @ ys) (p + items_size (expr_items E e), (vs' @ ys) @ [v])"
  shows "runs_expr lab bs E e"
  using assms unfolding runs_expr_def append_assoc by blast

lemma runs_binary:
  assumes lr: "runs_expr lab bs E l" "runs_expr lab bs E r"
    and its: "expr_items E e = expr_items E l @ expr_items E r @ ops"
    and ev: "\<And>vs v vs'. ieval machine_op E e vs = Some (v, vs') \<Longrightarrow>
      \<exists>a vs1 c. ieval machine_op E l vs = Some (a, vs1) \<and> ieval machine_op E r vs1 = Some (c, vs') \<and> Q a c v"
    and op: "\<And>p xs a c v. placed lab bs p ops \<Longrightarrow> Q a c v \<Longrightarrow> steps bs (p, xs @ [a, c]) (p + items_size ops, xs @ [v])"
  shows "runs_expr lab bs E e"
proof (rule runs_exprI)
  fix p vs v vs' ys
  assume p: "placed lab bs p (expr_items E e)" and e: "ieval machine_op E e vs = Some (v, vs')"
  let ?q = "p + items_size (expr_items E l) + items_size (expr_items E r)"
  from ev [OF e] obtain a vs1 c where 1: "ieval machine_op E l vs = Some (a, vs1)" "ieval machine_op E r vs1 = Some (c, vs')"
      "Q a c v" by blast
  from p have "placed lab bs p (expr_items E l @ expr_items E r)" "placed lab bs ?q ops" by (simp_all add: its)
  from steps_trans [OF operands_steps [OF lr this(1) 1(1,2), of ys] op [OF this(2) 1(3)]]
  show "steps bs (p, vs @ ys) (p + items_size (expr_items E e), (vs' @ ys) @ [v])"
    by (simp add: its add.assoc)
qed

lemma runs_unary:
  assumes l: "runs_expr lab bs E l" and its: "expr_items E e = expr_items E l @ ops"
    and ev: "\<And>vs v vs'. ieval machine_op E e vs = Some (v, vs') \<Longrightarrow>
      \<exists>a vs1. ieval machine_op E l vs = Some (a, vs1) \<and> Q a vs1 v vs'"
    and op: "\<And>p vs ys a v vs'. placed lab bs p ops \<Longrightarrow> Q a vs v vs' \<Longrightarrow>
      steps bs (p, (vs @ ys) @ [a]) (p + items_size ops, (vs' @ ys) @ [v])"
  shows "runs_expr lab bs E e"
proof (rule runs_exprI)
  fix p vs v vs' ys
  assume p: "placed lab bs p (expr_items E e)" and e: "ieval machine_op E e vs = Some (v, vs')"
  from ev [OF e] obtain a vs1 where 1: "ieval machine_op E l vs = Some (a, vs1)" "Q a vs1 v vs'" by blast
  from p have "placed lab bs p (expr_items E l)" "placed lab bs (p + items_size (expr_items E l)) ops"
    by (simp_all add: its)
  from steps_trans [OF runs_exprD [OF l this(1) 1(1), of ys, folded append_assoc] op [OF this(2) 1(2)]]
  show "steps bs (p, vs @ ys) (p + items_size (expr_items E e), (vs' @ ys) @ [v])"
    by (simp add: its add.assoc)
qed

lemma eq_steps:
  assumes "placed lab bs p ([Code [binop_code OpMinus]] @ [Code [opcode_log_not]])"
  shows "steps bs (p, xs @ [a, c]) (p + 2, xs @ [of_bool (a = c)])"
proof -
  have "placed lab bs p [Code [binop_code OpMinus]]" "placed lab bs (p + 1) [Code [opcode_log_not]]"
    using assms unfolding placed_append by simp_all
  from steps_trans [OF binop_steps [OF this(1) machine_minus] simple_steps(5) [OF this(2) refl]]
  show ?thesis by simp
qed

lemma assign_steps:
  assumes "placed lab bs p ([Code [opcode_is_dup]] @ [Code (opcode_is_set32 # int32_bytes (word_of_nat i))])"
    "i < length vs" "i < 2 ^ 32"
  shows "steps bs (p, (vs @ ys) @ [a]) (p + 6, (vs[i := a] @ ys) @ [a])"
proof -
  have p: "placed lab bs p [Code [opcode_is_dup]]" "placed lab bs (p + 1) [Code (opcode_is_set32 # int32_bytes (word_of_nat i))]"
    using assms(1) unfolding placed_append by simp_all
  have "steps bs (p, (vs @ ys) @ [a]) (p + 1, ((vs @ ys) @ [a]) @ [a])"
    using simple_steps(1) [OF p(1) refl, of "vs @ ys" a] by simp
  also have "steps bs (p + 1, ((vs @ ys) @ [a]) @ [a]) (p + 1 + 5, ((vs @ ys) @ [a])[i := a])"
    by (rule set_steps [OF p(2)]) (use assms(2,3) in simp_all)
  also have "((vs @ ys) @ [a])[i := a] = (vs[i := a] @ ys) @ [a]" using assms(2) by (simp add: list_update_append)
  also have "p + 1 + 5 = p + 6" by simp
  finally show ?thesis .
qed

lemma unary_steps:
  "placed lab bs p [Code [opcode_inot]] \<Longrightarrow> v = NOT a \<and> vs = vs' \<Longrightarrow>
   steps bs (p, (vs @ ys) @ [a]) (p + items_size [Code [opcode_inot]], (vs' @ ys) @ [v])"
  "placed lab bs p [Code [opcode_log_not]] \<Longrightarrow> v = of_bool (a = 0) \<and> vs = vs' \<Longrightarrow>
   steps bs (p, (vs @ ys) @ [a]) (p + items_size [Code [opcode_log_not]], (vs' @ ys) @ [v])"
  using simple_steps(4,5) [of lab bs p _ "vs @ ys" a] by auto

lemma expr_runs: "runs_expr lab bs E e"
proof (induction e)
  case (IntConstNode w)
  show ?case
  proof (rule runs_exprI)
    fix p vs v vs' ys
    assume "placed lab bs p (expr_items E (IntConstNode w))" "ieval machine_op E (IntConstNode w) vs = Some (v, vs')"
    then show "steps bs (p, vs @ ys) (p + items_size (expr_items E (IntConstNode w)), (vs' @ ys) @ [v])"
      using const_steps [of lab bs p w "vs @ ys"] by simp
  qed
next
  case (IdentNode x)
  show ?case
  proof (rule runs_exprI)
    fix p vs v vs' ys
    assume a: "placed lab bs p (expr_items E (IdentNode x))" and "ieval machine_op E (IdentNode x) vs = Some (v, vs')"
    then obtain i where i: "int_var E x = Some i" "i < length vs" "v = vs ! i" "vs' = vs" unfolding ieval_Some by blast
    then have "i < 2 ^ 32" by (auto simp: int_var_Some)
    then show "steps bs (p, vs @ ys) (p + items_size (expr_items E (IdentNode x)), (vs' @ ys) @ [v])"
      using a i get_steps [of lab bs p i "vs @ ys"] by (simp add: nth_append)
  qed
next
  case (BinNode b l r)
  show ?case
    by (rule runs_binary [OF BinNode, where Q = "\<lambda>a c v. machine_op b a c = Some v"])
      (simp, simp only: ieval_Some, drule (1) binop_steps, simp)
next
  case (ValEqNode l r)
  show ?case
    by (rule runs_binary [OF ValEqNode, where Q = "\<lambda>a c v. v = of_bool (a = c)"])
      (simp, simp only: ieval_Some, use eq_steps in \<open>force\<close>)
next
  case (ValNeqNode l r)
  show ?case
    by (rule runs_binary [OF ValNeqNode, where Q = "\<lambda>a c v. v = a - c"])
      (simp, simp only: ieval_Some, use binop_steps [where b = OpMinus, OF _ machine_minus] in force)
next
  case (OpNotNode l)
  show ?case
    by (rule runs_unary [OF OpNotNode, where Q = "\<lambda>a vs1 v vs'. v = NOT a \<and> vs1 = vs'"])
      (simp, simp only: ieval_Some, blast, use unary_steps(1) in blast)
next
  case (BoolNotNode l)
  show ?case
    by (rule runs_unary [OF BoolNotNode, where Q = "\<lambda>a vs1 v vs'. v = of_bool (a = 0) \<and> vs1 = vs'"])
      (simp, simp only: ieval_Some, blast, use unary_steps(2) in blast)
next
  case (OpAssignNode l r)
  show ?case
  proof (cases "\<exists>x i. l = IdentNode x \<and> int_var E x = Some i")
    case True
    then obtain x i where l: "l = IdentNode x" "int_var E x = Some i" by blast
    then have i: "i < 2 ^ 32" by (auto simp: int_var_Some)
    show ?thesis
      by (rule runs_unary [OF OpAssignNode(2), where Q = "\<lambda>a vs1 v vs'. v = a \<and> i < length vs1 \<and> vs' = vs1[i := a]"])
        (simp add: l, unfold ieval_assign, use l in force, use assign_steps [OF _ _ i] in force)
  next
    case False
    then show ?thesis unfolding runs_expr_def ieval_assign by blast
  qed
qed (simp_all add: runs_expr_def)

section \<open>Statements\<close>

lemma exec_stmt_simple:
  "exec_stmt bop E k NoNode vs = Some (Normal, vs)" "exec_stmt bop E k EmptyNode vs = Some (Normal, vs)"
  "exec_stmt bop E k BreakNode vs = Some (Broken, vs)" "exec_stmt bop E k ContinueNode vs = Some (Continued, vs)"
  "exec_stmt bop E k (VoidNode e) vs = Some (oc, vs') \<longleftrightarrow> oc = Normal \<and> (\<exists>v. ieval bop E e vs = Some (v, vs'))"
  "exec_stmt bop E k (ReturnNode l) vs = Some (oc, vs') \<longleftrightarrow> l = NoNode \<and> oc = Returned \<and> vs' = vs"
  "exec_stmt bop E 0 (DoWhileNode l e r) vs = None"
  by (auto simp: exec_stmt.simps)

lemma exec_stmt_Sequence:
  "exec_stmt bop E k (SequenceNode a b) vs = Some (oc, vs') \<longleftrightarrow>
     (oc \<noteq> Normal \<and> exec_stmt bop E k a vs = Some (oc, vs')) \<or>
     (\<exists>vs1. exec_stmt bop E k a vs = Some (Normal, vs1) \<and> exec_stmt bop E k b vs1 = Some (oc, vs'))"
  by (subst exec_stmt.simps) (auto split: option.splits outcome.splits)

lemma exec_stmt_If:
  "exec_stmt bop E k (IfNode e m r) vs = Some (oc, vs') \<longleftrightarrow>
     (\<exists>c vs1. ieval bop E e vs = Some (c, vs1) \<and> exec_stmt bop E k (if c \<noteq> 0 then m else r) vs1 = Some (oc, vs'))"
  by (subst exec_stmt.simps) (auto split: option.splits)

text \<open>What a loop does after a part of its body.\<close>

definition loop_next :: "(binop \<Rightarrow> i32 \<Rightarrow> i32 \<Rightarrow> i32 option) \<Rightarrow> gen_env \<Rightarrow> nat \<Rightarrow> node \<Rightarrow> outcome \<Rightarrow> i32 list \<Rightarrow>
    outcome \<times> i32 list \<Rightarrow> bool" where
  "loop_next bop E j nd oc1 vs1 res \<longleftrightarrow> (case oc1 of
       Broken \<Rightarrow> res = (Normal, vs1) | Returned \<Rightarrow> res = (Returned, vs1) | _ \<Rightarrow> exec_stmt bop E j nd vs1 = Some res)"

lemma exec_stmt_While:
  "exec_stmt bop E (Suc j) (DoWhileNode l e r) vs = Some res \<longleftrightarrow>
     (\<exists>oc1 vs1. exec_stmt bop E j l vs = Some (oc1, vs1) \<and>
       (if oc1 \<noteq> Normal then loop_next bop E j (DoWhileNode l e r) oc1 vs1 res
        else (\<exists>c vs2. ieval bop E e vs1 = Some (c, vs2) \<and>
          (if c = 0 then res = (Normal, vs2)
           else \<exists>oc3 vs3. exec_stmt bop E j r vs2 = Some (oc3, vs3) \<and> loop_next bop E j (DoWhileNode l e r) oc3 vs3 res))))"
proof -
  note first = exec_stmt.simps [of bop E "Suc j"]
  show ?thesis
  proof (cases "exec_stmt bop E j l vs")
    case None
    then show ?thesis by (simp add: first)
  next
    case (Some x)
    then obtain oc1 vs1 where l: "exec_stmt bop E j l vs = Some (oc1, vs1)" by (cases x) auto
    show ?thesis
    proof (cases "oc1 = Normal")
      case False
      with l show ?thesis by (cases oc1) (auto simp: first loop_next_def)
    next
      case True
      note l = l [unfolded True]
      show ?thesis
      proof (cases "ieval bop E e vs1")
        case None
        with l show ?thesis by (simp add: first)
      next
        case (Some y)
        then obtain c vs2 where e: "ieval bop E e vs1 = Some (c, vs2)" by (cases y) auto
        show ?thesis
        proof (cases "c = 0 \<or> exec_stmt bop E j r vs2 = None")
          case True
          with l e show ?thesis by (auto simp: first)
        next
          case False
          then obtain oc3 vs3 where "c \<noteq> 0" "exec_stmt bop E j r vs2 = Some (oc3, vs3)" by auto
          with l e show ?thesis by (cases oc3) (auto simp: first loop_next_def)
        qed
      qed
    qed
  qed
qed

lemmas exec_stmt_cases = exec_stmt_simple exec_stmt_Sequence exec_stmt_If exec_stmt_While

text \<open>Where the machine is after a statement that lies before \<open>q\<close>.\<close>

definition ends_at :: "(label \<Rightarrow> nat) \<Rightarrow> u8 list \<Rightarrow> gen_state \<Rightarrow> nat \<Rightarrow> outcome \<Rightarrow> nat \<Rightarrow> bool" where
  "ends_at lab bs s q oc ip \<longleftrightarrow> (case oc of
       Normal \<Rightarrow> ip = q
     | Broken \<Rightarrow> ip = lab (gs_break s)
     | Continued \<Rightarrow> ip = lab (gs_continue s)
     | Returned \<Rightarrow> ip < length bs \<and> bs ! ip = opcode_ret)"

definition runs_stmt :: "(label \<Rightarrow> nat) \<Rightarrow> u8 list \<Rightarrow> gen_env \<Rightarrow> nat \<Rightarrow> node \<Rightarrow> bool" where
  "runs_stmt lab bs E k nd \<longleftrightarrow> (\<forall>s n p vs oc vs'. placed lab bs p (fst (stmt_items E s nd n)) \<longrightarrow>
     exec_stmt machine_op E k nd vs = Some (oc, vs') \<longrightarrow>
     (\<exists>ip. ends_at lab bs s (p + items_size (fst (stmt_items E s nd n))) oc ip \<and> steps bs (p, vs) (ip, vs')))"

lemma runs_stmtI:
  assumes "\<And>s n p vs oc vs'. placed lab bs p (fst (stmt_items E s nd n)) \<Longrightarrow>
    exec_stmt machine_op E k nd vs = Some (oc, vs') \<Longrightarrow>
    \<exists>ip. ends_at lab bs s (p + items_size (fst (stmt_items E s nd n))) oc ip \<and> steps bs (p, vs) (ip, vs')"
  shows "runs_stmt lab bs E k nd"
  using assms unfolding runs_stmt_def by blast

lemma runs_stmtD:
  assumes "runs_stmt lab bs E k nd" "placed lab bs p (fst (stmt_items E s nd n))"
    "exec_stmt machine_op E k nd vs = Some (oc, vs')"
  obtains ip where "ends_at lab bs s (p + items_size (fst (stmt_items E s nd n))) oc ip" "steps bs (p, vs) (ip, vs')"
  using assms unfolding runs_stmt_def by blast

lemma runs_Void: "runs_stmt lab bs E k (VoidNode e)"
proof (rule runs_stmtI)
  fix s n p vs oc vs'
  assume "placed lab bs p (fst (stmt_items E s (VoidNode e) n))"
    and x: "exec_stmt machine_op E k (VoidNode e) vs = Some (oc, vs')"
  then have p: "placed lab bs p (expr_items E e)" "placed lab bs (p + items_size (expr_items E e)) [Code [opcode_is_drop]]"
    by simp_all
  from x obtain v where v: "oc = Normal" "ieval machine_op E e vs = Some (v, vs')" by (auto simp: exec_stmt_simple)
  from steps_trans [OF runs_exprD [OF expr_runs p(1) v(2), of "[]", simplified] simple_steps(2) [OF p(2) refl]]
  show "\<exists>ip. ends_at lab bs s (p + items_size (fst (stmt_items E s (VoidNode e) n))) oc ip \<and> steps bs (p, vs) (ip, vs')"
    using v(1) by (auto simp: ends_at_def)
qed

lemma runs_Sequence:
  assumes "runs_stmt lab bs E k a" "runs_stmt lab bs E k b"
  shows "runs_stmt lab bs E k (SequenceNode a b)"
proof (rule runs_stmtI)
  fix s n p vs oc vs'
  define its1 where "its1 = fst (stmt_items E s a n)"
  define its2 where "its2 = fst (stmt_items E s b (snd (stmt_items E s a n)))"
  have its: "fst (stmt_items E s (SequenceNode a b) n) = its1 @ its2"
    by (simp add: its1_def its2_def split_def Let_def)
  assume "placed lab bs p (fst (stmt_items E s (SequenceNode a b) n))"
    and x: "exec_stmt machine_op E k (SequenceNode a b) vs = Some (oc, vs')"
  then have p: "placed lab bs p its1" "placed lab bs (p + items_size its1) its2" by (simp_all only: its placed_append)
  from x consider "oc \<noteq> Normal" "exec_stmt machine_op E k a vs = Some (oc, vs')" |
      vs1 where "exec_stmt machine_op E k a vs = Some (Normal, vs1)" "exec_stmt machine_op E k b vs1 = Some (oc, vs')"
    by (auto simp: exec_stmt_Sequence)
  then show "\<exists>ip. ends_at lab bs s (p + items_size (fst (stmt_items E s (SequenceNode a b) n))) oc ip \<and> steps bs (p, vs) (ip, vs')"
  proof cases
    case 1
    obtain ip where "ends_at lab bs s (p + items_size its1) oc ip" "steps bs (p, vs) (ip, vs')"
      unfolding its1_def by (rule runs_stmtD [OF assms(1) p(1) [unfolded its1_def] 1(2)])
    with 1(1) show ?thesis by (cases oc) (auto simp: ends_at_def)
  next
    case 2
    obtain ip1 where "ends_at lab bs s (p + items_size its1) Normal ip1" and 1: "steps bs (p, vs) (ip1, vs1)"
      unfolding its1_def by (rule runs_stmtD [OF assms(1) p(1) [unfolded its1_def] 2(1)])
    then have "ip1 = p + items_size its1" by (simp add: ends_at_def)
    moreover obtain ip where ip: "ends_at lab bs s (p + items_size its1 + items_size its2) oc ip"
        "steps bs (p + items_size its1, vs1) (ip, vs')"
      unfolding its2_def by (rule runs_stmtD [OF assms(2) p(2) [unfolded its2_def] 2(2)])
    ultimately have "steps bs (p, vs) (ip, vs')" using 1 steps_trans by blast
    with ip(1) show ?thesis unfolding its by (auto simp: add.assoc)
  qed
qed

lemma cond_steps:
  assumes "placed lab bs p (expr_items E e @ jump_item opcode_jz l)" "ieval machine_op E e vs = Some (c, vs')" "lab l < 2 ^ 32"
  shows "steps bs (p, vs) (if c = 0 then lab l else p + items_size (expr_items E e @ jump_item opcode_jz l), vs')"
proof -
  have p: "placed lab bs p (expr_items E e)" "placed lab bs (p + items_size (expr_items E e)) (jump_item opcode_jz l)"
    using assms(1) by simp_all
  from steps_trans [OF runs_exprD [OF expr_runs p(1) assms(2), of "[]", simplified]
        jump_steps(2) [OF p(2) assms(3) refl]]
  show ?thesis by (cases "c = 0") (simp_all add: add.assoc)
qed

lemma runs_If:
  assumes m: "runs_stmt lab bs E k m" and r: "runs_stmt lab bs E k r" and lab: "\<And>l. lab l < 2 ^ 32"
  shows "runs_stmt lab bs E k (IfNode e m r)"
proof (rule runs_stmtI)
  fix s n p vs oc vs'
  define no after where "no = label_name n" and "after = label_name (n + 1)"
  define n1 where "n1 = snd (stmt_items E s m (n + 2))"
  define xs ys where "xs = fst (stmt_items E s m (n + 2))" and "ys = fst (stmt_items E s r n1)"
  define test where "test = expr_items E e @ jump_item opcode_jz no"
  define J Y where "J = (if r \<noteq> NoNode then jump_item opcode_jmp after else [])"
    and "Y = (if r \<noteq> NoNode then ys @ [Mark after] else [])"
  let ?p1 = "p + items_size test"
  let ?p2 = "?p1 + items_size xs"
  let ?p3 = "?p2 + items_size J"
  let ?q = "?p3 + items_size Y"
  have its: "fst (stmt_items E s (IfNode e m r) n) = test @ xs @ J @ [Mark no] @ Y"
    by (simp add: no_def after_def xs_def ys_def test_def J_def Y_def n1_def split_def Let_def)
  assume "placed lab bs p (fst (stmt_items E s (IfNode e m r) n))"
    and x: "exec_stmt machine_op E k (IfNode e m r) vs = Some (oc, vs')"
  then have p: "placed lab bs p test" "placed lab bs ?p1 xs" "placed lab bs ?p2 J" "lab no = ?p3" "placed lab bs ?p3 Y"
    unfolding its placed_append by simp_all
  from x obtain c vs1 where c: "ieval machine_op E e vs = Some (c, vs1)"
      "exec_stmt machine_op E k (if c \<noteq> 0 then m else r) vs1 = Some (oc, vs')" by (auto simp: exec_stmt_If)
  have t: "steps bs (p, vs) (if c = 0 then ?p3 else ?p1, vs1)"
    using cond_steps [OF p(1) [unfolded test_def] c(1) lab, folded test_def] unfolding p(4) .
  have "\<exists>ip. ends_at lab bs s ?q oc ip \<and> steps bs (if c = 0 then ?p3 else ?p1, vs1) (ip, vs')"
  proof (cases "c = 0")
    case False
    with c(2) have "exec_stmt machine_op E k m vs1 = Some (oc, vs')" by simp
    then obtain ip where ip: "ends_at lab bs s ?p2 oc ip" "steps bs (?p1, vs1) (ip, vs')"
      unfolding xs_def by (rule runs_stmtD [OF m p(2) [unfolded xs_def]])
    have "steps bs (?p2, vs') (?q, vs')"
    proof (cases "r = NoNode")
      case False
      then have "lab after = ?q" using p(5) by (simp add: Y_def)
      then show ?thesis using jump_steps(1) [of lab bs ?p2 opcode_jmp after] p(3) lab [of after] False by (simp add: J_def)
    qed (simp add: J_def Y_def)
    from steps_trans [OF _ this] ip False show ?thesis
      by (cases oc) (auto simp: ends_at_def)
  next
    case True
    show ?thesis
    proof (cases "r = NoNode")
      case False
      with True c(2) p(5) obtain ip where "ends_at lab bs s (?p3 + items_size ys) oc ip" "steps bs (?p3, vs1) (ip, vs')"
        using runs_stmtD [OF r, of ?p3 s n1 vs1 oc vs'] by (auto simp: Y_def ys_def)
      with False True show ?thesis by (auto simp: Y_def)
    qed (use True c(2) in \<open>auto simp: exec_stmt_simple ends_at_def Y_def\<close>)
  qed
  with steps_trans [OF t] show "\<exists>ip. ends_at lab bs s (p + items_size (fst (stmt_items E s (IfNode e m r) n))) oc ip \<and> steps bs (p, vs) (ip, vs')"
    unfolding its by (auto simp: add.assoc)
qed

text \<open>A part of a loop has ended; the loop lies at \<open>p\<close> and ends at \<open>q\<close>.\<close>

lemma loop_next_steps:
  assumes "loop_next machine_op E j nd oc1 vs1 (oc, vs')" "ends_at lab bs s' q1 oc1 ip1" "steps bs (p, vs) (ip1, vs1)"
    and labels: "lab (gs_continue s') = p" "lab (gs_break s') = q"
    and again: "\<And>ws. exec_stmt machine_op E j nd ws = Some (oc, vs') \<Longrightarrow>
      \<exists>ip. ends_at lab bs s q oc ip \<and> steps bs (p, ws) (ip, vs')"
    and rewind: "oc1 = Normal \<Longrightarrow> steps bs (q1, vs1) (p, vs1)"
  shows "\<exists>ip. ends_at lab bs s q oc ip \<and> steps bs (p, vs) (ip, vs')"
proof (cases "oc1 = Broken \<or> oc1 = Returned")
  case True
  with assms(1-3) labels show ?thesis by (auto simp: loop_next_def ends_at_def)
next
  case False
  then have "steps bs (ip1, vs1) (p, vs1)"
    using assms(2) labels rewind by (cases oc1) (auto simp: ends_at_def)
  with assms(3) have "steps bs (p, vs) (p, vs1)" by (rule steps_trans)
  moreover have "exec_stmt machine_op E j nd vs1 = Some (oc, vs')"
    using False assms(1) by (cases oc1) (auto simp: loop_next_def)
  ultimately show ?thesis using again steps_trans by blast
qed

lemma runs_While:
  assumes l: "runs_stmt lab bs E j l" and r: "runs_stmt lab bs E j r"
    and again: "runs_stmt lab bs E j (DoWhileNode l e r)" and lab: "\<And>l. lab l < 2 ^ 32"
  shows "runs_stmt lab bs E (Suc j) (DoWhileNode l e r)"
proof (rule runs_stmtI)
  fix s n p vs oc vs'
  define cont brk where "cont = label_name n" and "brk = label_name (n + 1)"
  define s' where "s' = \<lparr>gs_continue = cont, gs_break = brk\<rparr>"
  define n1 where "n1 = snd (stmt_items E s' l (n + 2))"
  define xs ys where "xs = fst (stmt_items E s' l (n + 2))" and "ys = fst (stmt_items E s' r n1)"
  define test where "test = expr_items E e @ jump_item opcode_jz brk"
  let ?p1 = "p + items_size xs"
  let ?p2 = "?p1 + items_size test"
  let ?p3 = "?p2 + items_size ys"
  let ?its = "fst (stmt_items E s (DoWhileNode l e r) n)"
  let ?q = "p + items_size ?its"
  have its: "?its = [Mark cont] @ xs @ test @ ys @ jump_item opcode_jmp cont @ [Mark brk]"
    by (simp add: cont_def brk_def s'_def xs_def ys_def test_def n1_def split_def Let_def)
  assume pl: "placed lab bs p ?its" and x: "exec_stmt machine_op E (Suc j) (DoWhileNode l e r) vs = Some (oc, vs')"
  then have p: "lab (gs_continue s') = p" "lab (gs_break s') = ?q" "placed lab bs p xs" "placed lab bs ?p1 test"
      "placed lab bs ?p2 ys" "placed lab bs ?p3 (jump_item opcode_jmp cont)" "lab cont = p" "lab brk = ?q"
    unfolding its placed_append by (simp_all add: s'_def add.assoc)
  have again: "\<exists>ip. ends_at lab bs s ?q oc ip \<and> steps bs (p, ws) (ip, vs')"
    if "exec_stmt machine_op E j (DoWhileNode l e r) ws = Some (oc, vs')" for ws
    using again that pl unfolding runs_stmt_def by blast
  from x obtain oc1 vs1 where 1: "exec_stmt machine_op E j l vs = Some (oc1, vs1)"
    by (auto simp: exec_stmt_While)
  then obtain ip1 where ip1: "ends_at lab bs s' ?p1 oc1 ip1" "steps bs (p, vs) (ip1, vs1)"
    unfolding xs_def by (rule runs_stmtD [OF l p(3) [unfolded xs_def]])
  show "\<exists>ip. ends_at lab bs s ?q oc ip \<and> steps bs (p, vs) (ip, vs')"
  proof (cases "oc1 = Normal")
    case False
    with x 1 have "loop_next machine_op E j (DoWhileNode l e r) oc1 vs1 (oc, vs')" by (simp add: exec_stmt_While)
    from loop_next_steps [OF this ip1 p(1,2) again] False show ?thesis by blast
  next
    case True
    with x 1 obtain c vs2 where c: "ieval machine_op E e vs1 = Some (c, vs2)"
      "if c = 0 then (oc, vs') = (Normal, vs2)
       else \<exists>oc3 vs3. exec_stmt machine_op E j r vs2 = Some (oc3, vs3) \<and> loop_next machine_op E j (DoWhileNode l e r) oc3 vs3 (oc, vs')"
      by (auto simp: exec_stmt_While)
    have "ip1 = ?p1" using ip1(1) True by (simp add: ends_at_def)
    moreover have "steps bs (?p1, vs1) (if c = 0 then ?q else ?p2, vs2)"
      using cond_steps [OF p(4) [unfolded test_def] c(1) lab, folded test_def] unfolding p(8) .
    ultimately have t: "steps bs (p, vs) (if c = 0 then ?q else ?p2, vs2)"
      using steps_trans [OF ip1(2)] by blast
    show ?thesis
    proof (cases "c = 0")
      case True
      with t c show ?thesis by (auto simp: ends_at_def)
    next
      case False
      with c(2) obtain oc3 vs3 where 3: "exec_stmt machine_op E j r vs2 = Some (oc3, vs3)"
        "loop_next machine_op E j (DoWhileNode l e r) oc3 vs3 (oc, vs')" by auto
      obtain ip3 where ip3: "ends_at lab bs s' ?p3 oc3 ip3" "steps bs (?p2, vs2) (ip3, vs3)"
        using 3(1) unfolding ys_def by (rule runs_stmtD [OF r p(5) [unfolded ys_def]])
      have "steps bs (p, vs) (ip3, vs3)" using t False steps_trans [OF _ ip3(2)] by simp
      moreover have "steps bs (?p3, vs3) (p, vs3)" using jump_steps(1) [OF p(6) lab refl] unfolding p(7) .
      ultimately show ?thesis using loop_next_steps [OF 3(2) ip3(1) _ p(1,2) again] by blast
    qed
  qed
qed

lemma runs_simple:
  assumes "\<And>l. lab l < 2 ^ 32"
  shows "runs_stmt lab bs E k NoNode" "runs_stmt lab bs E k EmptyNode" "runs_stmt lab bs E k BreakNode"
    "runs_stmt lab bs E k ContinueNode" "runs_stmt lab bs E k (ReturnNode l)"
proof -
  have "steps bs (p, vs) (p, vs)" for p vs by simp
  then show "runs_stmt lab bs E k (ReturnNode l)" by (auto simp: runs_stmt_def exec_stmt_simple ends_at_def placed_op)
qed (auto simp: runs_stmt_def exec_stmt_simple ends_at_def intro!: jump_steps(1) assms)

lemma stmt_runs:
  assumes lab: "\<And>l. lab l < 2 ^ 32"
  shows "runs_stmt lab bs E k nd"
proof (induction k arbitrary: nd)
  case 0
  show ?case
    by (induction nd) (auto simp: runs_Void runs_Sequence runs_If [OF _ _ lab] runs_simple [OF lab],
        auto simp: runs_stmt_def exec_stmt.simps)
next
  case (Suc k)
  have "runs_stmt lab bs E (Suc k) (DoWhileNode l e r)" for l e r
    using runs_While Suc lab by blast
  then show ?case
    by (induction nd) (auto simp: runs_Void runs_Sequence runs_If [OF _ _ lab] runs_simple [OF lab],
        auto simp: runs_stmt_def exec_stmt.simps)
qed

end
