(* ===== verification/Method_Correct.thy ===== *)
theory Method_Correct
  imports Compile_Correct
begin

text \<open>
  Whole methods: the prologue that checks the number of arguments, the integer variables, the
  body and the final return, from the syntax tree through code generation and relocation
  to the run of the interpreter. At the end, the operators whose code computes something
  else than the operator says.
\<close>

section \<open>From the meaning of the source to the machine's operators\<close>

lemma loop_next_mono:
  assumes "loop_next source_op E j nd oc1 vs1 res"
    and "\<And>vs res. exec_stmt source_op E j nd vs = Some res \<Longrightarrow> exec_stmt machine_op E j nd vs = Some res"
  shows "loop_next machine_op E j nd oc1 vs1 res"
  using assms by (cases oc1) (auto simp: loop_next_def)

lemma exec_stmt_mono:
  "exec_stmt source_op E k nd vs = Some res \<Longrightarrow> exec_stmt machine_op E k nd vs = Some res"
proof (induction k arbitrary: nd vs res)
  case 0
  then show ?case
  proof (induction nd arbitrary: vs res)
    case (SequenceNode a b)
    then show ?case by (cases res) (auto simp: exec_stmt_Sequence)
  next
    case (IfNode e m r)
    then show ?case by (cases res) (auto simp: exec_stmt_If dest!: ieval_mono split: if_splits)
  next
    case (VoidNode e)
    then show ?case by (cases res) (auto simp: exec_stmt_simple dest!: ieval_mono)
  qed (simp_all add: exec_stmt.simps)
next
  case (Suc k)
  show ?case using Suc.prems
  proof (induction nd arbitrary: vs res)
    case (SequenceNode a b)
    then show ?case by (cases res) (auto simp: exec_stmt_Sequence)
  next
    case (IfNode e m r)
    then show ?case by (cases res) (auto simp: exec_stmt_If dest!: ieval_mono split: if_splits)
  next
    case (VoidNode e)
    then show ?case by (cases res) (auto simp: exec_stmt_simple dest!: ieval_mono)
  next
    case (DoWhileNode l e r)
    note next_ok = loop_next_mono [OF _ Suc.IH]
    from DoWhileNode.prems show ?case
      unfolding exec_stmt_While using Suc.IH ieval_mono next_ok by (smt (verit, best))
  qed (simp_all add: exec_stmt.simps)
qed

text \<open>A statement outside of every loop ends normally or returns.\<close>

lemma loop_next_outcome:
  assumes "loop_next bop E j nd oc1 vs1 (oc, vs')"
    and "\<And>vs. exec_stmt bop E j nd vs = Some (oc, vs') \<Longrightarrow> oc = Normal \<or> oc = Returned"
  shows "oc = Normal \<or> oc = Returned"
  using assms by (cases oc1) (auto simp: loop_next_def)

lemma while_outcome:
  "exec_stmt bop E k (DoWhileNode l e r) vs = Some (oc, vs') \<Longrightarrow> oc = Normal \<or> oc = Returned"
proof (induction k arbitrary: vs)
  case 0
  then show ?case by (simp add: exec_stmt_simple)
next
  case (Suc k)
  note step = loop_next_outcome [OF _ Suc.IH]
  from Suc.prems show ?case
    unfolding exec_stmt_While using step by (auto split: if_splits)
qed

lemma stmt_outcome:
  "exec_stmt bop E k nd vs = Some (oc, vs') \<Longrightarrow> int_stmt E False nd \<or> nd = NoNode \<Longrightarrow> oc = Normal \<or> oc = Returned"
proof (induction nd arbitrary: vs)
  case (SequenceNode a b)
  then show ?case by (auto simp: exec_stmt_Sequence)
next
  case (IfNode e m r)
  then show ?case by (auto simp: exec_stmt_If split: if_splits)
next
  case (DoWhileNode l e r)
  then show ?case using while_outcome by blast
qed (auto simp: exec_stmt_simple)

section \<open>The code of a method\<close>

definition arg_error :: "cmethod \<Rightarrow> string" where
  "arg_error m = ''arg count: '' @ cm_name m @ '' in '' @ cm_class m"

definition prologue_items :: "gen_env \<Rightarrow> cmethod \<Rightarrow> label \<Rightarrow> item list" where
  "prologue_items E m good =
     [Code (opcode_iconst_32bit # int32_bytes (word_of_nat (cm_n_args m)))] @ [Code [binop_code OpMinus]] @
     jump_item opcode_jz good @
     [Code (opcode_sconst_bin # string_bin_bytes (getBytes (arg_error m)))] @ [Code [opcode_throw]] @ [Mark good] @
     replicate (ps_used_slots (ge_isvars E)) (Code [opcode_iconst_0])"

definition method_items :: "gen_env \<Rightarrow> cmethod \<Rightarrow> nat \<Rightarrow> item list \<times> nat" where
  "method_items E m n =
     (let (xs, n') = stmt_items E \<lparr>gs_continue = None, gs_break = None\<rparr> (cm_code m) (n + 1)
      in (prologue_items E m (label_name n) @ xs @ [Code [opcode_ret]], n'))"

text \<open>Methods of the integer part: no object variables, and no debugging code.\<close>

definition int_method :: "gen_env \<Rightarrow> cmethod \<Rightarrow> bool" where
  "int_method E m \<longleftrightarrow> \<not> ge_debug E \<and> ps_used_slots (ge_svars E) = 0 \<and> int_stmt E False (cm_code m)"

lemma puts_string: "puts (emitString str) [Code (opcode_sconst_bin # string_bin_bytes (getBytes str))]"
proof -
  have "puts (put_string_bin v) [Code (string_bin_bytes v)]" for v
    using puts_join [OF puts_then [OF puts_bytes puts_bytes, simplified], of "int32_bytes (word_of_nat (length v))" v]
    by (simp add: put_string_bin_def put_int32_def string_bin_bytes_def)
  from puts_join [OF puts_then [OF puts_byte this, simplified]] show ?thesis
    by (simp add: emitString_def)
qed

lemma thenE_assoc: "thenE (thenE m n) k = thenE m (thenE n k)"
  by (rule ext) (simp add: thenE_apply split: sum.split)

lemma puts_zeros: "puts (iterE (\<lambda>_. emitIConst_0) (replicate k ())) (replicate k (Code [opcode_iconst_0]))"
proof (induction k)
  case (Suc k)
  then show ?case using puts_then [OF puts_byte Suc] by (simp add: emitIConst_0_def)
qed (simp add: puts_nothing)

lemma generates_method:
  assumes "int_method E m"
  shows "generates (generate_method E m) (method_items E m)"
proof -
  let ?s = "\<lparr>gs_continue = None, gs_break = None\<rparr>"
  define pro where "pro good = thenE (emitIConst_32bit (word_of_nat (cm_n_args m))) (thenE emitISubLU (thenE (emitJz good)
    (thenE (emitString (arg_error m)) (thenE emitThrow (thenE (markLabel good)
    (iterE (\<lambda>_. emitIConst_0) (replicate (ps_used_slots (ge_isvars E)) ())))))))" for good
  have pro: "puts (pro good) (prologue_items E m good)" for good
    unfolding pro_def prologue_items_def emitIConst_32bit_def emitISubLU_def emitThrow_def emitJz_def binop_code.simps
    by (intro puts_then puts_op32 puts_byte puts_jump puts_string puts_mark puts_zeros)
  have b: "generates (generate_code E ?s (cm_code m)) (stmt_items E ?s (cm_code m))"
    using assms generates_stmt [of E False "cm_code m" ?s] by (simp add: int_method_def)
  have "generates (thenE (pro good) (thenE (generate_code E ?s (cm_code m)) emitRet))
      (\<lambda>n. let (xs, n') = stmt_items E ?s (cm_code m) n in (prologue_items E m good @ xs @ [Code [opcode_ret]], n'))" for good
    unfolding emitRet_def
    by (rule generates_eq [OF generates_then [OF pro generates_then [OF b puts_byte]]]) (simp add: split_def Let_def)
  from generates_label [OF this]
  have "generates (bindE getLabel (\<lambda>good. thenE (pro good) (thenE (generate_code E ?s (cm_code m)) emitRet))) (method_items E m)"
    by (simp add: method_items_def [abs_def])
  moreover have "generate_method E m = bindE getLabel (\<lambda>good. thenE (pro good) (thenE (generate_code E ?s (cm_code m)) emitRet))"
    using assms by (auto simp: generate_method_def int_method_def pro_def arg_error_def thenE_assoc)
  ultimately show ?thesis by simp
qed

section \<open>The linked code of a method\<close>

text \<open>The bytes of the method, linked for the file position \<open>p\<close>.\<close>

definition method_code :: "gen_env \<Rightarrow> cmethod \<Rightarrow> nat \<Rightarrow> nat \<Rightarrow> u8 list" where
  "method_code E m p n =
     (let its = fst (method_items E m n) in linked (\<lambda>l. the (map_of (marks p its) l)) p its)"

text \<open>Jump distances do not depend on where the code lies.\<close>

lemma linked_shift:
  "(\<And>l. l \<in> used_in its \<Longrightarrow> lab l = lab' l + d) \<Longrightarrow> linked lab (p + d) its = linked lab' p its"
proof (induction lab' p its rule: linked.induct)
  case (2 lab' p bs its)
  then show ?case by (simp add: ac_simps)
next
  case (3 lab' p l its)
  then show ?case by (simp add: link_bytes_def ac_simps)
qed simp_all

definition code_label :: "item list \<Rightarrow> label \<Rightarrow> nat" where
  "code_label its l = (case map_of (marks 0 its) l of Some a \<Rightarrow> a | None \<Rightarrow> 0)"

lemma code_label_bound: "code_label its l \<le> items_size its"
  using marks_bounds [of l _ 0 its] by (auto simp: code_label_def dest!: map_of_SomeD split: option.split)

lemma linked_code_label:
  assumes "used_in its \<subseteq> marked_in its"
  shows "linked (\<lambda>l. the (map_of (marks p its) l)) p its = linked (code_label its) 0 its"
proof -
  have "the (map_of (marks p its) l) = code_label its l + p" if "l \<in> used_in its" for l
  proof -
    from that assms have "l \<in> fst ` set (marks 0 its)" by (auto simp: marked_in_def)
    then obtain a where a: "map_of (marks 0 its) l = Some a" by (metis map_of_eq_None_iff not_None_eq)
    have "map_of (map (\<lambda>(l, a). (l, a + p)) (marks 0 its)) l = map_option (\<lambda>a. a + p) (map_of (marks 0 its) l)"
      by (induction "marks 0 its") (auto simp: map_of_map)
    then show ?thesis using marks_shift [of 0 p its] a by (simp add: code_label_def)
  qed
  then show ?thesis using linked_shift [of its _ "code_label its" p 0] by simp
qed

lemma linked_placed:
  assumes "marks_once its"
  shows "placed (code_label its) (linked (code_label its) 0 its) 0 its"
  using assms by (auto simp: placed_def code_label_def marks_once_def)

lemma method_labels:
  assumes "int_method E m" and its: "its = fst (method_items E m n)"
  shows "marks_once its" "used_in its \<subseteq> marked_in its"
proof -
  let ?s = "\<lparr>gs_continue = None, gs_break = None\<rparr>"
  obtain xs n' where x: "stmt_items E ?s (cm_code m) (n + 1) = (xs, n')" by fastforce
  have i: "its = prologue_items E m (label_name n) @ xs @ [Code [opcode_ret]]"
    using x by (simp add: its method_items_def)
  have z: "marked_in (replicate k (Code b)) = {}" "used_in (replicate k (Code b)) = {}" "marks_once (replicate k (Code b))" for k b
    by (induction k) simp_all
  have p: "marked_in (prologue_items E m l) = {l}" "used_in (prologue_items E m l) = {l}" "marks_once (prologue_items E m l)" for l
    by (simp_all add: prologue_items_def z)
  from stmt_marks [OF x] have "marks_once xs" "marked_in xs \<subseteq> label_name ` {n + 1..<n'}" by auto
  then show "marks_once its" by (auto simp: i p)
  show "used_in its \<subseteq> marked_in its"
    using stmt_uses [OF _ x, of False] assms(1) by (auto simp: i p int_method_def)
qed

lemma zeros_steps:
  "placed lab bs p (replicate k (Code [opcode_iconst_0])) \<Longrightarrow> steps bs (p, xs) (p + k, xs @ replicate k 0)"
proof (induction k arbitrary: p xs)
  case (Suc k)
  have "placed lab bs p ([Code [opcode_iconst_0]] @ replicate k (Code [opcode_iconst_0]))" using Suc.prems by simp
  then have p: "placed lab bs p [Code [opcode_iconst_0]]" "placed lab bs (p + 1) (replicate k (Code [opcode_iconst_0]))"
    unfolding placed_append by simp_all
  from steps_trans [OF simple_steps(3) [OF p(1) refl, of xs] Suc.IH [OF p(2), of "xs @ [0]"]] show ?case by simp
qed simp

lemma prologue_steps:
  assumes pl: "placed lab bs 0 (prologue_items E m good)" and lab: "\<And>l. lab l < 2 ^ 32"
  shows "steps bs (0, [word_of_nat (cm_n_args m)])
    (items_size (prologue_items E m good), replicate (ps_used_slots (ge_isvars E)) 0)"
proof -
  let ?n = "word_of_nat (cm_n_args m) :: i32"
  let ?u = "ps_used_slots (ge_isvars E)"
  let ?its = "[Code (opcode_iconst_32bit # int32_bytes ?n)] @ [Code [binop_code OpMinus]] @ jump_item opcode_jz good @
     [Code (opcode_sconst_bin # string_bin_bytes (getBytes (arg_error m)))] @ [Code [opcode_throw]]"
  have z: "items_size (replicate k (Code [b])) = k" for k b by (induction k) simp_all
  have its: "prologue_items E m good = ?its @ [Mark good] @ replicate ?u (Code [opcode_iconst_0])"
    by (simp add: prologue_items_def)
  have p: "placed lab bs 0 [Code (opcode_iconst_32bit # int32_bytes ?n)]" "placed lab bs 5 [Code [binop_code OpMinus]]"
      "placed lab bs 6 (jump_item opcode_jz good)" "lab good = items_size ?its"
      "placed lab bs (items_size ?its) (replicate ?u (Code [opcode_iconst_0]))"
    using pl unfolding its placed_append by simp_all
  have "steps bs (0, [?n]) (5, [] @ [?n, ?n])" using const_steps [OF p(1), of "[?n]"] by simp
  also have "steps bs (5, [] @ [?n, ?n]) (6, [] @ [0])" using binop_steps [OF p(2) machine_minus, of "[]" ?n ?n] by simp
  also have "steps bs (6, [] @ [0]) (lab good, [])" using jump_steps(2) [OF p(3) lab refl, of "[]" 0] by simp
  also have "steps bs (lab good, []) (items_size ?its + ?u, replicate ?u 0)"
    using zeros_steps [OF p(5), of "[]"] unfolding p(4) by simp
  also have "items_size ?its + ?u = items_size (prologue_items E m good)" by (simp add: its z)
  finally show ?thesis .
qed

lemma method_steps:
  assumes m: "int_method E m" and n: "items_size (fst (method_items E m n)) < 2 ^ 31"
    and x: "exec_stmt machine_op E k (cm_code m) (replicate (ps_used_slots (ge_isvars E)) 0) = Some (oc, vs)"
  shows "\<exists>ip. ip < length (method_code E m p n) \<and> method_code E m p n ! ip = opcode_ret \<and>
    steps (method_code E m p n) (0, [word_of_nat (cm_n_args m)]) (ip, vs)"
proof -
  let ?s = "\<lparr>gs_continue = None, gs_break = None\<rparr>"
  define its where "its = fst (method_items E m n)"
  define pro where "pro = prologue_items E m (label_name n)"
  define xs where "xs = fst (stmt_items E ?s (cm_code m) (n + 1))"
  define lab where "lab = code_label its"
  define bs where "bs = method_code E m p n"
  have i: "its = pro @ xs @ [Code [opcode_ret]]"
    by (simp add: its_def pro_def xs_def method_items_def split_def Let_def)
  have lab: "lab l < 2 ^ 32" for l using code_label_bound [of its l] n unfolding lab_def its_def by simp
  note ml = method_labels [OF m its_def]
  have "bs = linked lab 0 its" using linked_code_label [OF ml(2)] by (simp add: bs_def lab_def method_code_def its_def Let_def)
  with linked_placed [OF ml(1)] have "placed lab bs 0 its" by (simp add: lab_def)
  then have p: "placed lab bs 0 pro" "placed lab bs (items_size pro) xs"
      "placed lab bs (items_size pro + items_size xs) [Code [opcode_ret]]" by (simp_all add: i)
  obtain ip where ip: "ends_at lab bs ?s (items_size pro + items_size xs) oc ip"
      "steps bs (items_size pro, replicate (ps_used_slots (ge_isvars E)) 0) (ip, vs)"
    unfolding xs_def by (rule runs_stmtD [OF stmt_runs [OF lab] p(2) [unfolded xs_def] x])
  have "oc = Normal \<or> oc = Returned" using stmt_outcome [OF x] m by (simp add: int_method_def)
  then have "ip < length bs \<and> bs ! ip = opcode_ret" using ip(1) p(3) by (auto simp: ends_at_def placed_op)
  with steps_trans [OF prologue_steps [OF p(1) [unfolded pro_def] lab, folded pro_def] ip(2)]
  show ?thesis unfolding bs_def by blast
qed

lemma method_links:
  assumes c: "fresh_at p c" and m: "int_method E m" and its: "its = fst (method_items E m (cg_next_label c))"
    and n: "p + items_size its < 2 ^ 31" and names: "set names = marked_in its"
  shows "\<exists>c'. thenE (generate_method E m) (relocate_all names) c = Inr ((), c') \<and>
    rf_bytes (cg_os c') = rf_bytes (cg_os c) @ method_code E m p (cg_next_label c)"
proof -
  define c1 where "c1 = c\<lparr>cg_next_label := snd (method_items E m (cg_next_label c))\<rparr>"
  have c1: "fresh_at p c1" using c by (simp add: c1_def fresh_at_def)
  have "at_end c" using c by (simp add: fresh_at_def at_end_def)
  then have g: "generate_method E m c = Inr ((), written its c1)"
    using generates_method [OF m] by (simp add: generates_def its c1_def written_label_swap)
  obtain c' where "relocate_all names (written its c1) = Inr ((), c')"
    "rf_bytes (cg_os c') = rf_bytes (cg_os c1) @ linked (\<lambda>l. the (map_of (marks p its) l)) p its"
    by (rule relocate_all_links [OF c1 method_labels(1) [OF m its] n names method_labels(2) [OF m its]])
  with g show ?thesis by (simp add: thenE_apply c1_def method_code_def its Let_def)
qed

lemma method_runs:
  assumes m: "int_method E m" and n: "items_size (fst (method_items E m n)) < 2 ^ 31"
    and code: "code = method_code E m p n"
    and x: "exec_stmt machine_op E k (cm_code m) (replicate (ps_used_slots (ge_isvars E)) 0) = Some (oc, vs)"
    and f: "int_frame s da True code 0 [word_of_nat (cm_n_args m)]" and th: "ob_data th = da"
  shows "\<exists>i ip. \<forall>j. yields (exec_loop (i + j) X th no_prefix) s (\<lambda>_ s'. int_frame s' da True code ip vs)"
proof -
  from method_steps [OF m n x, of p] obtain ip where ip: "ip < length code" "code ! ip = opcode_ret"
      "steps code (0, [word_of_nat (cm_n_args m)]) (ip, vs)" unfolding code by blast
  from ip(3) obtain i where i: "int_run i code (0, [word_of_nat (cm_n_args m)]) = Some (ip, vs)"
    unfolding steps_def by blast
  have "yields (exec_loop (Suc i + j) X th no_prefix) s (\<lambda>_ s'. int_frame s' da True code (ip + 1) vs)" for j
    by (rule run_returns [OF f th i ip(1,2)]) simp
  then show ?thesis by blast
qed

section \<open>Properties\<close>

text \<open>
  C4. The compiler and the interpreter together run an integer method as its source says.
  Take a method without object variables (so without parameters) and without debugging code, whose statements are assignments to integer variables, sequences,
  conditionals and loops with break, continue and return, over the operators of
  \<open>source_op\<close>. \<^verbatim>\<open>Method.generate_code\<close> and \<^verbatim>\<open>Codegen.relocate_all\<close> succeed and append the code
  of the method to the file. When the interpreter is started on these bytes, in the
  outermost frame and with the number of arguments on the integer stack, and the source
  terminates, then \<^verbatim>\<open>pvm_exec\<close> returns, with the values that the source gives to the variables on the
  stack, unless memory for a stack page runs out. The source meaning of \<^verbatim>\<open>!=\<close> on integers is the
  difference of the operands, which a condition takes for true when it is not zero.
\<close>

theorem compiled_method_runs:
  assumes c: "fresh_at p c" and m: "int_method E m" and its: "its = fst (method_items E m (cg_next_label c))"
    and n: "p + items_size its < 2 ^ 31" and names: "set names = marked_in its"
    and code: "code = method_code E m p (cg_next_label c)"
    and x: "exec_stmt source_op E k (cm_code m) (replicate (ps_used_slots (ge_isvars E)) 0) = Some (oc, vs)"
    and f: "int_frame s da True code 0 [word_of_nat (cm_n_args m)]" and th: "ob_data th = da"
  shows "(\<exists>c'. thenE (generate_method E m) (relocate_all names) c = Inr ((), c') \<and>
      rf_bytes (cg_os c') = rf_bytes (cg_os c) @ code) \<and>
    (\<exists>i ip. \<forall>j. yields (exec_loop (i + j) X th no_prefix) s (\<lambda>_ s'. int_frame s' da True code ip vs))"
  using method_links [OF c m its n names] method_runs [OF m _ code exec_stmt_mono [OF x] f th] n
  unfolding its code by simp

text \<open>The method adds the numbers from \<open>x = 3\<close> down to 1 to \<open>y\<close>.\<close>

definition demo_env :: gen_env where
  "demo_env = \<lparr>ge_field = (\<lambda>_. None), ge_static = (\<lambda>_. None), ge_method = (\<lambda>_ _. None), ge_svars = empty_stack,
     ge_isvars = add_stack_var ''y'' T_int (add_stack_var ''x'' T_int empty_stack), ge_debug = False\<rparr>"

definition demo_method :: cmethod where
  "demo_method = \<lparr>cm_name = ''sum'', cm_class = ''demo'', cm_n_args = 0, cm_code =
     SequenceNode (VoidNode (OpAssignNode (IdentNode ''x'') (IntConstNode 3)))
    (DoWhileNode NoNode (IdentNode ''x'') (SequenceNode
      (VoidNode (OpAssignNode (IdentNode ''y'') (BinNode OpPlus (IdentNode ''y'') (IdentNode ''x''))))
      (VoidNode (OpAssignNode (IdentNode ''x'') (BinNode OpMinus (IdentNode ''x'') (IntConstNode 1))))))\<rparr>"

lemma demo_vars: "int_var demo_env ''x'' = Some 0" "int_var demo_env ''y'' = Some 1"
  "ps_used_slots (ge_isvars demo_env) = 2" "int_method demo_env demo_method"
  by (simp_all add: int_var_def demo_env_def demo_method_def int_method_def add_stack_var_def empty_stack_def get_var_def)

lemma demo_run: "exec_stmt source_op demo_env 5 (cm_code demo_method) [0, 0] = Some (Normal, [0, 6])"
  by (simp add: demo_method_def exec_stmt.simps demo_vars)

lemma demo_items: "marked_in (fst (method_items demo_env demo_method 0)) = {label_name 0, label_name 1, label_name 2}"
  "items_size (fst (method_items demo_env demo_method 0)) = 105"
  by (simp_all add: method_items_def prologue_items_def demo_method_def demo_vars string_bin_bytes_def arg_error_def
      getBytes_def numeral_2_eq_2 insert_commute Let_def)

theorem compiled_method_runs_witness:
  "(\<exists>c'. thenE (generate_method demo_env demo_method) (relocate_all [label_name 0, label_name 1, label_name 2]) new_codegen =
      Inr ((), c') \<and> rf_bytes (cg_os c') = rf_bytes (cg_os new_codegen) @ method_code demo_env demo_method 0 0) \<and>
   (\<exists>i ip. \<forall>j. yields (exec_loop (i + j) no_ext (at_spot 2) no_prefix)
      (running_state (method_code demo_env demo_method 0 0) [0])
      (\<lambda>_ s'. int_frame s' (spot 2) True (method_code demo_env demo_method 0 0) ip [0, 6]))"
proof -
  have "length (method_code demo_env demo_method 0 0) = 105" by (simp add: method_code_def demo_items Let_def)
  then have f: "int_frame (running_state (method_code demo_env demo_method 0 0) [0]) (spot 2) True
      (method_code demo_env demo_method 0 0) 0 [0]"
    by (intro running_state_frame) (simp_all add: PVM_INTEGER_STACK_SIZE_def)
  have r: "replicate 2 (0 :: i32) = [0, 0]" by (simp add: numeral_2_eq_2)
  have "cm_n_args demo_method = 0" by (simp add: demo_method_def)
  with f show ?thesis
    by (intro compiled_method_runs [OF _ demo_vars(4) refl, where k = 5 and oc = Normal])
      (simp_all add: fresh_at_def new_codegen_def demo_items demo_run demo_vars r)
qed

section \<open>Operators whose code computes something else\<close>

text \<open>The method \<open>x = l op r\<close>.\<close>

definition op_method :: "binop \<Rightarrow> i32 \<Rightarrow> i32 \<Rightarrow> cmethod" where
  "op_method b l r = \<lparr>cm_name = ''op'', cm_class = ''demo'', cm_n_args = 0,
     cm_code = VoidNode (OpAssignNode (IdentNode ''x'') (BinNode b (IntConstNode l) (IntConstNode r)))\<rparr>"

fun wrong_op :: "binop \<Rightarrow> i32 \<Rightarrow> i32 \<Rightarrow> i32" where
  "wrong_op OpXor l r = l OR r"
| "wrong_op OpShiftLeft l r = c_shl r l"
| "wrong_op OpShiftRight l r = c_shr r l"
| "wrong_op OpShiftRightUnsigned l r = c_ushr r l"
| "wrong_op _ l r = 0"

lemma machine_wrong:
  "b \<in> {OpXor, OpShiftLeft, OpShiftRight, OpShiftRightUnsigned} \<Longrightarrow> machine_op b l r = Some (wrong_op b l r)"
  unfolding machine_op_def int_binops_def
  by (elim insertE emptyE; simp add: opcode_defs)

lemma op_method_run:
  assumes "b \<in> {OpXor, OpShiftLeft, OpShiftRight, OpShiftRightUnsigned}"
  shows "exec_stmt machine_op demo_env k (cm_code (op_method b l r)) [0, 0] = Some (Normal, [wrong_op b l r, 0])"
  by (simp add: op_method_def exec_stmt_simple demo_vars machine_wrong [OF assms] del: wrong_op.simps)

lemma op_method_size: "items_size (fst (method_items demo_env (op_method b l r) 0)) = 59"
  by (simp add: method_items_def prologue_items_def op_method_def demo_vars string_bin_bytes_def arg_error_def
      getBytes_def numeral_2_eq_2 Let_def)

lemma op_method_int: "int_method demo_env (op_method b l r)"
  using demo_vars by (simp add: int_method_def op_method_def)

lemma op_method_links:
  "\<exists>c. thenE (generate_method demo_env (op_method b l r)) (relocate_all [label_name 0]) new_codegen = Inr ((), c) \<and>
     rf_bytes (cg_os c) = method_code demo_env (op_method b l r) 0 0"
proof -
  have "marked_in (fst (method_items demo_env (op_method b l r) 0)) = {label_name 0}"
    by (simp add: method_items_def prologue_items_def op_method_def demo_vars Let_def numeral_2_eq_2)
  then show ?thesis
    using method_links [OF _ op_method_int refl, of 0 new_codegen b l r "[label_name 0]"]
    by (simp add: fresh_at_def new_codegen_def op_method_size)
qed

text \<open>
  C26. Four operators of the Java front end are miscompiled. Take the bytes that \<^verbatim>\<open>Method.generate_code\<close> and
  \<^verbatim>\<open>Codegen.relocate_all\<close> write for a method that assigns \<open>l op r\<close> to a variable. The
  interpreter, run on them, leaves in the variable the bitwise or of the operands
  when the operator is exclusive or, and the right operand shifted by the left one when
  the operator is one of the three shifts, instead of the left one shifted by the right
  (unless memory for a stack page runs out).
\<close>

theorem operators_miscompiled:
  assumes b: "b \<in> {OpXor, OpShiftLeft, OpShiftRight, OpShiftRightUnsigned}"
    and gen: "thenE (generate_method demo_env (op_method b l r)) (relocate_all [label_name 0]) new_codegen = Inr ((), c)"
    and f: "int_frame s da True (rf_bytes (cg_os c)) 0 [0]" and th: "ob_data th = da"
  shows "\<exists>i ip. \<forall>j. yields (exec_loop (i + j) X th no_prefix) s
    (\<lambda>_ s'. int_frame s' da True (rf_bytes (cg_os c)) ip [wrong_op b l r, 0])"
proof (rule method_runs [OF op_method_int])
  show code: "rf_bytes (cg_os c) = method_code demo_env (op_method b l r) 0 0"
    using op_method_links [of b l r] gen by simp
  show "exec_stmt machine_op demo_env 0 (cm_code (op_method b l r)) (replicate (ps_used_slots (ge_isvars demo_env)) 0) =
      Some (Normal, [wrong_op b l r, 0])"
    using op_method_run [OF b] by (simp add: demo_vars numeral_2_eq_2)
  show "int_frame s da True (rf_bytes (cg_os c)) 0 [word_of_nat (cm_n_args (op_method b l r))]"
    using f by (simp add: op_method_def)
qed (simp_all add: op_method_size th)

theorem operators_miscompiled_witness:
  "\<exists>c. thenE (generate_method demo_env (op_method OpShiftLeft 1 3)) (relocate_all [label_name 0]) new_codegen = Inr ((), c) \<and>
   (\<exists>i ip. \<forall>j. yields (exec_loop (i + j) no_ext (at_spot 2) no_prefix) (running_state (rf_bytes (cg_os c)) [0])
     (\<lambda>_ s'. int_frame s' (spot 2) True (rf_bytes (cg_os c)) ip [6, 0]))"
proof -
  obtain c where c: "thenE (generate_method demo_env (op_method OpShiftLeft 1 3)) (relocate_all [label_name 0]) new_codegen = Inr ((), c)"
    and bytes: "rf_bytes (cg_os c) = method_code demo_env (op_method OpShiftLeft 1 3) 0 0"
    using op_method_links by blast
  have "length (method_code demo_env (op_method OpShiftLeft 1 3) 0 0) = 59"
    by (simp add: method_code_def op_method_size Let_def)
  then have "int_frame (running_state (rf_bytes (cg_os c)) [0]) (spot 2) True (rf_bytes (cg_os c)) 0 [0]"
    unfolding bytes by (intro running_state_frame) (simp_all add: PVM_INTEGER_STACK_SIZE_def)
  from operators_miscompiled [OF _ c this, of "at_spot 2" no_ext] c show ?thesis by (auto simp: c_shl_def)
qed

lemma put_byte_inj: "put_byte a = put_byte b \<Longrightarrow> a = b"
  by (drule fun_cong [of _ _ new_codegen])
    (simp add: put_byte_def put_bytes_def comp_simps new_codegen_def rf_write_def)

text \<open>
  C27. The remainder operator is not implemented. The byte that the compiler writes for
  \<^verbatim>\<open>%\<close> is an unknown instruction to the interpreter, which panics.
\<close>

theorem remainder_panics:
  assumes f: "int_frame s da outer bs ip xs" and ip: "ip < length bs" and th: "ob_data th = da"
    and w: "emit_binop OpRemainder = put_byte (bs ! ip)"
  shows "exec_step X exec th no_prefix s = Inl (Exec_panic ''thread exec: unknown opcode'')"
proof -
  have i: "bs ! ip = opcode_iremlu" using w put_byte_inj by (metis emit_binop.simps(5) emitIRemLU_def)
  from fetch_instr [OF f ip] obtain s1 where s1: "on_code da pvm_code_get_byte s = Inr (opcode_iremlu, s1)"
    unfolding i by blast
  have "opcode_iremlu \<notin> set op_keys" by (simp add: op_keys_def opcode_defs)
  then have "map_of (exec_ops X exec th no_prefix) opcode_iremlu = None"
    unfolding map_of_eq_None_iff by (metis exec_ops_keys list.set_map)
  with s1 th show ?thesis
    by (simp add: exec_step_def exec_instr_def exec_default_def bindE_apply thenE_apply comp_simps no_prefix_def opcode_defs)
qed

theorem remainder_panics_witness:
  "exec_step no_ext (\<lambda>_. raise Diverges) (at_spot 2) no_prefix (running_state [opcode_iremlu] [7, 2]) =
     Inl (Exec_panic ''thread exec: unknown opcode'')"
  by (rule remainder_panics [OF running_state_frame, of "[opcode_iremlu]" "[7, 2]" "at_spot 2"])
    (simp_all add: emitIRemLU_def PVM_INTEGER_STACK_SIZE_def)

end
