(* ===== verification/Kernel_Queue.thy ===== *)
theory Kernel_Queue
  imports Phantom_Prelude
begin

text \<open>
  The doubly linked queues of the kernel (\<^verbatim>\<open>include/queue.h\<close>), on a store of links: the head
  and every element have a next and a prev field, the head is its own neighbour when the
  queue is empty, and the neighbours of the outermost elements are the head. The macros are
  proved to implement the operations on lists of elements.
\<close>

section \<open>The macros\<close>

text \<open>The \<^verbatim>\<open>next\<close> and \<^verbatim>\<open>prev\<close> fields of the heads and elements, by their addresses.\<close>

record queue_links =
  q_next :: "addr \<Rightarrow> addr"
  q_prev :: "addr \<Rightarrow> addr"

type_synonym 'a queue_op = "queue_links \<Rightarrow> 'a \<times> queue_links"

definition set_q_next :: "addr \<Rightarrow> addr \<Rightarrow> queue_links \<Rightarrow> queue_links" where
  "set_q_next p v h = h\<lparr>q_next := (q_next h)(p := v)\<rparr>"

definition set_q_prev :: "addr \<Rightarrow> addr \<Rightarrow> queue_links \<Rightarrow> queue_links" where
  "set_q_prev p v h = h\<lparr>q_prev := (q_prev h)(p := v)\<rparr>"

definition queue_init :: "addr \<Rightarrow> queue_links \<Rightarrow> queue_links" where
  "queue_init q h = set_q_next q q (set_q_prev q q h)"

definition queue_first :: "addr \<Rightarrow> queue_links \<Rightarrow> addr" where
  "queue_first q h = q_next h q"

definition queue_last :: "addr \<Rightarrow> queue_links \<Rightarrow> addr" where
  "queue_last q h = q_prev h q"

definition queue_end :: "addr \<Rightarrow> addr \<Rightarrow> bool" where
  "queue_end q qe \<longleftrightarrow> q = qe"

definition queue_empty :: "addr \<Rightarrow> queue_links \<Rightarrow> bool" where
  "queue_empty q h = queue_end q (queue_first q h)"

definition queue_enter :: "addr \<Rightarrow> addr \<Rightarrow> queue_links \<Rightarrow> queue_links" where
  "queue_enter head elt h = (let prev = q_prev h head;
     h1 = (if head = prev then set_q_next head elt h else set_q_next prev elt h)
     in set_q_prev head elt (set_q_next elt head (set_q_prev elt prev h1)))"

definition queue_enter_first :: "addr \<Rightarrow> addr \<Rightarrow> queue_links \<Rightarrow> queue_links" where
  "queue_enter_first head elt h = (let nxt = q_next h head;
     h1 = (if head = nxt then set_q_prev head elt h else set_q_prev nxt elt h)
     in set_q_next head elt (set_q_prev elt head (set_q_next elt nxt h1)))"

definition queue_enter_before :: "addr \<Rightarrow> addr \<Rightarrow> addr \<Rightarrow> queue_links \<Rightarrow> queue_links" where
  "queue_enter_before head nelt elt h = (let h1 = set_q_next elt nelt h;
     (prev, h2) = (if head = nelt
        then (q_prev h1 head, set_q_prev head elt (set_q_prev elt (q_prev h1 head) h1))
        else (let ha = set_q_prev elt (q_prev h1 nelt) h1 in (q_prev ha nelt, set_q_prev nelt elt ha)))
     in if head = prev then set_q_next head elt h2 else set_q_next prev elt h2)"

definition queue_enter_after :: "addr \<Rightarrow> addr \<Rightarrow> addr \<Rightarrow> queue_links \<Rightarrow> queue_links" where
  "queue_enter_after head pelt elt h = (let h1 = set_q_prev elt pelt h;
     (nxt, h2) = (if head = pelt
        then (q_next h1 head, set_q_next head elt (set_q_next elt (q_next h1 head) h1))
        else (let ha = set_q_next elt (q_next h1 pelt) h1 in (q_next ha pelt, set_q_next pelt elt ha)))
     in if head = nxt then set_q_prev head elt h2 else set_q_prev nxt elt h2)"

definition queue_remove :: "addr \<Rightarrow> addr \<Rightarrow> queue_links \<Rightarrow> queue_links" where
  "queue_remove head elt h = (let nxt = q_next h elt; prev = q_prev h elt;
     h1 = (if head = nxt then set_q_prev head prev h else set_q_prev nxt prev h)
     in if head = prev then set_q_next head nxt h1 else set_q_next prev nxt h1)"

definition queue_remove_first :: "addr \<Rightarrow> addr queue_op" where
  "queue_remove_first head h = (let entry = q_next h head; nxt = q_next h entry;
     h1 = (if head = nxt then set_q_prev head head h else set_q_prev nxt head h)
     in (entry, set_q_next head nxt h1))"

text \<open>The elements that \<^verbatim>\<open>queue_iterate\<close> visits, at most \<open>n\<close> of them.\<close>

primrec queue_walk :: "nat \<Rightarrow> addr \<Rightarrow> addr \<Rightarrow> queue_links \<Rightarrow> addr list option" where
  "queue_walk 0 head elt h = None"
| "queue_walk (Suc n) head elt h =
     (if queue_end head elt then Some [] else map_option ((#) elt) (queue_walk n head (q_next h elt) h))"

definition queue_iterate :: "nat \<Rightarrow> addr \<Rightarrow> queue_links \<Rightarrow> addr list option" where
  "queue_iterate n head h = queue_walk n head (queue_first head h) h"

section \<open>Chains of links\<close>

text \<open>Neighbours in the list are linked in both directions.\<close>

fun chain :: "queue_links \<Rightarrow> addr list \<Rightarrow> bool" where
  "chain h (a # b # xs) \<longleftrightarrow> q_next h a = b \<and> q_prev h b = a \<and> chain h (b # xs)"
| "chain h xs \<longleftrightarrow> True"

text \<open>The elements \<open>xs\<close> are in the queue of \<open>head\<close>, in this order.\<close>

definition queue_rep :: "addr \<Rightarrow> queue_links \<Rightarrow> addr list \<Rightarrow> bool" where
  "queue_rep head h xs \<longleftrightarrow> distinct (head # xs) \<and> chain h (head # xs @ [head])"

lemma chain_Cons: "chain h (a # xs) \<longleftrightarrow> (xs = [] \<or> q_next h a = hd xs \<and> q_prev h (hd xs) = a \<and> chain h xs)"
  by (cases xs) auto

lemma chain_join: "chain h (xs @ a # ys) \<longleftrightarrow> chain h (xs @ [a]) \<and> chain h (a # ys)"
proof (induction xs)
  case (Cons x xs)
  then show ?case by (cases xs) (auto simp: chain_Cons)
qed simp

lemma chain_frame:
  assumes "\<And>x. x \<in> set (butlast xs) \<Longrightarrow> q_next h' x = q_next h x" "\<And>x. x \<in> set (tl xs) \<Longrightarrow> q_prev h' x = q_prev h x"
  shows "chain h' xs = chain h xs"
  using assms by (induction h xs rule: chain.induct) auto

lemma link_sel [simp]:
  "q_next (set_q_next p v h) = (q_next h)(p := v)" "q_prev (set_q_next p v h) = q_prev h"
  "q_prev (set_q_prev p v h) = (q_prev h)(p := v)" "q_next (set_q_prev p v h) = q_next h"
  by (simp_all add: set_q_next_def set_q_prev_def)

text \<open>The neighbours \<open>a\<close> and \<open>b\<close> of a place in the queue, either of which may be the head.\<close>

lemma neighbours:
  assumes d: "distinct (head # us @ vs)" and ab: "a = last (head # us)" "b = hd (vs @ [head])"
  obtains as bs where "head # us = as @ [a]" "vs @ [head] = b # bs" "tl (as @ [a]) = us" "butlast (b # bs) = vs"
    "a \<notin> set as" "a \<notin> set vs" "b \<notin> set us" "b \<notin> set bs"
proof -
  obtain as bs where e: "head # us = as @ [a]" "vs @ [head] = b # bs"
    using ab by (metis append_butlast_last_id list.collapse list.distinct(1) snoc_eq_iff_butlast)
  have "distinct ((head # us) @ vs)" "distinct (us @ (vs @ [head]))" using d by auto
  then have "a \<notin> set as" "a \<notin> set vs" "b \<notin> set us" "b \<notin> set bs" unfolding e by auto
  moreover have "tl (as @ [a]) = us" "butlast (b # bs) = vs" by (simp_all flip: e)
  ultimately show ?thesis using that e by blast
qed

lemma ring_split:
  assumes "head # us = as @ [a]" "vs @ [head] = b # bs"
  shows "chain h (head # (us @ ws @ vs) @ [head]) \<longleftrightarrow> chain h (as @ [a]) \<and> chain h (a # ws @ [b]) \<and> chain h (b # bs)"
proof -
  have "head # (us @ ws @ vs) @ [head] = (head # us) @ ws @ (vs @ [head])" by simp
  also have "\<dots> = as @ a # ws @ b # bs" unfolding assms by simp
  finally show ?thesis using chain_join [of h as a "ws @ b # bs"] chain_join [of h "a # ws" b bs] by simp
qed

lemma chains_kept:
  assumes "a \<notin> set as" "a \<notin> set vs" "b \<notin> set us" "b \<notin> set bs" "tl (as @ [a]) = us" "butlast (b # bs) = vs"
    and "\<And>y. y \<noteq> a \<Longrightarrow> y \<noteq> x \<Longrightarrow> q_next h' y = q_next h y" "\<And>y. y \<noteq> b \<Longrightarrow> y \<noteq> x \<Longrightarrow> q_prev h' y = q_prev h y"
    and "x \<notin> set (as @ [a])" "x \<notin> set (b # bs)"
  shows "chain h' (as @ [a]) = chain h (as @ [a])" "chain h' (b # bs) = chain h (b # bs)"
proof -
  have "x \<notin> set us" "x \<notin> set vs"
    using assms(5,6,9,10) by (metis list.set_sel(2) tl_append2 append_is_Nil_conv not_Cons_self2 in_set_butlastD)+
  moreover have "x \<notin> set as" "x \<notin> set bs" using assms(9,10) by simp_all
  ultimately have 1: "q_next h' y = q_next h y" if "y \<in> set as \<or> y \<in> set vs" for y
    using that assms(1,2,7) by metis
  have 2: "q_prev h' y = q_prev h y" if "y \<in> set us \<or> y \<in> set bs" for y
    using that assms(3,4,8) \<open>x \<notin> set us\<close> \<open>x \<notin> set bs\<close> by metis
  show "chain h' (as @ [a]) = chain h (as @ [a])"
    by (rule chain_frame) (simp_all add: assms(5) 1 2)
  show "chain h' (b # bs) = chain h (b # bs)"
    by (rule chain_frame) (simp_all only: assms(6) 1 2 list.sel simp_thms)
qed

text \<open>An element is linked in between its neighbours, or linked out.\<close>

lemma link_in:
  assumes rep: "queue_rep head h (us @ vs)" and x: "x \<noteq> head" "x \<notin> set (us @ vs)"
    and ab: "a = last (head # us)" "b = hd (vs @ [head])"
    and h': "q_next h' = (q_next h)(a := x, x := b)" "q_prev h' = (q_prev h)(x := a, b := x)"
  shows "queue_rep head h' (us @ x # vs)"
proof -
  have d: "distinct (head # us @ vs)" using rep by (simp add: queue_rep_def)
  from neighbours [OF d ab] obtain as bs where e: "head # us = as @ [a]" "vs @ [head] = b # bs"
      "tl (as @ [a]) = us" "butlast (b # bs) = vs" "a \<notin> set as" "a \<notin> set vs" "b \<notin> set us" "b \<notin> set bs" .
  have "set (as @ [a]) = insert head (set us)" "set (b # bs) = insert head (set vs)" by (simp_all flip: e(1,2))
  with x have xs: "x \<notin> set (as @ [a])" "x \<notin> set (b # bs)" by auto
  then have "chain h' (as @ [a]) = chain h (as @ [a])" "chain h' (b # bs) = chain h (b # bs)"
    by (intro chains_kept [OF e(5-8,3,4), where x = x]; simp add: h')+
  moreover have "chain h' (a # [x] @ [b])" using xs by (simp add: h')
  ultimately show ?thesis
    using rep d x ring_split [OF e(1,2), of h "[]"] ring_split [OF e(1,2), of h' "[x]"] by (auto simp: queue_rep_def)
qed

lemma link_out:
  assumes rep: "queue_rep head h (us @ x # vs)" and ab: "a = last (head # us)" "b = hd (vs @ [head])"
    and h': "q_next h' = (q_next h)(a := b)" "q_prev h' = (q_prev h)(b := a)"
  shows "queue_rep head h' (us @ vs)"
proof -
  have d: "distinct (head # us @ vs)" "x \<noteq> head" "x \<notin> set (us @ vs)" using rep by (auto simp: queue_rep_def)
  from neighbours [OF d(1) ab] obtain as bs where e: "head # us = as @ [a]" "vs @ [head] = b # bs"
      "tl (as @ [a]) = us" "butlast (b # bs) = vs" "a \<notin> set as" "a \<notin> set vs" "b \<notin> set us" "b \<notin> set bs" .
  have "set (as @ [a]) = insert head (set us)" "set (b # bs) = insert head (set vs)" by (simp_all flip: e(1,2))
  with d have xs: "x \<notin> set (as @ [a])" "x \<notin> set (b # bs)" by auto
  then have "chain h' (as @ [a]) = chain h (as @ [a])" "chain h' (b # bs) = chain h (b # bs)"
    by (intro chains_kept [OF e(5-8,3,4), where x = x]; simp add: h')+
  then show ?thesis
    using rep d ring_split [OF e(1,2), of h "[x]"] ring_split [OF e(1,2), of h' "[]"] by (auto simp: queue_rep_def h')
qed

section \<open>The operations on lists\<close>

lemma chain_at: "chain h (head # us @ x # ys) \<Longrightarrow> q_prev h x = last (head # us) \<and> chain h (x # ys)"
proof (induction us arbitrary: head)
  case (Cons u us)
  then show ?case using Cons.IH [of u] by simp
qed simp

lemma rep_neighbours:
  "queue_rep head h (us @ x # vs) \<Longrightarrow> q_next h x = hd (vs @ [head]) \<and> q_prev h x = last (head # us)"
  using chain_at [of h head us x "vs @ [head]"] by (simp add: queue_rep_def chain_Cons [of h x])

lemma rep_ends: "queue_rep head h xs \<Longrightarrow> q_next h head = hd (xs @ [head]) \<and> q_prev h head = last (head # xs)"
  using chain_at [of h head xs head "[]"] by (simp add: queue_rep_def chain_Cons [of h head])

lemma init_rep: "queue_rep q (queue_init q h) []"
  by (simp add: queue_rep_def queue_init_def)

lemma enter_rep:
  assumes "queue_rep head h xs" "x \<noteq> head" "x \<notin> set xs"
  shows "queue_rep head (queue_enter head x h) (xs @ [x])"
  using link_in [of head h xs "[]" x, OF _ _ _ refl refl] assms rep_ends [OF assms(1)]
  by (simp add: queue_enter_def Let_def)

lemma enter_first_rep:
  assumes "queue_rep head h xs" "x \<noteq> head" "x \<notin> set xs"
  shows "queue_rep head (queue_enter_first head x h) (x # xs)"
proof -
  have "x \<noteq> hd (xs @ [head])" using assms(2,3) by (cases xs) auto
  then show ?thesis
    using link_in [of head h "[]" xs x head "hd (xs @ [head])" "queue_enter_first head x h"] assms rep_ends [OF assms(1)]
    by (auto simp: queue_enter_first_def Let_def fun_eq_iff)
qed

lemma enter_before_rep:
  assumes "queue_rep head h (us @ vs)" "n = hd (vs @ [head])" "x \<noteq> head" "x \<notin> set (us @ vs)"
  shows "queue_rep head (queue_enter_before head n x h) (us @ x # vs)"
proof -
  obtain a where a: "a = last (head # us)" by blast
  have p: "q_prev h n = a"
    using assms(1,2) a rep_ends [of head h us] rep_neighbours [of head h us n "tl vs"] by (cases vs) auto
  have "x \<noteq> n" "x \<noteq> a" using assms(2-4) a by (cases vs; cases us rule: rev_cases; auto)+
  then show ?thesis using assms(3)
    by (intro link_in [OF assms(1,3,4) a assms(2)]) (auto simp: queue_enter_before_def Let_def p fun_eq_iff)
qed

lemma enter_after_rep:
  assumes "queue_rep head h (us @ vs)" "p = last (head # us)" "x \<noteq> head" "x \<notin> set (us @ vs)"
  shows "queue_rep head (queue_enter_after head p x h) (us @ x # vs)"
proof -
  obtain b where b: "b = hd (vs @ [head])" by blast
  have n: "q_next h p = b"
    using assms(1,2) b rep_ends [of head h vs] rep_neighbours [of head h "butlast us" p vs]
    by (cases us rule: rev_cases) auto
  have "x \<noteq> p" "x \<noteq> b" using assms(2-4) b by (cases vs; cases us rule: rev_cases; auto)+
  then show ?thesis using assms(3)
    by (intro link_in [OF assms(1,3,4,2) b]) (auto simp: queue_enter_after_def Let_def n fun_eq_iff)
qed

lemma remove_rep:
  assumes "queue_rep head h (us @ x # vs)"
  shows "queue_rep head (queue_remove head x h) (us @ vs)"
  using link_out [OF assms refl refl] rep_neighbours [OF assms] by (simp add: queue_remove_def Let_def)

lemma remove_first_rep:
  assumes "queue_rep head h (x # xs)"
  shows "fst (queue_remove_first head h) = x \<and> queue_rep head (snd (queue_remove_first head h)) xs"
  using link_out [of head h "[]" x xs, OF _ refl refl] assms rep_ends [OF assms] rep_neighbours [of head h "[]" x xs]
  by (simp add: queue_remove_first_def Let_def)

lemma rep_distinct: "queue_rep head h xs \<Longrightarrow> head \<notin> set xs \<and> distinct xs"
  by (simp add: queue_rep_def)

lemma empty_rep: "queue_rep head h xs \<Longrightarrow> queue_empty head h \<longleftrightarrow> xs = []"
  using rep_ends [of head h xs] rep_distinct [of head h xs]
  by (cases xs) (auto simp: queue_empty_def queue_end_def queue_first_def)

lemma walk_chain:
  "chain h (xs @ [head]) \<Longrightarrow> head \<notin> set xs \<Longrightarrow> length xs < n \<Longrightarrow> queue_walk n head (hd (xs @ [head])) h = Some xs"
proof (induction xs arbitrary: n)
  case Nil
  then show ?case by (cases n) (auto simp: queue_end_def)
next
  case (Cons x xs)
  then show ?case by (cases n) (auto simp: queue_end_def chain_Cons)
qed

lemma iterate_rep: "queue_rep head h xs \<Longrightarrow> length xs < n \<Longrightarrow> queue_iterate n head h = Some xs"
  using walk_chain [of h xs head n] rep_ends [of head h xs] rep_distinct [of head h xs]
  by (simp add: queue_iterate_def queue_first_def) (simp add: queue_rep_def chain_Cons [of h head])

section \<open>The interface of a first-in first-out queue\<close>

text \<open>The loop \<^verbatim>\<open>while(!queue_empty(q)) queue_remove_first(q, ...)\<close>, at most \<open>n\<close> times.\<close>

primrec drain :: "('h \<Rightarrow> 'e \<times> 'h) \<Rightarrow> ('h \<Rightarrow> bool) \<Rightarrow> nat \<Rightarrow> 'h \<Rightarrow> 'e list \<times> 'h" where
  "drain remove_first is_empty 0 h = ([], h)"
| "drain remove_first is_empty (Suc n) h =
     (if is_empty h then ([], h)
      else let (x, h1) = remove_first h; (ys, h2) = drain remove_first is_empty n h1 in (x # ys, h2))"

locale fifo =
  fixes rep :: "'h \<Rightarrow> 'e list \<Rightarrow> bool" and usable :: "'e \<Rightarrow> bool" and enter :: "'e \<Rightarrow> 'h \<Rightarrow> 'h"
    and remove_first :: "'h \<Rightarrow> 'e \<times> 'h" and is_empty :: "'h \<Rightarrow> bool"
  assumes enter: "rep h xs \<Longrightarrow> usable x \<Longrightarrow> x \<notin> set xs \<Longrightarrow> rep (enter x h) (xs @ [x])"
    and remove_first: "rep h (x # xs) \<Longrightarrow> fst (remove_first h) = x \<and> rep (snd (remove_first h)) xs"
    and is_empty: "rep h xs \<Longrightarrow> is_empty h \<longleftrightarrow> xs = []"
begin

lemma enter_all:
  "rep h xs \<Longrightarrow> distinct ys \<Longrightarrow> set xs \<inter> set ys = {} \<Longrightarrow> (\<And>y. y \<in> set ys \<Longrightarrow> usable y) \<Longrightarrow> rep (fold enter ys h) (xs @ ys)"
proof (induction ys arbitrary: h xs)
  case (Cons y ys)
  then have "rep (enter y h) (xs @ [y])" by (intro enter) auto
  with Cons show ?case using Cons.IH [of "enter y h" "xs @ [y]"] by auto
qed simp

lemma drain_all:
  "rep h xs \<Longrightarrow> length xs \<le> n \<Longrightarrow> fst (drain remove_first is_empty n h) = xs \<and> rep (snd (drain remove_first is_empty n h)) []"
proof (induction n arbitrary: h xs)
  case (Suc n)
  show ?case
  proof (cases xs)
    case Nil
    with Suc.prems is_empty [of h xs] show ?thesis by simp
  next
    case (Cons x ys)
    with Suc.prems have "fst (remove_first h) = x" "rep (snd (remove_first h)) ys" "\<not> is_empty h"
      using remove_first is_empty [of h xs] by auto
    with Suc.IH [of "snd (remove_first h)" ys] Suc.prems(2) Cons show ?thesis by (auto simp: split_def Let_def)
  qed
qed simp

lemma in_order:
  assumes "rep h []" "distinct ys" "\<And>y. y \<in> set ys \<Longrightarrow> usable y"
  shows "fst (drain remove_first is_empty (length ys) (fold enter ys h)) = ys"
  using drain_all [OF enter_all [OF assms(1,2)]] assms(3) by simp

end

interpretation kq: fifo "queue_rep head" "\<lambda>x. x \<noteq> head" "queue_enter head" "queue_remove_first head" "queue_empty head"
  for head
  by unfold_locales (simp_all add: enter_rep remove_first_rep empty_rep)

section \<open>Properties\<close>

datatype queue_cmd = Enter addr | Enter_first addr | Enter_before addr addr | Enter_after addr addr
  | Remove addr | Remove_first

primrec do_queue :: "addr \<Rightarrow> queue_cmd \<Rightarrow> queue_links \<Rightarrow> queue_links" where
  "do_queue head (Enter x) h = queue_enter head x h"
| "do_queue head (Enter_first x) h = queue_enter_first head x h"
| "do_queue head (Enter_before n x) h = queue_enter_before head n x h"
| "do_queue head (Enter_after p x) h = queue_enter_after head p x h"
| "do_queue head (Remove x) h = queue_remove head x h"
| "do_queue head Remove_first h = snd (queue_remove_first head h)"

fun insert_before :: "addr \<Rightarrow> addr \<Rightarrow> addr list \<Rightarrow> addr list" where
  "insert_before n x [] = [x]"
| "insert_before n x (y # ys) = (if y = n then x # y # ys else y # insert_before n x ys)"

fun insert_after :: "addr \<Rightarrow> addr \<Rightarrow> addr list \<Rightarrow> addr list" where
  "insert_after p x [] = [x]"
| "insert_after p x (y # ys) = (if y = p then y # x # ys else y # insert_after p x ys)"

text \<open>The same on the list of elements; \<open>None\<close> when the operation is not allowed there.\<close>

primrec list_cmd :: "addr \<Rightarrow> queue_cmd \<Rightarrow> addr list \<Rightarrow> addr list option" where
  "list_cmd head (Enter x) xs = (if x \<in> set (head # xs) then None else Some (xs @ [x]))"
| "list_cmd head (Enter_first x) xs = (if x \<in> set (head # xs) then None else Some (x # xs))"
| "list_cmd head (Enter_before n x) xs =
     (if x \<in> set (head # xs) \<or> n \<notin> set (head # xs) then None else Some (insert_before n x xs))"
| "list_cmd head (Enter_after p x) xs =
     (if x \<in> set (head # xs) \<or> p \<notin> set (head # xs) then None
      else Some (if p = head then x # xs else insert_after p x xs))"
| "list_cmd head (Remove x) xs = (if x \<in> set xs then Some (remove1 x xs) else None)"
| "list_cmd head Remove_first xs = (if xs = [] then None else Some (tl xs))"

fun list_cmds :: "addr \<Rightarrow> queue_cmd list \<Rightarrow> addr list \<Rightarrow> addr list option" where
  "list_cmds head [] xs = Some xs"
| "list_cmds head (c # cs) xs = Option.bind (list_cmd head c xs) (list_cmds head cs)"

lemma insert_before_split:
  "n \<in> set (xs @ [head]) \<Longrightarrow> head \<notin> set xs \<Longrightarrow> \<exists>us vs. xs = us @ vs \<and> n = hd (vs @ [head]) \<and> insert_before n x xs = us @ x # vs"
proof (induction xs)
  case (Cons y ys)
  show ?case
  proof (cases "y = n")
    case True
    then show ?thesis by - (rule exI [of _ "[]"], auto)
  next
    case False
    with Cons obtain us vs where "ys = us @ vs" "n = hd (vs @ [head])" "insert_before n x ys = us @ x # vs" by auto
    with False show ?thesis by - (rule exI [of _ "y # us"], auto)
  qed
qed simp

lemma insert_after_split:
  "p \<in> set xs \<Longrightarrow> \<exists>us vs. xs = us @ vs \<and> us \<noteq> [] \<and> p = last us \<and> insert_after p x xs = us @ x # vs"
proof (induction xs)
  case (Cons y ys)
  show ?case
  proof (cases "y = p")
    case True
    then show ?thesis by - (rule exI [of _ "[y]"], auto)
  next
    case False
    with Cons obtain us vs where "ys = us @ vs" "us \<noteq> []" "p = last us" "insert_after p x ys = us @ x # vs" by auto
    with False show ?thesis by - (rule exI [of _ "y # us"], auto)
  qed
qed simp

lemma list_cmd_rep:
  assumes rep: "queue_rep head h xs" and c: "list_cmd head c xs = Some ys"
  shows "queue_rep head (do_queue head c h) ys"
proof (cases c)
  case (Enter_before n x)
  with c rep have "n \<in> set (xs @ [head])" "head \<notin> set xs" "x \<notin> set (head # xs)" "ys = insert_before n x xs"
    by (auto simp: queue_rep_def split: if_splits)
  with insert_before_split [of n xs head x] rep Enter_before enter_before_rep show ?thesis by force
next
  case (Enter_after p x)
  with c have x: "x \<noteq> head" "x \<notin> set xs" and p: "p = head \<or> p \<in> set xs"
    and ys: "ys = (if p = head then x # xs else insert_after p x xs)" by (auto split: if_splits)
  show ?thesis
  proof (cases "p = head")
    case True
    with enter_after_rep [of head h "[]" xs p x] rep x ys Enter_after show ?thesis by simp
  next
    case False
    with p insert_after_split [of p xs x] ys obtain us vs where "xs = us @ vs" "us \<noteq> []" "p = last us" "ys = us @ x # vs" by auto
    with enter_after_rep [of head h us vs p x] rep x Enter_after show ?thesis by simp
  qed
next
  case (Remove x)
  with c obtain us vs where "xs = us @ x # vs" "x \<notin> set us" "ys = remove1 x xs"
    by (auto dest: split_list_first split: if_splits)
  with remove_rep [of head h us x vs] rep Remove show ?thesis by (simp add: remove1_append)
next
  case Remove_first
  with c obtain x where "xs = x # ys" by (cases xs) auto
  with remove_first_rep [of head h x ys] rep Remove_first show ?thesis by simp
qed (use c rep enter_rep enter_first_rep in \<open>auto split: if_splits\<close>)

text \<open>
  C29. The linked queues of the kernel behave like lists. A sequence of insertions (at either
  end, before or after an element) and removals, each allowed on the list of elements, leaves
  in the links the queue of exactly the elements that the list operations give, in the
  same order: \<^verbatim>\<open>queue_iterate\<close> visits them, and \<^verbatim>\<open>queue_empty\<close> tells whether there are any.
\<close>

theorem queue_refines_list:
  assumes "queue_rep head h xs" "list_cmds head cs xs = Some ys"
  shows "queue_rep head (fold (do_queue head) cs h) ys \<and>
    queue_iterate (length ys + 1) head (fold (do_queue head) cs h) = Some ys \<and>
    (queue_empty head (fold (do_queue head) cs h) \<longleftrightarrow> ys = [])"
proof -
  have "queue_rep head (fold (do_queue head) cs h) ys"
    using assms
    by (induction cs arbitrary: h xs) (auto dest: list_cmd_rep simp: Option.bind_eq_Some_conv)
  then show ?thesis using iterate_rep empty_rep by simp
qed

definition no_links :: queue_links where
  "no_links = \<lparr>q_next = (\<lambda>_. 0), q_prev = (\<lambda>_. 0)\<rparr>"

theorem queue_refines_list_witness:
  "queue_iterate (length [3, 1, 4 :: addr] + 1) 100 (fold (do_queue 100) [Enter 1, Enter_first 2, Enter_before 1 3, Enter_after 1 4, Remove 2]
     (queue_init 100 no_links)) = Some [3, 1, 4]"
  using queue_refines_list [OF init_rep, of 100
      "[Enter 1, Enter_first 2, Enter_before 1 3, Enter_after 1 4, Remove 2]" "[3, 1, 4]" no_links]
  by simp



end
