(* ===== verification/Errno_Codes.thy ===== *)
theory Errno_Codes
  imports Phantom_Prelude
begin

text \<open>The error codes of \<^verbatim>\<open>errno.h\<close> that the modelled kernel libraries return; \<open>EOK\<close> is zero.\<close>

datatype errno = EOK | ENOENT | E2BIG | EEXIST | EFBIG | EFTYPE

end
