(* ===== verification/Address_Map.thy ===== *)
theory Address_Map
  imports Errno_Codes
begin

text \<open>
  The address map of the kernel (\<^verbatim>\<open>libkern/amap.c\<close>): a range of 64-bit addresses cut into
  entries with flags. The map is a list of entries, which the queue of the code holds; a
  pointer to an entry is its position. The entries tile the range at all times, and a
  modification changes the flags of exactly the addresses it names, when it does not panic.
\<close>

section \<open>Entries\<close>

type_synonym u32w = "32 word"
type_synonym u64w = "64 word"

record amap_entry =
  am_start :: u64w
  am_n_elem :: u64w
  am_flags :: u32w

text \<open>\<open>am_memory\<close> is the number of entries for which \<^verbatim>\<open>malloc\<close> still has memory.\<close>

record amap =
  map_start :: u64w
  map_n_elem :: u64w
  map_queue :: "amap_entry list"
  am_memory :: nat

type_synonym 'a am = "(amap, 'a) comp"

section \<open>Operations\<close>

definition new_entry :: "u64w \<Rightarrow> u64w \<Rightarrow> u32w \<Rightarrow> amap_entry am" where
  "new_entry from n flags = bindE (gets am_memory) (\<lambda>k.
     if k = 0 then raise (Panic ''out of mem in amap'')
     else thenE (modify (\<lambda>m. m\<lparr>am_memory := k - 1\<rparr>))
       (ret \<lparr>am_start = from, am_n_elem = n, am_flags = flags\<rparr>))"

definition entry_at :: "nat \<Rightarrow> amap_entry am" where
  "entry_at i = bindE (gets map_queue) (\<lambda>q. if i < length q then ret (q ! i) else raise Out_of_bounds)"

definition put_entry :: "nat \<Rightarrow> amap_entry \<Rightarrow> unit am" where
  "put_entry i e = modify (\<lambda>m. m\<lparr>map_queue := (map_queue m)[i := e]\<rparr>)"

text \<open>Join entry with next.\<close>

definition join :: "nat \<Rightarrow> unit am" where
  "join i = bindE (gets (length \<circ> map_queue)) (\<lambda>l.
     thenE (assertE ''e->chain.next != &(map->queue)'' (i + 1 \<noteq> l))
    (bindE (entry_at (i + 1)) (\<lambda>ne. bindE (entry_at i) (\<lambda>e.
     thenE (put_entry i (e\<lparr>am_n_elem := am_n_elem e + am_n_elem ne\<rparr>))
     (modify (\<lambda>m. m\<lparr>map_queue := take (i + 1) (map_queue m) @ drop (i + 2) (map_queue m),
        am_memory := am_memory m + 1\<rparr>))))))"

text \<open>The position of the second of the two entries is the result.\<close>

definition split :: "nat \<Rightarrow> u64w \<Rightarrow> nat am" where
  "split i n_elem_in_first = bindE (entry_at i) (\<lambda>e.
     thenE (assertE ''e->n_elem > n_elem_in_first'' (am_n_elem e > n_elem_in_first))
    (thenE (assertE ''n_elem_in_first > 0'' (n_elem_in_first > 0))
    (bindE (new_entry (am_start e + n_elem_in_first) (am_n_elem e - n_elem_in_first) (am_flags e)) (\<lambda>ne.
     thenE (put_entry i (e\<lparr>am_n_elem := n_elem_in_first\<rparr>))
    (thenE (modify (\<lambda>m. m\<lparr>map_queue := take (i + 1) (map_queue m) @ ne # drop (i + 1) (map_queue m)\<rparr>))
     (ret (i + 1)))))))"

fun find_entry :: "u64w \<Rightarrow> amap_entry list \<Rightarrow> nat option" where
  "find_entry from [] = None"
| "find_entry from (e # es) =
     (if from \<ge> am_start e \<and> from < am_start e + am_n_elem e then Some 0
      else map_option Suc (find_entry from es))"

definition amap_init :: "u64w \<Rightarrow> u64w \<Rightarrow> u32w \<Rightarrow> unit am" where
  "amap_init start n start_state_flags =
     thenE (modify (\<lambda>m. m\<lparr>map_start := start, map_n_elem := n, map_queue := []\<rparr>))
    (bindE (new_entry start n start_state_flags) (\<lambda>ne.
     modify (\<lambda>m. m\<lparr>map_queue := map_queue m @ [ne]\<rparr>)))"

fun destroy_loop :: "amap_entry list \<Rightarrow> unit am" where
  "destroy_loop [] = ret ()"
| "destroy_loop (e # es) =
     thenE (modify (\<lambda>m. m\<lparr>map_queue := es, am_memory := am_memory m + 1\<rparr>)) (destroy_loop es)"

definition amap_destroy :: "unit am" where
  "amap_destroy = bindE (gets map_queue) destroy_loop"

definition amap_iterate_all :: "amap \<Rightarrow> (u64w \<Rightarrow> u64w \<Rightarrow> u32w \<Rightarrow> ('s, unit) comp) \<Rightarrow> ('s, unit) comp" where
  "amap_iterate_all m f = iterE (\<lambda>e. f (am_start e) (am_n_elem e) (am_flags e)) (map_queue m)"

definition amap_iterate_flags ::
    "amap \<Rightarrow> (u64w \<Rightarrow> u64w \<Rightarrow> u32w \<Rightarrow> ('s, unit) comp) \<Rightarrow> u32w \<Rightarrow> ('s, unit) comp" where
  "amap_iterate_flags m f flags =
     iterE (\<lambda>e. whenE (am_flags e = flags) (f (am_start e) (am_n_elem e) (am_flags e))) (map_queue m)"

definition out_of_range :: "amap \<Rightarrow> u64w \<Rightarrow> u64w \<Rightarrow> bool" where
  "out_of_range m from n \<longleftrightarrow> from \<ge> map_start m + map_n_elem m \<or> map_start m \<ge> from + n \<or>
     from < map_start m \<or> map_start m + map_n_elem m < from + n"

text \<open>The loop of \<^verbatim>\<open>amap_check\<close>; the numbers are unsigned, so \<^verbatim>\<open>n_elem <= 0\<close> means that it is zero.\<close>

fun check_loop :: "u32w \<Rightarrow> u64w \<Rightarrow> u64w \<Rightarrow> amap_entry list \<Rightarrow> errno" where
  "check_loop flags from n [] = EFBIG"
| "check_loop flags from n (e # es) =
     (if am_flags e \<noteq> flags then EFTYPE
      else let finish = from + n; from' = am_start e + am_n_elem e; n' = finish - from'
        in if n' \<le> 0 then EOK else check_loop flags from' n' es)"

definition amap_check :: "amap \<Rightarrow> u64w \<Rightarrow> u64w \<Rightarrow> u32w \<Rightarrow> errno" where
  "amap_check m from n flags =
     (if out_of_range m from n then E2BIG
      else case find_entry from (map_queue m) of
          None \<Rightarrow> ENOENT
        | Some i \<Rightarrow> check_loop flags from n (drop i (map_queue m)))"

text \<open>Loops are bounded by their first argument.\<close>

primrec rejoin_loop :: "nat \<Rightarrow> u64w \<Rightarrow> nat \<Rightarrow> unit am" where
  "rejoin_loop 0 finish i = raise Diverges"
| "rejoin_loop (Suc n) finish i = bindE (gets map_queue) (\<lambda>q.
     if i + 1 = length q then raise (Panic ''amap - fall out of map bounds'')
     else bindE (entry_at i) (\<lambda>e. bindE (entry_at (i + 1)) (\<lambda>nexte.
       bindE (if am_flags e \<noteq> am_flags nexte then ret (i + 1) else thenE (join i) (ret i)) (\<lambda>j.
       bindE (entry_at j) (\<lambda>e'. if am_start e' < finish then rejoin_loop n finish j else ret ())))))"

definition rejoin_range :: "nat \<Rightarrow> u64w \<Rightarrow> u64w \<Rightarrow> errno am" where
  "rejoin_range k from n = bindE (gets id) (\<lambda>m.
     if out_of_range m from n then ret E2BIG
     else case find_entry from (map_queue m) of
         None \<Rightarrow> raise (Panic ''amap - no elem within map bounds'')
       | Some i \<Rightarrow> thenE (rejoin_loop k (from + n) i) (ret EOK))"

text \<open>
  When an entry has the flags already, the code jumps past the declaration of \<^verbatim>\<open>e_finish\<close>, which
  has an indeterminate value then: \<open>junk k\<close> with \<open>k\<close> iterations left. The results
  are the position of the last entry looked at and whether flags were changed.
\<close>

primrec modify_loop :: "nat \<Rightarrow> (nat \<Rightarrow> u64w) \<Rightarrow> u64w \<Rightarrow> u64w \<Rightarrow> u32w \<Rightarrow> nat \<Rightarrow> bool \<Rightarrow> (nat \<times> bool) am" where
  "modify_loop 0 junk from finish flags i modified = raise Diverges"
| "modify_loop (Suc k) junk from finish flags i modified =
     (let again = (\<lambda>j md. bindE (entry_at j) (\<lambda>e.
            if am_start e < finish then modify_loop k junk from finish flags j md else ret (j, md)));
          next_entry = (\<lambda>e_finish md. if e_finish = finish then ret (i, md)
            else bindE (gets map_queue) (\<lambda>q.
              if i + 1 = length q then raise (Panic ''amap - fall out of map bounds'') else again (i + 1) md))
      in bindE (entry_at i) (\<lambda>e. let e_finish = am_start e + am_n_elem e in
        if am_flags e = flags then next_entry (junk k) modified
        else if am_start e \<ge> from \<and> e_finish \<le> finish
        then thenE (put_entry i (e\<lparr>am_flags := flags\<rparr>)) (next_entry e_finish True)
        else if am_start e < from
        then bindE (split i (from - am_start e)) (\<lambda>j. again j True)
        else thenE (assertE ''e_finish > finish'' (e_finish > finish))
          (thenE (split i (finish - am_start e)) (again i True))))"

definition amap_check_modify :: "nat \<Rightarrow> (nat \<Rightarrow> u64w) \<Rightarrow> u64w \<Rightarrow> u64w \<Rightarrow> u32w \<Rightarrow> (errno \<times> bool) am" where
  "amap_check_modify k junk from n flags = bindE (gets id) (\<lambda>m.
     if out_of_range m from n then ret (E2BIG, False)
     else case find_entry from (map_queue m) of
         None \<Rightarrow> raise (Panic ''amap - no elem within map bounds'')
       | Some i \<Rightarrow> bindE (modify_loop k junk from (from + n) flags i False) (\<lambda>(j, md).
           bindE (entry_at j) (\<lambda>e.
           if am_start e + am_n_elem e < from + n then raise (Panic ''AMAP - finished before'')
           else thenE (rejoin_range k from n) (ret (EOK, md)))))"

definition amap_modify :: "nat \<Rightarrow> (nat \<Rightarrow> u64w) \<Rightarrow> u64w \<Rightarrow> u64w \<Rightarrow> u32w \<Rightarrow> errno am" where
  "amap_modify k junk from n flags = bindE (amap_check_modify k junk from n flags) (\<lambda>(rc, _). ret rc)"


section \<open>The addresses an entry covers\<close>

abbreviation lo :: "amap_entry \<Rightarrow> nat" where
  "lo e \<equiv> unat (am_start e)"

abbreviation hi :: "amap_entry \<Rightarrow> nat" where
  "hi e \<equiv> unat (am_start e) + unat (am_n_elem e)"

text \<open>The entries cover the addresses from \<open>a\<close> up to \<open>b\<close>, without gaps and overlaps.\<close>

fun tiled :: "nat \<Rightarrow> amap_entry list \<Rightarrow> nat \<Rightarrow> bool" where
  "tiled a [] b \<longleftrightarrow> a = b"
| "tiled a (e # es) b \<longleftrightarrow> lo e = a \<and> lo e < hi e \<and> tiled (hi e) es b"

fun flag_at :: "amap_entry list \<Rightarrow> nat \<Rightarrow> u32w option" where
  "flag_at [] p = None"
| "flag_at (e # es) p = (if lo e \<le> p \<and> p < hi e then Some (am_flags e) else flag_at es p)"

definition amap_ok :: "amap \<Rightarrow> bool" where
  "amap_ok m \<longleftrightarrow> map_queue m \<noteq> [] \<and> unat (map_start m) + unat (map_n_elem m) < 2 ^ 64 \<and>
     tiled (unat (map_start m)) (map_queue m) (unat (map_start m) + unat (map_n_elem m))"

lemma tiled_append: "tiled a (xs @ ys) b \<longleftrightarrow> (\<exists>c. tiled a xs c \<and> tiled c ys b)"
  by (induction xs arbitrary: a) auto

lemma tiled_le: "tiled a xs b \<Longrightarrow> a \<le> b"
  by (induction xs arbitrary: a) force+

lemma tiled_bounds: "tiled a xs b \<Longrightarrow> x \<in> set xs \<Longrightarrow> a \<le> lo x \<and> hi x \<le> b"
proof (induction xs arbitrary: a)
  case (Cons e es)
  then show ?case using tiled_le [of "hi e" es b] by force
qed simp

lemma flag_at_outside: "tiled a xs b \<Longrightarrow> p < a \<or> b \<le> p \<Longrightarrow> flag_at xs p = None"
proof (induction xs arbitrary: a)
  case (Cons e es)
  then show ?case using tiled_le [of "hi e" es b] by auto
qed simp

lemma flag_at_append: "tiled a xs c \<Longrightarrow> flag_at (xs @ ys) p = (if a \<le> p \<and> p < c then flag_at xs p else flag_at ys p)"
proof (induction xs arbitrary: a)
  case (Cons e es)
  then show ?case using tiled_le [of "hi e" es c] by auto
qed auto

text \<open>Three parts: what lies before an entry, the entry, and what lies after it.\<close>

lemma tiled_parts:
  "tiled a (us @ e # vs) b \<longleftrightarrow> tiled a us (lo e) \<and> lo e < hi e \<and> tiled (hi e) vs b"
  by (auto simp: tiled_append)

lemma flag_at_parts:
  assumes "tiled a (us @ e # vs) b"
  shows "flag_at (us @ e # vs) p = (if p < lo e then flag_at us p else if p < hi e then Some (am_flags e) else flag_at vs p)"
proof -
  have u: "tiled a us (lo e)" and v: "tiled (hi e) vs b" using assms by (simp_all add: tiled_parts)
  have "p < a \<Longrightarrow> flag_at us p = None \<and> flag_at vs p = None"
    using flag_at_outside [OF u] flag_at_outside [OF v] tiled_le [OF u] by auto
  moreover have "p < lo e \<Longrightarrow> flag_at vs p = None" using flag_at_outside [OF v] by auto
  ultimately show ?thesis using flag_at_append [OF u, of "e # vs" p] tiled_le [OF u] by auto
qed

lemma word_end:
  fixes x y :: u64w
  assumes "unat x + unat y < 2 ^ 64"
  shows "unat (x + y) = unat x + unat y"
  using assms unat_add_lem [of x y] by simp

lemma entry_end: "tiled a (us @ e # vs) b \<Longrightarrow> b < 2 ^ 64 \<Longrightarrow> unat (am_start e + am_n_elem e) = hi e"
  using tiled_bounds [of a "us @ e # vs" b e] by (intro word_end) simp

lemma find_entry_spec:
  assumes "tiled a q b" "b < 2 ^ 64" "a \<le> unat from" "unat from < b"
  shows "\<exists>us e vs. q = us @ e # vs \<and> find_entry from q = Some (length us) \<and> lo e \<le> unat from \<and> unat from < hi e"
  using assms
proof (induction q arbitrary: a)
  case (Cons e es)
  have fin: "unat (am_start e + am_n_elem e) = hi e" using Cons.prems entry_end [of a "[]" e es b] by auto
  show ?case
  proof (cases "unat from < hi e")
    case True
    with Cons.prems fin show ?thesis
      by - (rule exI [of _ "[]"], auto simp: word_le_nat_alt word_less_nat_alt)
  next
    case False
    with Cons obtain us x vs where "es = us @ x # vs" "find_entry from es = Some (length us)" "lo x \<le> unat from" "unat from < hi x"
      by (auto dest: Cons.IH [of "hi e"])
    with False fin show ?thesis
      by - (rule exI [of _ "e # us"], auto simp: word_le_nat_alt word_less_nat_alt)
  qed
qed simp

section \<open>The operations on a decomposed queue\<close>

lemma entry_at_eval: "map_queue m = us @ e # vs \<Longrightarrow> entry_at (length us) m = Inr (e, m)"
  by (simp add: entry_at_def bindE_apply)

lemma entry_at_next: "map_queue m = us @ e # x # vs \<Longrightarrow> entry_at (Suc (length us)) m = Inr (x, m)"
  using entry_at_eval [of m "us @ [e]" x vs] by simp

lemma join_eval:
  "map_queue m = us @ e # x # vs \<Longrightarrow> join (length us) m =
     Inr ((), m\<lparr>map_queue := us @ e\<lparr>am_n_elem := am_n_elem e + am_n_elem x\<rparr> # vs, am_memory := am_memory m + 1\<rparr>)"
  by (simp add: join_def bindE_apply thenE_apply assertE_apply entry_at_eval entry_at_next put_entry_def)

lemma split_eval:
  assumes "map_queue m = us @ e # vs" "0 < n" "n < am_n_elem e" "0 < am_memory m"
  shows "split (length us) n m = Inr (Suc (length us), m\<lparr>map_queue := us @ e\<lparr>am_n_elem := n\<rparr> #
    \<lparr>am_start = am_start e + n, am_n_elem = am_n_elem e - n, am_flags = am_flags e\<rparr> # vs, am_memory := am_memory m - 1\<rparr>)"
  using assms
  by (simp add: split_def bindE_apply thenE_apply assertE_apply entry_at_eval put_entry_def new_entry_def)

section \<open>Joining\<close>

lemma tiled_join:
  assumes t: "tiled a (us @ e # x # vs) b" and b: "b < 2 ^ 64" and f: "am_flags e = am_flags x"
    and e': "e' = e\<lparr>am_n_elem := am_n_elem e + am_n_elem x\<rparr>"
  shows "tiled a (us @ e' # vs) b" "flag_at (us @ e' # vs) = flag_at (us @ e # x # vs)" "lo e' = lo e"
proof -
  have x: "lo x = hi e" "lo e < hi e" "lo x < hi x" "hi x \<le> b" using t tiled_le [of "hi x" vs b] by (auto simp: tiled_parts)
  have n: "unat (am_n_elem e + am_n_elem x) = unat (am_n_elem e) + unat (am_n_elem x)"
    using x b by (intro word_end) linarith
  then have h: "hi e' = hi x" "lo e' = lo e" using x by (simp_all add: e')
  then show t': "tiled a (us @ e' # vs) b" "lo e' = lo e" using t x by (auto simp: tiled_parts add.assoc)
  have "flag_at (us @ e' # vs) p = flag_at (us @ e # x # vs) p" for p
    using flag_at_parts [OF t'(1), of p] flag_at_parts [OF t, of p] h x f e' by auto
  then show "flag_at (us @ e' # vs) = flag_at (us @ e # x # vs)" by (rule ext)
qed

section \<open>Rejoining\<close>

text \<open>Some address after \<open>fin\<close> has other flags than the last address before it.\<close>

definition flags_change :: "amap_entry list \<Rightarrow> nat \<Rightarrow> nat \<Rightarrow> bool" where
  "flags_change q fin b \<longleftrightarrow> (\<exists>p. fin \<le> p \<and> p < b \<and> flag_at q p \<noteq> flag_at q (fin - 1))"

text \<open>The map has the same range, its entries cover it, and their flags are the same.\<close>

definition same_map :: "nat \<Rightarrow> nat \<Rightarrow> amap \<Rightarrow> amap \<Rightarrow> bool" where
  "same_map a b m m' \<longleftrightarrow> map_start m' = map_start m \<and> map_n_elem m' = map_n_elem m \<and>
     tiled a (map_queue m') b \<and> flag_at (map_queue m') = flag_at (map_queue m)"

lemma rejoin_loop_step:
  assumes "map_queue m = us @ e # x # vs"
  shows "rejoin_loop (Suc k) finish (length us) m =
    (if am_flags e \<noteq> am_flags x
     then if am_start x < finish then rejoin_loop k finish (length (us @ [e])) m else Inr ((), m)
     else let m' = m\<lparr>map_queue := us @ e\<lparr>am_n_elem := am_n_elem e + am_n_elem x\<rparr> # vs, am_memory := am_memory m + 1\<rparr>
       in if am_start e < finish then rejoin_loop k finish (length us) m' else Inr ((), m'))"
  using assms entry_at_eval [of "m\<lparr>map_queue := us @ e\<lparr>am_n_elem := am_n_elem e + am_n_elem x\<rparr> # vs, am_memory := am_memory m + 1\<rparr>" us]
  by (simp add: bindE_apply thenE_apply entry_at_eval entry_at_next join_eval Let_def)

lemma rejoin_loop_spec:
  assumes "map_queue m = us @ e # vs" "tiled a (us @ e # vs) b" "b < 2 ^ 64" "lo e < unat finish" "unat finish \<le> b"
    "length vs < k"
  shows "if flags_change (map_queue m) (unat finish) b
    then \<exists>m'. rejoin_loop k finish (length us) m = Inr ((), m') \<and> same_map a b m m'
    else \<exists>s. rejoin_loop k finish (length us) m = Inl (Panic s)"
  using assms
proof (induction vs arbitrary: us e m k)
  case Nil
  from Nil.prems obtain k' where k: "k = Suc k'" by (cases k) auto
  have "\<not> flags_change (map_queue m) (unat finish) b"
    using Nil.prems flag_at_parts [OF Nil.prems(2)] by (auto simp: flags_change_def tiled_parts)
  then show ?case using Nil.prems by (simp add: k bindE_apply)
next
  case (Cons x vs)
  from Cons.prems obtain k' where k: "k = Suc k'" "length vs < k'" by (cases k) auto
  have x: "lo x = hi e" "lo x < hi x" "hi x \<le> b" using Cons.prems(2) tiled_le [of "hi x" vs b] by (auto simp: tiled_parts)
  show ?case
  proof (cases "am_flags e = am_flags x")
    case True
    let ?e = "e\<lparr>am_n_elem := am_n_elem e + am_n_elem x\<rparr>"
    let ?m = "m\<lparr>map_queue := us @ ?e # vs, am_memory := am_memory m + 1\<rparr>"
    note t = tiled_join [OF Cons.prems(2,3) True refl]
    have "if flags_change (map_queue ?m) (unat finish) b
      then \<exists>m'. rejoin_loop k' finish (length us) ?m = Inr ((), m') \<and> same_map a b ?m m'
      else \<exists>s. rejoin_loop k' finish (length us) ?m = Inl (Panic s)"
      by (rule Cons.IH [of _ _ ?e]) (use Cons.prems t(1,3) k in simp_all)
    moreover have "flags_change (map_queue ?m) = flags_change (map_queue m)" "same_map a b ?m = same_map a b m"
      using t(2) Cons.prems(1) by (auto simp: flags_change_def same_map_def fun_eq_iff)
    moreover have "rejoin_loop k finish (length us) m = rejoin_loop k' finish (length us) ?m"
      using True Cons.prems(1,4) by (simp add: k rejoin_loop_step word_less_nat_alt del: rejoin_loop.simps)
    ultimately show ?thesis by (simp only:)
  next
    case False
    show ?thesis
    proof (cases "lo x < unat finish")
      case True
      have "if flags_change (map_queue m) (unat finish) b
        then \<exists>m'. rejoin_loop k' finish (length (us @ [e])) m = Inr ((), m') \<and> same_map a b m m'
        else \<exists>s. rejoin_loop k' finish (length (us @ [e])) m = Inl (Panic s)"
        by (rule Cons.IH [of _ _ x]) (use Cons.prems True k in simp_all)
      moreover have "rejoin_loop k finish (length us) m = rejoin_loop k' finish (length (us @ [e])) m"
        using False True Cons.prems(1) by (simp add: k rejoin_loop_step word_less_nat_alt del: rejoin_loop.simps)
      ultimately show ?thesis by (simp only:)
    next
      case past: False
      have "flag_at (map_queue m) (lo x) = Some (am_flags x)" "flag_at (map_queue m) (unat finish - 1) = Some (am_flags e)"
        using Cons.prems x past flag_at_parts [OF Cons.prems(2)] by auto
      then have "flags_change (map_queue m) (unat finish) b"
        using past False x unfolding flags_change_def by (intro exI [of _ "lo x"]) auto
      then show ?thesis using past False Cons.prems(1,2)
        by (simp add: k rejoin_loop_step word_less_nat_alt same_map_def del: rejoin_loop.simps)
    qed
  qed
qed

section \<open>Modification\<close>

lemma tiled_split:
  assumes t: "tiled a (us @ e # vs) b" and b: "b < 2 ^ 64" and n: "0 < n" "n < am_n_elem e"
    and e1: "e1 = e\<lparr>am_n_elem := n\<rparr>"
    and e2: "e2 = \<lparr>am_start = am_start e + n, am_n_elem = am_n_elem e - n, am_flags = am_flags e\<rparr>"
  shows "tiled a (us @ e1 # e2 # vs) b" "flag_at (us @ e1 # e2 # vs) = flag_at (us @ e # vs)"
    "lo e1 = lo e" "hi e1 = lo e + unat n" "lo e2 = lo e + unat n" "hi e2 = hi e" "lo e + unat n < hi e" "0 < unat n"
proof -
  have e: "lo e < hi e" "hi e \<le> b" using t tiled_le [of "hi e" vs b] by (auto simp: tiled_parts)
  have n': "0 < unat n" "unat n < unat (am_n_elem e)" using n by (auto simp: word_less_nat_alt)
  have "unat (am_start e + n) = lo e + unat n" using e n' b by (intro word_end) linarith
  moreover have "unat (am_n_elem e - n) = unat (am_n_elem e) - unat n" using n by (intro unat_sub) simp
  ultimately show h: "lo e1 = lo e" "hi e1 = lo e + unat n" "lo e2 = lo e + unat n" "hi e2 = hi e"
      "lo e + unat n < hi e" "0 < unat n"
    using n' by (simp_all add: e1 e2)
  show t': "tiled a (us @ e1 # e2 # vs) b"
    using t n' h by (auto simp: tiled_parts add.assoc)
  have "flag_at (us @ e1 # e2 # vs) p = flag_at (us @ e # vs) p" for p
    using h flag_at_parts [OF t', of p] flag_at_parts [OF t, of p] by (auto simp: e1 e2)
  then show "flag_at (us @ e1 # e2 # vs) = flag_at (us @ e # vs)" by (rule ext)
qed

lemma tiled_flags:
  assumes "tiled a (us @ e # vs) b"
  shows "tiled a (us @ e\<lparr>am_flags := flags\<rparr> # vs) b"
    "flag_at (us @ e\<lparr>am_flags := flags\<rparr> # vs) p = (if lo e \<le> p \<and> p < hi e then Some flags else flag_at (us @ e # vs) p)"
proof -
  show t: "tiled a (us @ e\<lparr>am_flags := flags\<rparr> # vs) b" using assms by (simp add: tiled_parts)
  show "flag_at (us @ e\<lparr>am_flags := flags\<rparr> # vs) p = (if lo e \<le> p \<and> p < hi e then Some flags else flag_at (us @ e # vs) p)"
    by (simp add: flag_at_parts [OF t] flag_at_parts [OF assms])
qed

text \<open>
  The addresses of the range below \<open>c\<close> have the new flags, and the others have the flags they had,
  which \<open>g\<close> gives. That flags were changed is told by \<open>md\<close>.
\<close>

definition progress :: "nat \<Rightarrow> nat \<Rightarrow> nat \<Rightarrow> nat \<Rightarrow> u32w \<Rightarrow> (nat \<Rightarrow> u32w option) \<Rightarrow>
    amap_entry list \<Rightarrow> nat \<Rightarrow> bool \<Rightarrow> bool" where
  "progress a b f fin flags g q c md \<longleftrightarrow> tiled a q b \<and>
     (\<forall>p. flag_at q p = (if f \<le> p \<and> p < c then Some flags else g p)) \<and>
     (md \<longrightarrow> (\<exists>p. f \<le> p \<and> p < fin \<and> g p \<noteq> Some flags)) \<and>
     ((\<exists>p. f \<le> p \<and> p < c \<and> g p \<noteq> Some flags) \<longrightarrow> md)"

text \<open>The splits and the entries that are still to come.\<close>

definition splits_due :: "nat \<Rightarrow> nat \<Rightarrow> amap_entry list \<Rightarrow> nat" where
  "splits_due f fin es = (if lo (hd es) < f then 1 else 0) + (if \<exists>x\<in>set es. lo x < fin \<and> fin < hi x then 1 else 0)"

definition entries_due :: "nat \<Rightarrow> amap_entry list \<Rightarrow> nat" where
  "entries_due fin es = length (filter (\<lambda>x. lo x < fin) es)"

lemma progress_flag:
  "progress a b f fin flags g (us @ e # vs) (lo e) md \<Longrightarrow> lo e \<le> p \<Longrightarrow> p < hi e \<Longrightarrow> g p = Some (am_flags e)"
  unfolding progress_def using flag_at_parts [of a us e vs b p] by (metis linorder_not_less)

lemma progress_later:
  assumes "progress a b f fin flags g q c md" "\<And>p. f \<le> p \<Longrightarrow> c \<le> p \<Longrightarrow> p < c' \<Longrightarrow> g p = Some flags" "c \<le> c'"
  shows "progress a b f fin flags g q c' md"
proof -
  have "flag_at q p = (if f \<le> p \<and> p < c' then Some flags else g p)" for p
    using assms(1,3) assms(2) [of p] unfolding progress_def by (auto simp: not_less)
  moreover have md if "f \<le> p" "p < c'" "g p \<noteq> Some flags" for p
    using assms(1) assms(2) [of p] that unfolding progress_def by (meson linorder_not_less)
  ultimately show ?thesis using assms(1) unfolding progress_def by blast
qed

lemma progress_good:
  "progress a b f fin flags g (us @ e # vs) (lo e) md \<Longrightarrow> am_flags e = flags \<Longrightarrow> lo e \<le> c \<Longrightarrow> c \<le> hi e \<Longrightarrow>
     progress a b f fin flags g (us @ e # vs) c md"
  by (rule progress_later) (auto intro: progress_flag)

lemma progress_changed:
  assumes "progress a b f fin flags g (us @ e # vs) (lo e) md" "am_flags e \<noteq> flags" "f < hi e" "f < fin" "lo e < fin"
  shows "\<exists>p. f \<le> p \<and> p < fin \<and> g p \<noteq> Some flags"
proof -
  have "lo e < hi e" using assms(1) by (auto simp: progress_def tiled_parts)
  then have "g (max f (lo e)) = Some (am_flags e)" using assms(3) by (intro progress_flag [OF assms(1)]) auto
  then show ?thesis using assms(2,4,5) by (intro exI [of _ "max f (lo e)"]) auto
qed

lemma progress_set:
  assumes i: "progress a b f fin flags g (us @ e # vs) (lo e) md" and r: "f \<le> lo e" "hi e \<le> fin"
    and c: "\<exists>p. f \<le> p \<and> p < fin \<and> g p \<noteq> Some flags"
  shows "progress a b f fin flags g (us @ e\<lparr>am_flags := flags\<rparr> # vs) (hi e) True"
proof -
  have t: "tiled a (us @ e # vs) b" using i by (simp add: progress_def)
  have "flag_at (us @ e\<lparr>am_flags := flags\<rparr> # vs) p = (if f \<le> p \<and> p < hi e then Some flags else g p)" for p
    using i r unfolding progress_def tiled_flags(2) [OF t] by (auto simp: not_less)
  then show ?thesis using tiled_flags(1) [OF t] c by (auto simp: progress_def)
qed

lemma progress_split:
  assumes "progress a b f fin flags g q c md" "tiled a q' b" "flag_at q' = flag_at q"
    "\<exists>p. f \<le> p \<and> p < fin \<and> g p \<noteq> Some flags"
  shows "progress a b f fin flags g q' c True"
  using assms by (simp add: progress_def)

text \<open>One iteration, by the kind of entry it meets.\<close>

lemma modify_good:
  assumes "map_queue m = us @ e # vs" "am_flags e = flags"
  shows "modify_loop (Suc k) junk from finish flags (length us) md m =
    (if junk k = finish then Inr ((length us, md), m)
     else case vs of
         [] \<Rightarrow> Inl (Panic ''amap - fall out of map bounds'')
       | x # _ \<Rightarrow> if am_start x < finish then modify_loop k junk from finish flags (length (us @ [e])) md m
           else Inr ((length (us @ [e]), md), m))"
  using assms by (cases vs) (simp_all add: bindE_apply entry_at_eval entry_at_next Let_def)

lemma modify_within:
  assumes "map_queue m = us @ e # vs" "am_flags e \<noteq> flags" "from \<le> am_start e" "am_start e + am_n_elem e \<le> finish"
    and m': "m' = m\<lparr>map_queue := us @ e\<lparr>am_flags := flags\<rparr> # vs\<rparr>"
  shows "modify_loop (Suc k) junk from finish flags (length us) md m =
    (if am_start e + am_n_elem e = finish then Inr ((length us, True), m')
     else case vs of
         [] \<Rightarrow> Inl (Panic ''amap - fall out of map bounds'')
       | x # _ \<Rightarrow> if am_start x < finish
           then modify_loop k junk from finish flags (length (us @ [e\<lparr>am_flags := flags\<rparr>])) True m'
           else Inr ((length (us @ [e]), True), m'))"
proof (cases vs)
  case Nil
  with assms show ?thesis by (simp add: bindE_apply thenE_apply entry_at_eval put_entry_def Let_def)
next
  case (Cons x ws)
  have "entry_at (Suc (length us)) m' = Inr (x, m')" using Cons m' by (intro entry_at_next) simp
  with assms Cons show ?thesis by (simp add: bindE_apply thenE_apply entry_at_eval put_entry_def Let_def)
qed

lemma modify_first:
  assumes "map_queue m = us @ e # vs" "am_flags e \<noteq> flags" "am_start e < from"
    and "0 < from - am_start e" "from - am_start e < am_n_elem e" "0 < am_memory m"
    and e1: "e1 = e\<lparr>am_n_elem := from - am_start e\<rparr>"
    and e2: "e2 = \<lparr>am_start = am_start e + (from - am_start e), am_n_elem = am_n_elem e - (from - am_start e), am_flags = am_flags e\<rparr>"
    and m': "m' = m\<lparr>map_queue := us @ e1 # e2 # vs, am_memory := am_memory m - 1\<rparr>"
  shows "modify_loop (Suc k) junk from finish flags (length us) md m =
    (if am_start e2 < finish then modify_loop k junk from finish flags (length (us @ [e1])) True m'
     else Inr ((length (us @ [e1]), True), m'))"
proof -
  have "entry_at (Suc (length us)) m' = Inr (e2, m')" using m' by (intro entry_at_next) simp
  moreover have "split (length us) (from - am_start e) m = Inr (Suc (length us), m')"
    using assms by (simp add: split_eval)
  moreover have "\<not> from \<le> am_start e" using assms(3) by (simp add: not_le)
  ultimately show ?thesis using assms(1-3)
    by (simp add: bindE_apply entry_at_eval Let_def)
qed

lemma modify_last:
  assumes "map_queue m = us @ e # vs" "am_flags e \<noteq> flags" "from \<le> am_start e" "finish < am_start e + am_n_elem e"
    and "0 < finish - am_start e" "finish - am_start e < am_n_elem e" "0 < am_memory m" "am_start e < finish"
    and e1: "e1 = e\<lparr>am_n_elem := finish - am_start e\<rparr>"
    and e2: "e2 = \<lparr>am_start = am_start e + (finish - am_start e), am_n_elem = am_n_elem e - (finish - am_start e), am_flags = am_flags e\<rparr>"
    and m': "m' = m\<lparr>map_queue := us @ e1 # e2 # vs, am_memory := am_memory m - 1\<rparr>"
  shows "modify_loop (Suc k) junk from finish flags (length us) md m =
    modify_loop k junk from finish flags (length us) True m'"
proof -
  have "entry_at (length us) m' = Inr (e1, m')" using m' by (intro entry_at_eval) simp
  moreover have "split (length us) (finish - am_start e) m = Inr (Suc (length us), m')"
    using assms by (simp add: split_eval)
  moreover have "am_start e1 = am_start e" by (simp add: e1)
  moreover have "\<not> am_start e < from" "\<not> am_start e + am_n_elem e \<le> finish" using assms(3,4) by (simp_all add: not_le not_less)
  ultimately show ?thesis using assms(1-4,8)
    by (simp add: bindE_apply thenE_apply assertE_apply entry_at_eval Let_def)
qed

text \<open>
  What holds before an iteration at the entry \<open>e\<close> with \<open>k\<close> iterations left: the memory, the iterations
  and the length \<open>l\<close> of the queue allow for what is still to come.
\<close>

definition loop_at :: "nat \<Rightarrow> nat \<Rightarrow> u64w \<Rightarrow> u64w \<Rightarrow> u32w \<Rightarrow> (nat \<Rightarrow> u32w option) \<Rightarrow> u64w \<Rightarrow> u64w \<Rightarrow> nat \<Rightarrow> nat \<Rightarrow>
    amap_entry list \<Rightarrow> amap_entry \<Rightarrow> amap_entry list \<Rightarrow> bool \<Rightarrow> amap \<Rightarrow> bool" where
  "loop_at a b from finish flags g s n l k us e vs md m \<longleftrightarrow>
     map_queue m = us @ e # vs \<and> map_start m = s \<and> map_n_elem m = n \<and>
     progress a b (unat from) (unat finish) flags g (us @ e # vs) (lo e) md \<and>
     lo e < unat finish \<and> unat from < hi e \<and>
     splits_due (unat from) (unat finish) (e # vs) \<le> am_memory m \<and>
     entries_due (unat finish) (e # vs) + splits_due (unat from) (unat finish) (e # vs) \<le> k \<and>
     length (us @ e # vs) + splits_due (unat from) (unat finish) (e # vs) \<le> l"

definition loop_end :: "nat \<Rightarrow> nat \<Rightarrow> u64w \<Rightarrow> u64w \<Rightarrow> u32w \<Rightarrow> (nat \<Rightarrow> u32w option) \<Rightarrow> u64w \<Rightarrow> u64w \<Rightarrow> nat \<Rightarrow> bool \<Rightarrow>
    vm_error + (nat \<times> bool) \<times> amap \<Rightarrow> bool" where
  "loop_end a b from finish flags g s n l ok r \<longleftrightarrow>
     (\<exists>t. r = Inl (Panic t) \<and> \<not> ok) \<or>
     (\<exists>us e vs md m. r = Inr ((length us, md), m) \<and> map_queue m = us @ e # vs \<and> map_start m = s \<and> map_n_elem m = n \<and>
        length (us @ e # vs) \<le> l \<and> tiled a (us @ e # vs) b \<and> (ok \<longrightarrow> unat finish \<le> hi e) \<and>
        (unat finish \<le> hi e \<longrightarrow> progress a b (unat from) (unat finish) flags g (us @ e # vs) (unat finish) md))"

lemma at_next:
  assumes at: "loop_at a b from finish flags g s n l (Suc k) us e (x # ws) md m"
    and p: "progress a b (unat from) (unat finish) flags g (us @ e' # x # ws) (hi e) md'" and x: "lo x < unat finish"
    and m': "map_queue m' = us @ e' # x # ws" "map_start m' = s" "map_n_elem m' = n" "am_memory m' = am_memory m"
  shows "loop_at a b from finish flags g s n l k (us @ [e']) x ws md' m'"
proof -
  have e: "lo x = hi e" "lo x < hi x" using at by (auto simp: loop_at_def progress_def tiled_parts)
  have f: "unat from < hi e" "lo e < unat finish" using at by (auto simp: loop_at_def)
  have "splits_due (unat from) (unat finish) (x # ws) \<le> splits_due (unat from) (unat finish) (e # x # ws)"
    using e f by (auto simp: splits_due_def)
  moreover have "entries_due (unat finish) (e # x # ws) = Suc (entries_due (unat finish) (x # ws))"
    using f by (simp add: entries_due_def)
  ultimately show ?thesis using at p e f x m' by (simp add: loop_at_def)
qed

lemma at_split_first:
  assumes at: "loop_at a b from finish flags g s n l (Suc k) us e vs md m" and b: "b < 2 ^ 64"
    and e: "am_flags e \<noteq> flags" "am_start e < from" "unat from < unat finish"
    and e1: "e1 = e\<lparr>am_n_elem := from - am_start e\<rparr>"
    and e2: "e2 = \<lparr>am_start = am_start e + (from - am_start e), am_n_elem = am_n_elem e - (from - am_start e), am_flags = am_flags e\<rparr>"
    and m': "m' = m\<lparr>map_queue := us @ e1 # e2 # vs, am_memory := am_memory m - 1\<rparr>"
  shows "0 < from - am_start e" "from - am_start e < am_n_elem e" "0 < am_memory m" "am_start e2 < finish"
    "loop_at a b from finish flags g s n l k (us @ [e1]) e2 vs True m'"
proof -
  let ?f = "unat from" and ?n = "from - am_start e"
  have n: "unat ?n = ?f - lo e" "lo e < ?f" using e(2) by (auto simp: unat_sub word_less_nat_alt word_le_nat_alt)
  have p: "progress a b ?f (unat finish) flags g (us @ e # vs) (lo e) md" and f: "?f < hi e" "lo e < unat finish"
    using at by (auto simp: loop_at_def)
  show z: "0 < ?n" "?n < am_n_elem e" using n f by (auto simp: word_less_nat_alt)
  show m: "0 < am_memory m" using at n by (auto simp: loop_at_def splits_due_def)
  have t: "tiled a (us @ e # vs) b" using p by (simp add: progress_def)
  note h = tiled_split [OF t b z e1 e2]
  have l: "lo e2 = ?f" using h(5) n by simp
  then show "am_start e2 < finish" using e(3) by (simp add: word_less_nat_alt)
  have "progress a b ?f (unat finish) flags g (us @ e1 # e2 # vs) (lo e) True"
    by (rule progress_split [OF p h(1,2)]) (rule progress_changed [OF p e(1) f(1) e(3) f(2)])
  then have "progress a b ?f (unat finish) flags g (us @ e1 # e2 # vs) (lo e2) True"
    by (rule progress_later) (use n l in auto)
  moreover have "splits_due ?f (unat finish) (e # vs) = Suc (splits_due ?f (unat finish) (e2 # vs))"
    using n l h(6) e(3) f by (auto simp: splits_due_def)
  moreover have "entries_due (unat finish) (e # vs) = entries_due (unat finish) (e2 # vs)"
    using l f e(3) by (simp add: entries_due_def)
  ultimately show "loop_at a b from finish flags g s n l k (us @ [e1]) e2 vs True m'"
    using at l h(6) e(3) f m' by (auto simp: loop_at_def)
qed

lemma at_split_last:
  assumes at: "loop_at a b from finish flags g s n l (Suc k) us e vs md m" and b: "b < 2 ^ 64"
    and e: "am_flags e \<noteq> flags" "from \<le> am_start e" "unat from < unat finish" "unat finish < hi e"
    and e1: "e1 = e\<lparr>am_n_elem := finish - am_start e\<rparr>"
    and e2: "e2 = \<lparr>am_start = am_start e + (finish - am_start e), am_n_elem = am_n_elem e - (finish - am_start e), am_flags = am_flags e\<rparr>"
    and m': "m' = m\<lparr>map_queue := us @ e1 # e2 # vs, am_memory := am_memory m - 1\<rparr>"
  shows "0 < finish - am_start e" "finish - am_start e < am_n_elem e" "0 < am_memory m" "am_start e < finish"
    "loop_at a b from finish flags g s n l k us e1 (e2 # vs) True m'"
proof -
  let ?f = "unat from" and ?fin = "unat finish" and ?n = "finish - am_start e"
  have p: "progress a b ?f ?fin flags g (us @ e # vs) (lo e) md" and f: "?f < hi e" "lo e < ?fin"
    using at by (auto simp: loop_at_def)
  have n: "unat ?n = ?fin - lo e" "?f \<le> lo e" using f e(2) by (auto simp: unat_sub word_less_nat_alt word_le_nat_alt)
  show z: "0 < ?n" "?n < am_n_elem e" "am_start e < finish" using n f e(4) by (auto simp: word_less_nat_alt)
  show m: "0 < am_memory m" using at e(4) f by (auto simp: loop_at_def splits_due_def)
  have t: "tiled a (us @ e # vs) b" using p by (simp add: progress_def)
  note h = tiled_split [OF t b z(1,2) e1 e2]
  have l: "hi e1 = ?fin" "lo e2 = ?fin" using h(4,5) n f by simp_all
  have vs: "hi e \<le> lo x" if "x \<in> set vs" for x using t that tiled_bounds [of "hi e" vs b x] by (simp add: tiled_parts)
  have "progress a b ?f ?fin flags g (us @ e1 # e2 # vs) (lo e) True"
    by (rule progress_split [OF p h(1,2)]) (rule progress_changed [OF p e(1) f(1) e(3) f(2)])
  moreover have "splits_due ?f ?fin (e # vs) = Suc (splits_due ?f ?fin (e1 # e2 # vs))"
    using n l h(3) e(4) f vs by (fastforce simp: splits_due_def)
  moreover have "entries_due ?fin (e # vs) = entries_due ?fin (e1 # e2 # vs)"
    using l h(3) f by (simp add: entries_due_def)
  ultimately show "loop_at a b from finish flags g s n l k us e1 (e2 # vs) True m'"
    using at l h(3) e(3) f m' by (auto simp: loop_at_def)
qed

lemma end_here:
  assumes "map_queue m = us @ e # vs" "map_start m = s" "map_n_elem m = n" "length (us @ e # vs) \<le> l" "tiled a (us @ e # vs) b"
    "ok \<Longrightarrow> unat finish \<le> hi e"
    "unat finish \<le> hi e \<Longrightarrow> progress a b (unat from) (unat finish) flags g (us @ e # vs) (unat finish) md"
  shows "loop_end a b from finish flags g s n l ok (Inr ((length us, md), m))"
  unfolding loop_end_def by (rule disjI2, intro exI conjI) (use assms in auto)

lemma good_ends:
  assumes at: "loop_at a b from finish flags g s n l (Suc k) us e vs md m" and e: "am_flags e = flags" and fin: "unat finish \<le> b"
    and ok: "ok \<Longrightarrow> (\<exists>p. unat finish \<le> p \<and> p < b \<and> g p \<noteq> Some flags) \<and> (\<forall>i. junk i \<noteq> finish)"
    and IH: "\<And>us e vs md m. loop_at a b from finish flags g s n l k us e vs md m \<Longrightarrow>
      loop_end a b from finish flags g s n l ok (modify_loop k junk from finish flags (length us) md m)"
  shows "loop_end a b from finish flags g s n l ok (modify_loop (Suc k) junk from finish flags (length us) md m)"
proof -
  have q: "map_queue m = us @ e # vs" "map_start m = s" "map_n_elem m = n" "length (us @ e # vs) \<le> l" "lo e < unat finish"
    and p: "progress a b (unat from) (unat finish) flags g (us @ e # vs) (lo e) md" using at by (auto simp: loop_at_def)
  have t: "tiled a (us @ e # vs) b" "lo e < hi e" using p by (auto simp: progress_def tiled_parts)
  note later = progress_good [OF p e]
  show ?thesis
  proof (cases "junk k = finish")
    case True
    show ?thesis unfolding modify_good [OF q(1) e] using True q t ok later by (auto intro!: end_here)
  next
    case False
    show ?thesis
    proof (cases vs)
      case Nil
      have "\<not> ok" using ok progress_flag [OF p] t q(5) e Nil by (auto simp: tiled_parts)
      then show ?thesis unfolding modify_good [OF q(1) e] using False Nil by (simp add: loop_end_def)
    next
      case (Cons x ws)
      have x: "lo x = hi e" using t Cons by (auto simp: tiled_parts)
      show ?thesis
      proof (cases "lo x < unat finish")
        case True
        have "loop_at a b from finish flags g s n l k (us @ [e]) x ws md m"
          using at later [of "hi e"] t(2) q True Cons by (intro at_next [of _ _ _ _ _ _ _ _ _ _ us e]) auto
        from IH [OF this] show ?thesis unfolding modify_good [OF q(1) e] using False True Cons by (simp add: word_less_nat_alt)
      next
        case past: False
        have "loop_end a b from finish flags g s n l ok (Inr ((length (us @ [e]), md), m))"
          using q t later [of "unat finish"] past x Cons by (intro end_here [of _ _ x ws]) auto
        then show ?thesis unfolding modify_good [OF q(1) e] using False past Cons by (simp add: word_less_nat_alt)
      qed
    qed
  qed
qed

lemma within_ends:
  assumes at: "loop_at a b from finish flags g s n l (Suc k) us e vs md m" and e: "am_flags e \<noteq> flags"
    and fin: "unat finish \<le> b" "b < 2 ^ 64" "unat from < unat finish" and w: "from \<le> am_start e" "hi e \<le> unat finish"
    and IH: "\<And>us e vs md m. loop_at a b from finish flags g s n l k us e vs md m \<Longrightarrow>
      loop_end a b from finish flags g s n l ok (modify_loop k junk from finish flags (length us) md m)"
  shows "loop_end a b from finish flags g s n l ok (modify_loop (Suc k) junk from finish flags (length us) md m)"
proof -
  let ?e = "e\<lparr>am_flags := flags\<rparr>"
  let ?m = "m\<lparr>map_queue := us @ ?e # vs\<rparr>"
  have q: "map_queue m = us @ e # vs" "map_start m = s" "map_n_elem m = n" "length (us @ e # vs) \<le> l" "lo e < unat finish" "unat from < hi e"
    and p: "progress a b (unat from) (unat finish) flags g (us @ e # vs) (lo e) md" using at by (auto simp: loop_at_def)
  have t: "tiled a (us @ e # vs) b" using p by (simp add: progress_def)
  have p': "progress a b (unat from) (unat finish) flags g (us @ ?e # vs) (hi e) True"
    using w(1) progress_changed [OF p e q(6) fin(3) q(5)]
    by (intro progress_set [OF p _ w(2)]) (simp_all add: word_le_nat_alt)
  have u: "unat (am_start e + am_n_elem e) = hi e" using entry_end [OF t fin(2)] .
  note step = modify_within [OF q(1) e w(1) _ refl, of finish k junk]
  have le: "am_start e + am_n_elem e \<le> finish" using u w(2) by (simp add: word_le_nat_alt)
  show ?thesis
  proof (cases "hi e = unat finish")
    case True
    have "loop_end a b from finish flags g s n l ok (Inr ((length us, True), ?m))"
      using q p' True by (intro end_here [of _ _ ?e vs]) (auto simp: progress_def)
    moreover have "am_start e + am_n_elem e = finish" using True u by (simp add: word_unat_eq_iff)
    ultimately show ?thesis using step [OF le] by simp
  next
    case False
    then have ne: "am_start e + am_n_elem e \<noteq> finish" using u by auto
    obtain x ws where vs: "vs = x # ws" using t fin(1) w(2) False by (cases vs) (auto simp: tiled_parts)
    have x: "lo x = hi e" using t vs by (auto simp: tiled_parts)
    have "loop_at a b from finish flags g s n l k (us @ [?e]) x ws True ?m"
      using at p' q x False w(2) vs by (intro at_next [of _ _ _ _ _ _ _ _ _ _ us e]) auto
    from IH [OF this] show ?thesis using step [OF le] ne vs x False w(2) by (simp add: word_less_nat_alt)
  qed
qed

lemma modify_loop_spec:
  assumes fin: "unat finish \<le> b" "b < 2 ^ 64" "unat from < unat finish"
    and ok: "ok \<Longrightarrow> (\<exists>p. unat finish \<le> p \<and> p < b \<and> g p \<noteq> Some flags) \<and> (\<forall>i. junk i \<noteq> finish)"
    and "loop_at a b from finish flags g s n l k us e vs md m"
  shows "loop_end a b from finish flags g s n l ok (modify_loop k junk from finish flags (length us) md m)"
  using assms(5)
proof (induction k arbitrary: us e vs md m)
  case 0
  then show ?case by (auto simp: loop_at_def entries_due_def split: if_splits)
next
  case (Suc k)
  note at = Suc.prems
  have q: "map_queue m = us @ e # vs" and t: "tiled a (us @ e # vs) b" using at by (auto simp: loop_at_def progress_def)
  have u: "unat (am_start e + am_n_elem e) = hi e" using entry_end [OF t fin(2)] .
  consider "am_flags e = flags" | "am_flags e \<noteq> flags" "from \<le> am_start e" "hi e \<le> unat finish"
    | "am_flags e \<noteq> flags" "am_start e < from" | "am_flags e \<noteq> flags" "from \<le> am_start e" "unat finish < hi e"
    by force
  then show ?case
  proof cases
    case 1
    then show ?thesis by (rule good_ends [OF at _ fin(1) ok Suc.IH])
  next
    case 2
    then show ?thesis by (intro within_ends [OF at _ fin _ _ Suc.IH])
  next
    case 3
    note h = at_split_first [OF at fin(2) 3 fin(3) refl refl refl]
    from Suc.IH [OF h(5)] show ?thesis using modify_first [OF q 3 h(1-3) refl refl refl] h(4) by simp
  next
    case 4
    note h = at_split_last [OF at fin(2) 4(1,2) fin(3) 4(3) refl refl refl]
    have f: "finish < am_start e + am_n_elem e" using u 4(3) by (simp add: word_less_nat_alt)
    from Suc.IH [OF h(5)] show ?thesis using modify_last [OF q 4(1,2) f h(1-4) refl refl refl] by simp
  qed
qed

section \<open>The whole operations\<close>

text \<open>A range of at least one address inside the map.\<close>

definition range_in :: "amap \<Rightarrow> u64w \<Rightarrow> u64w \<Rightarrow> bool" where
  "range_in m from n \<longleftrightarrow> unat (map_start m) \<le> unat from \<and> 0 < unat n \<and>
     unat from + unat n \<le> unat (map_start m) + unat (map_n_elem m)"

lemma range_in_words:
  assumes "amap_ok m" "range_in m from n"
  shows "unat (from + n) = unat from + unat n" "\<not> out_of_range m from n"
    "unat (map_start m + map_n_elem m) = unat (map_start m) + unat (map_n_elem m)"
proof -
  show 1: "unat (from + n) = unat from + unat n" using assms by (intro word_end) (auto simp: amap_ok_def range_in_def)
  show 2: "unat (map_start m + map_n_elem m) = unat (map_start m) + unat (map_n_elem m)"
    using assms by (intro word_end) (auto simp: amap_ok_def)
  show "\<not> out_of_range m from n"
    using assms(2) 1 2 by (auto simp: out_of_range_def range_in_def word_less_nat_alt word_le_nat_alt)
qed

lemma rejoin_range_spec:
  assumes m: "amap_ok m" "range_in m from n" and k: "length (map_queue m) \<le> k"
    and b: "b = unat (map_start m) + unat (map_n_elem m)"
  shows "if flags_change (map_queue m) (unat from + unat n) b
    then \<exists>m'. rejoin_range k from n m = Inr (EOK, m') \<and> same_map (unat (map_start m)) b m m'
    else \<exists>s. rejoin_range k from n m = Inl (Panic s)"
proof -
  have t: "tiled (unat (map_start m)) (map_queue m) b" "b < 2 ^ 64" using m b by (simp_all add: amap_ok_def)
  have r: "unat (map_start m) \<le> unat from" "unat from < b" "unat from + unat n \<le> b" "0 < unat n"
    using m(2) b by (auto simp: range_in_def)
  obtain us e vs where q: "map_queue m = us @ e # vs" "find_entry from (map_queue m) = Some (length us)"
      "lo e \<le> unat from" "unat from < hi e"
    using find_entry_spec [OF t r(1,2)] by blast
  note w = range_in_words [OF m]
  have "if flags_change (map_queue m) (unat (from + n)) b
    then \<exists>m'. rejoin_loop k (from + n) (length us) m = Inr ((), m') \<and> same_map (unat (map_start m)) b m m'
    else \<exists>s. rejoin_loop k (from + n) (length us) m = Inl (Panic s)"
    using t q r k w(1) by (intro rejoin_loop_spec [of _ _ e vs]) auto
  then show ?thesis using q(2) w by (auto simp: rejoin_range_def bindE_apply thenE_apply split: if_splits)
qed

lemma modify_outcome:
  assumes m: "amap_ok m" "range_in m from n" and k: "length (map_queue m) + 2 \<le> k" "2 \<le> am_memory m"
    and b: "b = unat (map_start m) + unat (map_n_elem m)"
    and ok: "ok \<Longrightarrow> (\<exists>p. unat from + unat n \<le> p \<and> p < b \<and> flag_at (map_queue m) p \<noteq> Some flags) \<and> (\<forall>i. junk i \<noteq> from + n)"
  shows "\<exists>us e vs. map_queue m = us @ e # vs \<and> find_entry from (map_queue m) = Some (length us) \<and>
    loop_end (unat (map_start m)) b from (from + n) flags (flag_at (map_queue m)) (map_start m) (map_n_elem m) k ok
      (modify_loop k junk from (from + n) flags (length us) False m)"
proof -
  have t: "tiled (unat (map_start m)) (map_queue m) b" "b < 2 ^ 64" using m b by (simp_all add: amap_ok_def)
  have r: "unat (map_start m) \<le> unat from" "unat from < b" "unat from + unat n \<le> b" "0 < unat n"
    using m(2) b by (auto simp: range_in_def)
  obtain us e vs where q: "map_queue m = us @ e # vs" "find_entry from (map_queue m) = Some (length us)"
      "lo e \<le> unat from" "unat from < hi e"
    using find_entry_spec [OF t r(1,2)] by blast
  note w = range_in_words [OF m]
  let ?g = "flag_at (map_queue m)"
  have p: "progress (unat (map_start m)) b (unat from) (unat (from + n)) flags ?g (us @ e # vs) (lo e) False"
    using t q by (auto simp: progress_def)
  have s: "splits_due (unat from) (unat (from + n)) (e # vs) \<le> 2" "entries_due (unat (from + n)) (e # vs) \<le> Suc (length vs)"
    using length_filter_le [of "\<lambda>x. lo x < unat (from + n)" "e # vs"] by (auto simp: splits_due_def entries_due_def)
  have "loop_at (unat (map_start m)) b from (from + n) flags ?g (map_start m) (map_n_elem m) k k us e vs False m"
    unfolding loop_at_def using p s k q w(1) r by auto
  then have "loop_end (unat (map_start m)) b from (from + n) flags ?g (map_start m) (map_n_elem m) k ok
      (modify_loop k junk from (from + n) flags (length us) False m)"
    using t(2) r w(1) ok by (intro modify_loop_spec) auto
  then show ?thesis using q by blast
qed

section \<open>Checking\<close>

lemma check_loop_spec:
  "check_loop flags addr n es = EOK \<longleftrightarrow>
     (\<exists>us e vs. es = us @ e # vs \<and> (\<forall>x\<in>set (us @ [e]). am_flags x = flags) \<and> am_start e + am_n_elem e = addr + n)"
proof (induction es arbitrary: addr n)
  case (Cons e es)
  have split: "(\<exists>us x vs. e # es = us @ x # vs \<and> P us x) \<longleftrightarrow> P [] e \<or> (\<exists>us x vs. es = us @ x # vs \<and> P (e # us) x)" for P
    by (auto simp: Cons_eq_append_conv)
  show ?case unfolding split using Cons.IH [of "am_start e + am_n_elem e" "addr + n - (am_start e + am_n_elem e)"]
    by (auto simp: Let_def)
qed simp

lemma flags_between:
  assumes "tiled c (us @ e # vs) b"
  shows "(\<forall>x\<in>set (us @ [e]). am_flags x = flags) \<longleftrightarrow> (\<forall>p. c \<le> p \<and> p < hi e \<longrightarrow> flag_at (us @ e # vs) p = Some flags)"
  using assms
proof (induction us arbitrary: c)
  case Nil
  then show ?case by (auto intro!: exI [of _ c])
next
  case (Cons u us)
  let ?q = "us @ e # vs"
  have t: "lo u = c" "c < hi u" "tiled (hi u) ?q b" using Cons.prems by auto
  have e: "hi u < hi e" using tiled_bounds [OF t(3), of e] t(3) by (auto simp: tiled_parts)
  have f: "flag_at (u # ?q) p = (if c \<le> p \<and> p < hi u then Some (am_flags u) else flag_at ?q p)" for p using t(1) by simp
  have "am_flags u = flags \<and> (\<forall>p. hi u \<le> p \<and> p < hi e \<longrightarrow> flag_at ?q p = Some flags)"
    if a: "\<forall>p. c \<le> p \<and> p < hi e \<longrightarrow> flag_at (u # ?q) p = Some flags"
  proof (intro conjI allI impI)
    show "am_flags u = flags" using spec [OF a, of c] f [of c] t(2) e by simp
    show "flag_at ?q p = Some flags" if "hi u \<le> p \<and> p < hi e" for p using spec [OF a, of p] f [of p] t(2) that by simp
  qed
  moreover have "flag_at (u # ?q) p = Some flags"
    if "am_flags u = flags" "\<forall>p. hi u \<le> p \<and> p < hi e \<longrightarrow> flag_at ?q p = Some flags" "c \<le> p" "p < hi e" for p
    using that f [of p] by (cases "p < hi u") auto
  ultimately have "(\<forall>p. c \<le> p \<and> p < hi e \<longrightarrow> flag_at (u # ?q) p = Some flags) \<longleftrightarrow>
      am_flags u = flags \<and> (\<forall>p. hi u \<le> p \<and> p < hi e \<longrightarrow> flag_at ?q p = Some flags)"
    by blast
  then show ?case using Cons.IH [OF t(3)] by simp
qed

lemma flagged_from:
  assumes te: "tiled (lo e) (e # vs) b" and a: "lo e \<le> a" "a < hi e" "a < fin" and x: "e # vs = xs @ x # ys" "hi x = fin"
  shows "(\<forall>x\<in>set (xs @ [x]). am_flags x = flags) \<longleftrightarrow> (\<forall>p. a \<le> p \<and> p < fin \<longrightarrow> flag_at (e # vs) p = Some flags)"
proof -
  have "flag_at (e # vs) p = Some flags"
    if "\<forall>p. a \<le> p \<and> p < fin \<longrightarrow> flag_at (e # vs) p = Some flags" "lo e \<le> p" "p < fin" for p
  proof (cases "p < a")
    case True
    then have "flag_at (e # vs) p = flag_at (e # vs) a" using that(2) a by simp
    then show ?thesis using that(1) a(3) by simp
  qed (use that in \<open>auto simp del: flag_at.simps\<close>)
  then have "(\<forall>p. a \<le> p \<and> p < fin \<longrightarrow> flag_at (e # vs) p = Some flags) \<longleftrightarrow> (\<forall>p. lo e \<le> p \<and> p < fin \<longrightarrow> flag_at (e # vs) p = Some flags)"
    using a(1) by (meson le_trans)
  then show ?thesis using flags_between [OF te [unfolded x(1)], of flags] x by simp
qed

text \<open>
  What follows the loop: the map panics when the loop ended early or no flags change after the range,
  and otherwise has the new flags.
\<close>

lemma modify_finishes:
  assumes m: "amap_ok m" "range_in m from n" and k: "length (map_queue m) + 2 \<le> k" "2 \<le> am_memory m"
    and b: "b = unat (map_start m) + unat (map_n_elem m)"
    and ok: "ok \<Longrightarrow> (\<exists>p. unat from + unat n \<le> p \<and> p < b \<and> flag_at (map_queue m) p \<noteq> Some flags) \<and> (\<forall>i. junk i \<noteq> from + n)"
  shows "(\<exists>s. amap_check_modify k junk from n flags m = Inl (Panic s) \<and> \<not> ok) \<or>
    (\<exists>m1 md. range_in m1 from n \<and> amap_ok m1 \<and> length (map_queue m1) \<le> k \<and> map_start m1 = map_start m \<and> map_n_elem m1 = map_n_elem m \<and>
      progress (unat (map_start m)) b (unat from) (unat from + unat n) flags (flag_at (map_queue m)) (map_queue m1) (unat from + unat n) md \<and>
      amap_check_modify k junk from n flags m = thenE (rejoin_range k from n) (ret (EOK, md)) m1)"
proof -
  note w = range_in_words [OF m]
  have b': "b < 2 ^ 64" using m b by (simp add: amap_ok_def)
  obtain us e vs where q: "map_queue m = us @ e # vs" "find_entry from (map_queue m) = Some (length us)"
    and l: "loop_end (unat (map_start m)) b from (from + n) flags (flag_at (map_queue m)) (map_start m) (map_n_elem m) k ok
      (modify_loop k junk from (from + n) flags (length us) False m)"
    using modify_outcome [OF m k b ok] by blast
  let ?r = "modify_loop k junk from (from + n) flags (length us) False m"
  have ev: "amap_check_modify k junk from n flags m =
    bindE (\<lambda>_. ?r) (\<lambda>(j, md). bindE (entry_at j) (\<lambda>e.
           if am_start e + am_n_elem e < from + n then raise (Panic ''AMAP - finished before'')
           else thenE (rejoin_range k from n) (ret (EOK, md)))) m"
    using w(2) q(2) by (simp add: amap_check_modify_def bindE_apply)
  from l consider (panic) s where "?r = Inl (Panic s)" "\<not> ok"
    | (fin) us1 e1 vs1 md m1 where "?r = Inr ((length us1, md), m1)" "map_queue m1 = us1 @ e1 # vs1"
      "map_start m1 = map_start m" "map_n_elem m1 = map_n_elem m" "length (us1 @ e1 # vs1) \<le> k"
      "tiled (unat (map_start m)) (us1 @ e1 # vs1) b" "ok \<longrightarrow> unat (from + n) \<le> hi e1"
      "unat (from + n) \<le> hi e1 \<longrightarrow> progress (unat (map_start m)) b (unat from) (unat (from + n)) flags
        (flag_at (map_queue m)) (us1 @ e1 # vs1) (unat (from + n)) md"
    unfolding loop_end_def by blast
  then show ?thesis
  proof cases
    case panic
    then show ?thesis by (simp add: ev bindE_apply)
  next
    case fin
    have e1: "unat (am_start e1 + am_n_elem e1) = hi e1" using entry_end [OF fin(6) b'] .
    show ?thesis
    proof (cases "unat (from + n) \<le> hi e1")
      case True
      have "amap_check_modify k junk from n flags m = thenE (rejoin_range k from n) (ret (EOK, md)) m1"
        using True e1 fin(1) by (simp add: ev bindE_apply entry_at_eval [OF fin(2)] word_less_nat_alt)
      moreover have "amap_ok m1" "range_in m1 from n"
        using fin(2-4,6) m b b' by (simp_all add: amap_ok_def range_in_def)
      ultimately show ?thesis using True fin(2-5,8) w(1)
        by (intro disjI2 exI [of _ m1] exI [of _ md]) auto
    next
      case False
      then have "amap_check_modify k junk from n flags m = Inl (Panic ''AMAP - finished before'')"
        using e1 fin(1) by (simp add: ev bindE_apply entry_at_eval [OF fin(2)] word_less_nat_alt)
      then show ?thesis using False fin(7) by auto
    qed
  qed
qed

text \<open>
  C31. \<^verbatim>\<open>amap_check_modify\<close> sets the flags of a range. Let the range be nonempty and inside a
  well-formed map below $2^{64}$, let there be memory for two entries, let some address after the
  range not have the new flags, and let the uninitialised \<^verbatim>\<open>e_finish\<close> (the code reads it after a \<^verbatim>\<open>goto\<close>
  over its initialisation) never happen to be the end of the range. Then the call returns without an
  error within two iterations more than there are entries. The map stays well-formed, the
  addresses of the range have the new flags, every other address keeps its flags, and the call
  tells whether the flags of some address changed.
\<close>

theorem amap_modify_correct:
  assumes m: "amap_ok m" "range_in m from n" and k: "length (map_queue m) + 2 \<le> k" "2 \<le> am_memory m"
    and p: "unat from + unat n \<le> p" "p < unat (map_start m) + unat (map_n_elem m)" "flag_at (map_queue m) p \<noteq> Some flags"
    and junk: "\<And>i. junk i \<noteq> from + n"
  shows "\<exists>m'. amap_check_modify k junk from n flags m =
      Inr ((EOK, \<exists>a. unat from \<le> a \<and> a < unat from + unat n \<and> flag_at (map_queue m) a \<noteq> Some flags), m') \<and>
    amap_ok m' \<and> map_start m' = map_start m \<and> map_n_elem m' = map_n_elem m \<and>
    flag_at (map_queue m') = (\<lambda>a. if unat from \<le> a \<and> a < unat from + unat n then Some flags else flag_at (map_queue m) a)"
proof -
  let ?b = "unat (map_start m) + unat (map_n_elem m)" and ?f = "unat from" and ?fin = "unat from + unat n"
  obtain m1 md where r: "range_in m1 from n" "amap_ok m1" "length (map_queue m1) \<le> k" and s: "map_start m1 = map_start m" "map_n_elem m1 = map_n_elem m"
    and g: "progress (unat (map_start m)) ?b ?f ?fin flags (flag_at (map_queue m)) (map_queue m1) ?fin md"
    and ev: "amap_check_modify k junk from n flags m = thenE (rejoin_range k from n) (ret (EOK, md)) m1"
    using modify_finishes [OF m k refl, of True flags junk] p junk by blast
  have q: "flag_at (map_queue m1) = (\<lambda>a. if ?f \<le> a \<and> a < ?fin then Some flags else flag_at (map_queue m) a)"
    and md: "md = (\<exists>a. ?f \<le> a \<and> a < ?fin \<and> flag_at (map_queue m) a \<noteq> Some flags)"
    using g by (auto simp: progress_def)
  have "0 < unat n" using m(2) by (simp add: range_in_def)
  then have i: "?f \<le> ?fin - 1 \<and> ?fin - 1 < ?fin" by linarith
  have last: "flag_at (map_queue m1) (?fin - 1) = Some flags" by (simp only: q i if_True simp_thms)
  have c: "flags_change (map_queue m1) ?fin ?b" unfolding flags_change_def last using p by (intro exI [of _ p]) (simp add: q)
  obtain m' where m': "rejoin_range k from n m1 = Inr (EOK, m')" "same_map (unat (map_start m)) ?b m1 m'"
    using rejoin_range_spec [OF r(2,1,3) refl] c by (auto simp: s)
  then have "amap_check_modify k junk from n flags m = Inr ((EOK, md), m')" by (simp add: ev thenE_apply)
  moreover have "map_queue m' \<noteq> []" using m'(2) m(2) by (auto simp: same_map_def range_in_def)
  then have "amap_ok m'" using m'(2) r(2) s by (auto simp: same_map_def amap_ok_def)
  ultimately show ?thesis using m'(2) q md s by (simp add: same_map_def)
qed

text \<open>A map of ten addresses from 100 on, of which 103 and 104 are taken.\<close>

definition sample_map :: amap where
  "sample_map = \<lparr>map_start = 100, map_n_elem = 10,
     map_queue = [\<lparr>am_start = 100, am_n_elem = 3, am_flags = 0\<rparr>, \<lparr>am_start = 103, am_n_elem = 2, am_flags = 1\<rparr>,
       \<lparr>am_start = 105, am_n_elem = 5, am_flags = 0\<rparr>], am_memory = 2\<rparr>"

lemma sample_map_ok: "amap_ok sample_map"
  by (simp add: amap_ok_def sample_map_def)

theorem amap_modify_correct_witness:
  "\<exists>m'. amap_check_modify 5 (\<lambda>_. 0) 102 4 1 sample_map = Inr ((EOK, True), m') \<and> amap_ok m' \<and>
     flag_at (map_queue m') 102 = Some 1 \<and> flag_at (map_queue m') 105 = Some 1 \<and>
     flag_at (map_queue m') 101 = Some 0 \<and> flag_at (map_queue m') 106 = Some 0"
proof -
  have "range_in sample_map 102 4" "length (map_queue sample_map) + 2 \<le> 5" "2 \<le> am_memory sample_map"
    "unat (102 :: u64w) + unat (4 :: u64w) \<le> 106"
    "106 < unat (map_start sample_map) + unat (map_n_elem sample_map)" "flag_at (map_queue sample_map) 106 \<noteq> Some 1"
    "\<And>i :: nat. (\<lambda>_. 0) i \<noteq> (102 :: u64w) + 4"
    by (simp_all add: range_in_def sample_map_def)
  note r = amap_modify_correct [OF sample_map_ok this]
  have "\<exists>a. unat (102 :: u64w) \<le> a \<and> a < unat (102 :: u64w) + unat (4 :: u64w) \<and> flag_at (map_queue sample_map) a \<noteq> Some 1"
    by (rule exI [of _ 102]) (simp add: sample_map_def)
  with r show ?thesis by (auto simp: sample_map_def)
qed

text \<open>
  C32. On a nonempty range inside a well-formed map, and with memory for two entries, \<^verbatim>\<open>amap_modify\<close>
  panics when every address after the range has the new flags already, in particular
  whenever the range ends where the map ends: \<^verbatim>\<open>rejoin_range\<close> joins entries until it finds one
  that starts behind the range, and there is none. This holds for every value of the
  uninitialised \<^verbatim>\<open>e_finish\<close>.
\<close>

theorem amap_modify_to_end_panics:
  assumes m: "amap_ok m" "range_in m from n" and k: "length (map_queue m) + 2 \<le> k" "2 \<le> am_memory m"
    and p: "\<And>p. unat from + unat n \<le> p \<Longrightarrow> p < unat (map_start m) + unat (map_n_elem m) \<Longrightarrow> flag_at (map_queue m) p = Some flags"
  shows "\<exists>s. amap_modify k junk from n flags m = Inl (Panic s)"
proof -
  let ?b = "unat (map_start m) + unat (map_n_elem m)" and ?f = "unat from" and ?fin = "unat from + unat n"
  have "\<exists>s. amap_check_modify k junk from n flags m = Inl (Panic s)"
  proof (rule disjE [OF modify_finishes [OF m k refl, of False flags junk]], goal_cases)
    case 3
    then obtain m1 md where r: "range_in m1 from n" "amap_ok m1" "length (map_queue m1) \<le> k" and s: "map_start m1 = map_start m" "map_n_elem m1 = map_n_elem m"
      and g: "progress (unat (map_start m)) ?b ?f ?fin flags (flag_at (map_queue m)) (map_queue m1) ?fin md"
      and ev: "amap_check_modify k junk from n flags m = thenE (rejoin_range k from n) (ret (EOK, md)) m1"
      by blast
    have q: "flag_at (map_queue m1) a = Some flags" if "?f \<le> a" "a < ?b" for a
      using g p [of a] that by (auto simp: progress_def)
    have "\<not> flags_change (map_queue m1) ?fin ?b"
      using m(2) q q [of "?fin - 1"] by (auto simp: flags_change_def range_in_def)
    then obtain t where "rejoin_range k from n m1 = Inl (Panic t)"
      using rejoin_range_spec [OF r(2,1,3) refl] by (auto simp: s)
    then show ?case by (simp add: ev thenE_apply)
  qed auto
  then show ?thesis by (auto simp: amap_modify_def bindE_apply)
qed

theorem amap_modify_to_end_panics_witness:
  "\<exists>s. amap_modify 5 (\<lambda>_. 0) 103 7 1 sample_map = Inl (Panic s)"
proof -
  have "range_in sample_map 103 7" "length (map_queue sample_map) + 2 \<le> 5" "2 \<le> am_memory sample_map"
    by (simp_all add: range_in_def sample_map_def)
  then show ?thesis by (intro amap_modify_to_end_panics [OF sample_map_ok]) (simp_all add: sample_map_def)
qed

text \<open>
  C33. \<^verbatim>\<open>amap_check\<close> of a nonempty range inside a well-formed map succeeds exactly when every address of
  the range has the flags and an entry of the map ends where the range ends. A range that ends
  inside an entry is refused, because the rest of the range is unsigned and never below zero.
\<close>

theorem amap_check_exact:
  assumes m: "amap_ok m" "range_in m addr n"
  shows "amap_check m addr n flags = EOK \<longleftrightarrow>
    (\<forall>p. unat addr \<le> p \<and> p < unat addr + unat n \<longrightarrow> flag_at (map_queue m) p = Some flags) \<and>
    (\<exists>e\<in>set (map_queue m). hi e = unat addr + unat n)"
proof -
  let ?b = "unat (map_start m) + unat (map_n_elem m)" and ?fin = "unat addr + unat n" and ?g = "flag_at (map_queue m)"
  have t: "tiled (unat (map_start m)) (map_queue m) ?b" "?b < 2 ^ 64" using m by (simp_all add: amap_ok_def)
  have r: "unat (map_start m) \<le> unat addr" "unat addr < ?b" "unat addr < ?fin" using m(2) by (auto simp: range_in_def)
  obtain us e vs where q: "map_queue m = us @ e # vs" "find_entry addr (map_queue m) = Some (length us)"
      "lo e \<le> unat addr" "unat addr < hi e"
    using find_entry_spec [OF t r(1,2)] by blast
  have te: "tiled (unat (map_start m)) us (lo e)" "tiled (lo e) (e # vs) ?b" using t q by (auto simp: tiled_parts)
  have g: "?g p = flag_at (e # vs) p" if "lo e \<le> p" for p
    using flag_at_append [OF te(1), of "e # vs" p] that q(1) by simp
  have ends: "am_start x + am_n_elem x = addr + n \<longleftrightarrow> hi x = ?fin" if "x \<in> set (e # vs)" for x
    using tiled_bounds [OF te(2) that] t(2) range_in_words(1) [OF m] by (simp add: word_unat_eq_iff word_end)
  have before: "hi x \<noteq> ?fin" if "x \<in> set us" for x using tiled_bounds [OF te(1) that] q(3) r(3) by auto
  have flagged: "(\<forall>x\<in>set (xs @ [x]). am_flags x = flags) \<longleftrightarrow> (\<forall>p. unat addr \<le> p \<and> p < ?fin \<longrightarrow> ?g p = Some flags)"
    if "e # vs = xs @ x # ys" "hi x = ?fin" for xs x ys
    using flagged_from [OF te(2) q(3,4) r(3) that] g q(3) by auto
  have "amap_check m addr n flags = check_loop flags addr n (e # vs)"
    using q range_in_words(2) [OF m] by (simp add: amap_check_def)
  also have "\<dots> = EOK \<longleftrightarrow> (\<exists>xs x ys. e # vs = xs @ x # ys \<and> (\<forall>x\<in>set (xs @ [x]). am_flags x = flags) \<and> hi x = ?fin)"
    unfolding check_loop_spec using ends by (metis in_set_conv_decomp)
  also have "\<dots> \<longleftrightarrow> (\<forall>p. unat addr \<le> p \<and> p < ?fin \<longrightarrow> ?g p = Some flags) \<and> (\<exists>xs x ys. e # vs = xs @ x # ys \<and> hi x = ?fin)"
    using flagged by blast
  also have "(\<exists>xs x ys. e # vs = xs @ x # ys \<and> hi x = ?fin) \<longleftrightarrow> (\<exists>x\<in>set (e # vs). hi x = ?fin)"
    by (metis in_set_conv_decomp)
  also have "\<dots> \<longleftrightarrow> (\<exists>x\<in>set (map_queue m). hi x = ?fin)" using before q(1) by auto
  finally show ?thesis by simp
qed

theorem amap_check_exact_witness:
  "amap_check sample_map 103 2 1 = EOK \<and> amap_check sample_map 103 1 1 \<noteq> EOK"
proof -
  have r: "range_in sample_map 103 2" "range_in sample_map 103 1" by (simp_all add: range_in_def sample_map_def)
  have "amap_check sample_map 103 2 1 = EOK"
    unfolding amap_check_exact [OF sample_map_ok r(1)] by (auto simp: sample_map_def)
  moreover have "amap_check sample_map 103 1 1 \<noteq> EOK"
    unfolding amap_check_exact [OF sample_map_ok r(2)] by (auto simp: sample_map_def)
  ultimately show ?thesis by simp
qed

end
