(* ===== verification/Kernel_Pool.thy ===== *)
theory Kernel_Pool
  imports Errno_Codes
begin

text \<open>
  The pools of kernel structures (\<^verbatim>\<open>libphantom/pool.c\<close>): arenas of counted elements, which clients name by
  handles of a pool number, an arena and a place in it. A pointer to an element is a number, zero is no element.
  The operations keep the counts of the arenas right, an element is found under the handle it was created with, and
  a pool that is full, or an arena that is full, makes creation and release fail.
\<close>

section \<open>Handles\<close>

type_synonym pool_handle = "32 word"

definition handle_2_magic :: "pool_handle \<Rightarrow> 32 word" where
  "handle_2_magic h = drop_bit 24 h AND 0xFF"

definition handle_2_arena :: "pool_handle \<Rightarrow> nat" where
  "handle_2_arena h = unat (drop_bit 16 h AND 0xFF)"

definition handle_2_elem :: "pool_handle \<Rightarrow> nat" where
  "handle_2_elem h = unat (h AND 0xFFFF)"

definition mk_handle :: "32 word \<Rightarrow> nat \<Rightarrow> nat \<Rightarrow> pool_handle" where
  "mk_handle mg a e = push_bit 24 (mg AND 0xFF) OR push_bit 16 (of_nat a AND 0xFF) OR (of_nat e AND 0xFFFF)"

section \<open>Pools\<close>

record pool_arena =
  ptrs :: "nat list"
  refc :: "int list"
  arena_size :: nat
  nused :: nat

text \<open>
  The pool's \<^verbatim>\<open>init\<close> is the function that gives the element for an argument. Its \<^verbatim>\<open>destroy\<close> is known by
  whether it is set and by the elements it was called on.
\<close>

record pool =
  pool_init :: "(nat \<Rightarrow> nat) option"
  has_destroy :: bool
  destroyed :: "nat list"
  arenas :: "pool_arena list"
  narenas :: nat
  magic :: "32 word"
  last_handle :: pool_handle
  flag_autoclean :: bool
  flag_autodestroy :: bool
  flag_nofail :: bool

type_synonym 'a pl = "(pool, 'a) comp"

section \<open>Arenas\<close>

definition arena_at :: "nat \<Rightarrow> pool_arena pl" where
  "arena_at i = bindE (gets arenas) (\<lambda>as. if i < length as then ret (as ! i) else raise Out_of_bounds)"

definition set_arena :: "nat \<Rightarrow> pool_arena \<Rightarrow> unit pl" where
  "set_arena i a = modify (\<lambda>p. p\<lparr>arenas := (arenas p)[i := a]\<rparr>)"

definition ptr_at :: "pool_arena \<Rightarrow> nat \<Rightarrow> nat pl" where
  "ptr_at a j = (if j < length (ptrs a) then ret (ptrs a ! j) else raise Out_of_bounds)"

definition ref_at :: "pool_arena \<Rightarrow> nat \<Rightarrow> int pl" where
  "ref_at a j = (if j < length (refc a) then ret (refc a ! j) else raise Out_of_bounds)"

definition set_ref :: "nat \<Rightarrow> nat \<Rightarrow> int \<Rightarrow> unit pl" where
  "set_ref i j c = bindE (arena_at i) (\<lambda>a. bindE (ref_at a j) (\<lambda>_.
     set_arena i (a\<lparr>refc := (refc a)[j := c]\<rparr>)))"

definition alloc_arena :: "nat \<Rightarrow> nat list \<Rightarrow> pool_arena" where
  "alloc_arena sz ps = \<lparr>ptrs = take sz ps @ replicate (sz - length ps) 0, refc = replicate sz 0, arena_size = sz, nused = 0\<rparr>"

definition alloc_arenas :: "nat \<Rightarrow> nat \<Rightarrow> pool option \<Rightarrow> pool_arena list" where
  "alloc_arenas sz n init = map (\<lambda>i. case init of
       None \<Rightarrow> alloc_arena sz []
     | Some p \<Rightarrow> if i < narenas p then alloc_arena sz (ptrs (arenas p ! i)) else alloc_arena sz []) [0..<n]"

text \<open>The state of \<^verbatim>\<open>create_pool_ext\<close> is the number of the next pool.\<close>

definition create_pool_ext :: "int \<Rightarrow> int \<Rightarrow> (32 word, pool) comp" where
  "create_pool_ext inital_elems asize =
     (let n = max inital_elems asize in
      thenE (assertE ''arena_size > 0'' (asize > 0))
     (bindE (gets id) (\<lambda>mg. thenE (modify (\<lambda>mg. mg + 1))
     (let na = 1 + (n - 1) div asize in
      thenE (assertE ''p->narenas < 256'' (na < 256))
     (ret \<lparr>pool_init = None, has_destroy = False, destroyed = [], arenas = alloc_arenas (nat asize) (nat na) None,
        narenas = nat na, magic = mg, last_handle = 0, flag_autoclean = False, flag_autodestroy = True, flag_nofail = False\<rparr>)))))"

definition create_pool :: "(32 word, pool) comp" where
  "create_pool = create_pool_ext 512 256"

text \<open>The new arenas are installed, and the number of arenas stays.\<close>

definition resize_pool :: "nat \<Rightarrow> unit pl" where
  "resize_pool n =
     thenE (assertE ''narenas > 0'' (n > 0))
    (bindE (gets narenas) (\<lambda>k. thenE (assertE ''narenas > p->narenas'' (n > k))
    (bindE (arena_at 0) (\<lambda>a. modify (\<lambda>p. p\<lparr>arenas := alloc_arenas (arena_size a) n (Some p)\<rparr>)))))"

definition pool_get_free :: "pool \<Rightarrow> int" where
  "pool_get_free p = (\<Sum>a\<leftarrow>take (narenas p) (arenas p). int (arena_size a) - int (nused a))"

definition pool_get_used :: "pool \<Rightarrow> nat" where
  "pool_get_used p = (\<Sum>a\<leftarrow>take (narenas p) (arenas p). nused a)"

section \<open>Elements\<close>

definition check_magic :: "pool_handle \<Rightarrow> unit pl" where
  "check_magic h = bindE (gets magic) (\<lambda>mg. if mg \<noteq> handle_2_magic h then raise (Panic ''arena magic'') else ret ())"

definition get_arena :: "nat \<Rightarrow> pool_arena pl" where
  "get_arena na = bindE (gets narenas) (\<lambda>n. if na > n then raise (Panic ''arena id is wrong'') else arena_at na)"

definition check_el :: "pool_arena \<Rightarrow> nat \<Rightarrow> unit pl" where
  "check_el a ne = (if ne > arena_size a then raise (Panic ''arena el is wrong'') else ret ())"

definition check_zero :: "pool_arena \<Rightarrow> nat \<Rightarrow> unit pl" where
  "check_zero a ne = bindE (ptr_at a ne) (\<lambda>q. if q = 0 then raise (Panic ''arena el is zero'') else ret ())"

definition check_ref :: "pool_arena \<Rightarrow> nat \<Rightarrow> unit pl" where
  "check_ref a ne = bindE (ref_at a ne) (\<lambda>c. if c \<le> 0 then raise (Panic ''arena el ref <= 0'') else ret ())"

definition pool_get_el :: "pool_handle \<Rightarrow> nat pl" where
  "pool_get_el h = thenE (check_magic h)
     (let na = handle_2_arena h; ne = handle_2_elem h in
      bindE (get_arena na) (\<lambda>a. thenE (check_el a ne) (thenE (check_zero a ne) (thenE (check_ref a ne)
     (bindE (ref_at a ne) (\<lambda>c. thenE (set_ref na ne (c + 1)) (ptr_at a ne)))))))"

definition pool_el_refcount :: "pool_handle \<Rightarrow> int pl" where
  "pool_el_refcount h =
     (let na = handle_2_arena h; ne = handle_2_elem h in
      bindE (get_arena na) (\<lambda>a. thenE (check_el a ne) (thenE (check_zero a ne) (thenE (check_ref a ne) (ref_at a ne)))))"

definition pool_el_exist :: "pool_handle \<Rightarrow> bool pl" where
  "pool_el_exist h =
     (let na = handle_2_arena h; ne = handle_2_elem h in
      bindE (get_arena na) (\<lambda>a. thenE (check_el a ne)
     (bindE (ptr_at a ne) (\<lambda>q. if q = 0 then ret False else bindE (ref_at a ne) (\<lambda>c. ret (c > 0))))))"

definition do_destroy_el :: "nat \<Rightarrow> nat \<Rightarrow> errno pl" where
  "do_destroy_el na ne = bindE (arena_at na) (\<lambda>a. bindE (ref_at a ne) (\<lambda>c. bindE (gets flag_nofail) (\<lambda>nf.
     if \<not> nf \<and> c \<noteq> 0 then ret ENOENT
     else thenE (assertE ''a->refc[ne] == 0'' (c = 0))
    (thenE (assertE ''a->nused > 0'' (nused a > 0))
    (thenE (assertE ''a->nused < a->arena_size'' (nused a < arena_size a))
    (bindE (ptr_at a ne) (\<lambda>q. thenE (assertE ''a->ptrs[ne]'' (q \<noteq> 0))
    (thenE (modify (\<lambda>p. if has_destroy p then p\<lparr>destroyed := destroyed p @ [q]\<rparr> else p))
    (thenE (set_arena na (a\<lparr>ptrs := (ptrs a)[ne := 0], nused := nused a - 1\<rparr>)) (ret EOK))))))))))"

definition do_dec_refcnt :: "nat \<Rightarrow> nat \<Rightarrow> errno pl" where
  "do_dec_refcnt na ne = bindE (arena_at na) (\<lambda>a. bindE (ref_at a ne) (\<lambda>c.
     thenE (set_ref na ne (c - 1))
    (bindE (gets flag_autodestroy) (\<lambda>ad. if ad \<and> c - 1 = 0 then do_destroy_el na ne else ret EOK))))"

definition pool_release_el :: "pool_handle \<Rightarrow> errno pl" where
  "pool_release_el h = thenE (check_magic h)
     (let na = handle_2_arena h; ne = handle_2_elem h in
      bindE (get_arena na) (\<lambda>a. thenE (check_el a ne) (thenE (check_zero a ne)
     (bindE (gets flag_nofail) (\<lambda>nf. bindE (ref_at a ne) (\<lambda>c.
      if nf then thenE (assertE ''a->refc[ne] > 0'' (c > 0)) (do_dec_refcnt na ne)
      else if c \<le> 0 then ret ENOENT else do_dec_refcnt na ne))))))"

definition pool_destroy_el :: "pool_handle \<Rightarrow> errno pl" where
  "pool_destroy_el h = thenE (check_magic h)
     (let na = handle_2_arena h; ne = handle_2_elem h in
      bindE (get_arena na) (\<lambda>a. thenE (check_el a ne)
     (bindE (gets flag_nofail) (\<lambda>nf. bindE (ref_at a ne) (\<lambda>c.
      if c \<noteq> 0 then if nf then raise (Panic ''arena el ref != 0 on destroy'') else ret (if c > 0 then EEXIST else ENOENT)
      else bindE (ptr_at a ne) (\<lambda>q. if q \<noteq> 0 then do_destroy_el na ne else ret ENOENT))))))"

text \<open>The search, which the first argument bounds; the handle is -1 when nothing is found.\<close>

fun free_place :: "nat list \<Rightarrow> int list \<Rightarrow> nat \<Rightarrow> nat option" where
  "free_place (q # qs) (c # cs) i = (if q = 0 \<and> c = 0 then Some i else free_place qs cs (i + 1))"
| "free_place _ _ i = None"

primrec find_free_loop :: "nat \<Rightarrow> pool_handle \<Rightarrow> nat \<Rightarrow> pool_handle pl" where
  "find_free_loop 0 h wrapped = raise Diverges"
| "find_free_loop (Suc k) h wrapped = bindE (gets narenas) (\<lambda>n.
     let wrap = handle_2_arena h > n; h' = if wrap then 0 else h; wrapped' = if wrap then wrapped + 1 else wrapped in
     if wrap \<and> wrapped' > 1 then ret (- 1)
     else bindE (gets magic) (\<lambda>mg.
       let na = handle_2_arena h'; next_arena = find_free_loop k (mk_handle mg (1 + na) 0) wrapped' in
       bindE (arena_at na) (\<lambda>a.
         if handle_2_elem h' > arena_size a \<or> nused a \<ge> arena_size a then next_arena
         else case free_place (ptrs a) (refc a) 0 of
             None \<Rightarrow> next_arena
           | Some i \<Rightarrow> let r = mk_handle mg na i in thenE (modify (\<lambda>p. p\<lparr>last_handle := r\<rparr>)) (ret r))))"

definition find_free_el :: "nat \<Rightarrow> pool_handle pl" where
  "find_free_el k = bindE (gets last_handle) (\<lambda>h. find_free_loop k h 0)"

definition pool_create_el :: "nat \<Rightarrow> nat \<Rightarrow> pool_handle pl" where
  "pool_create_el k arg = bindE (find_free_el k) (\<lambda>r. bindE (gets flag_nofail) (\<lambda>nf.
     if sint r < 0 then if nf then raise (Panic ''out of mem in pool'') else ret r
     else let na = handle_2_arena r; ne = handle_2_elem r in
       bindE (gets pool_init) (\<lambda>f. let e = (case f of Some g \<Rightarrow> g arg | None \<Rightarrow> arg) in
       thenE (assertE ''e'' (e \<noteq> 0))
      (bindE (get_arena na) (\<lambda>a. bindE (ref_at a ne) (\<lambda>c. bindE (ptr_at a ne) (\<lambda>_.
       thenE (set_arena na (a\<lparr>refc := (refc a)[ne := c + 1], ptrs := (ptrs a)[ne := e], nused := nused a + 1\<rparr>))
       (ret r))))))))"

section \<open>Iteration and destruction\<close>

text \<open>The result of the loop over the places of an arena, and whether the function returns at once.\<close>

primrec foreach_els :: "(nat \<Rightarrow> pool_handle \<Rightarrow> errno pl) \<Rightarrow> nat \<Rightarrow> nat list \<Rightarrow> errno \<Rightarrow> (errno \<times> bool) pl" where
  "foreach_els ff i [] r = ret (r, False)"
| "foreach_els ff i (j # js) r = bindE (arena_at i) (\<lambda>a. bindE (ptr_at a j) (\<lambda>q. bindE (ref_at a j) (\<lambda>c.
     bindE (if q \<noteq> 0 \<and> c \<noteq> 0
       then thenE (set_ref i j (c + 1)) (bindE (gets magic) (\<lambda>mg. bindE (ff q (mk_handle mg i j)) (\<lambda>r1.
         bindE (do_dec_refcnt i j) (\<lambda>r2. ret (if r1 \<noteq> EOK then (r1, True) else (r2, r2 \<noteq> EOK))))))
       else ret (r, False)) (\<lambda>(r', stop).
     if stop then ret (r', True)
     else bindE (arena_at i) (\<lambda>a'. if nused a' = 0 then ret (r', False) else foreach_els ff i js r')))))"

primrec foreach_arenas :: "(nat \<Rightarrow> pool_handle \<Rightarrow> errno pl) \<Rightarrow> nat list \<Rightarrow> errno \<Rightarrow> errno pl" where
  "foreach_arenas ff [] r = ret r"
| "foreach_arenas ff (i # is) r = bindE (arena_at i) (\<lambda>a.
     if nused a = 0 then foreach_arenas ff is r
     else bindE (foreach_els ff i [0..<arena_size a] r) (\<lambda>(r', stop). if stop then ret r' else foreach_arenas ff is r'))"

definition do_pool_foreach :: "(nat \<Rightarrow> pool_handle \<Rightarrow> errno pl) \<Rightarrow> errno pl" where
  "do_pool_foreach ff = bindE (gets narenas) (\<lambda>n. foreach_arenas ff [0..<n] EOK)"

definition pool_foreach :: "(nat \<Rightarrow> pool_handle \<Rightarrow> errno pl) \<Rightarrow> errno pl" where
  "pool_foreach ff = do_pool_foreach ff"

primrec kill_loop :: "nat \<Rightarrow> pool_handle \<Rightarrow> errno pl" where
  "kill_loop 0 h = raise Diverges"
| "kill_loop (Suc k) h = bindE (pool_el_exist h) (\<lambda>ex.
     if ex then thenE (pool_release_el h) (kill_loop k h) else ret EOK)"

definition do_pool_killme :: "nat \<Rightarrow> nat \<Rightarrow> pool_handle \<Rightarrow> errno pl" where
  "do_pool_killme k el h = kill_loop k h"

definition destroy_pool :: "nat \<Rightarrow> errno pl" where
  "destroy_pool k =
     thenE (modify (\<lambda>p. p\<lparr>flag_nofail := False\<rparr>))
    (bindE (gets flag_autoclean) (\<lambda>ac.
     thenE (whenE ac (bindE (do_pool_foreach (do_pool_killme k)) (\<lambda>_. ret ())))
    (bindE (gets pool_get_used) (\<lambda>u. thenE (modify (\<lambda>p. p\<lparr>arenas := []\<rparr>))
    (ret (if u \<noteq> 0 then EEXIST else EOK))))))"

section \<open>Handles name places\<close>

lemma byte_masks: "(0xFF :: 32 word) = mask 8" "(0xFFFF :: 32 word) = mask 16"
  by (simp_all add: mask_eq_exp_minus_1)

lemma handle_magic: "handle_2_magic (mk_handle mg a e) = mg AND 0xFF"
  unfolding handle_2_magic_def mk_handle_def byte_masks
  by (rule bit_word_eqI) (auto simp: bit_simps)

lemma handle_arena:
  assumes "a < 256"
  shows "handle_2_arena (mk_handle mg a e) = a"
proof -
  have "drop_bit 16 (mk_handle mg a e) AND 0xFF = (of_nat a :: 32 word) AND 0xFF"
    unfolding mk_handle_def byte_masks by (rule bit_word_eqI) (auto simp: bit_simps)
  also have "\<dots> = take_bit 8 (of_nat a)" by (simp add: byte_masks take_bit_eq_mask)
  finally show ?thesis using assms
    by (simp add: handle_2_arena_def unsigned_take_bit_eq unsigned_of_nat take_bit_nat_eq_self)
qed

lemma handle_elem:
  assumes "e < 65536"
  shows "handle_2_elem (mk_handle mg a e) = e"
proof -
  have "mk_handle mg a e AND 0xFFFF = (of_nat e :: 32 word) AND 0xFFFF"
    unfolding mk_handle_def byte_masks by (rule bit_word_eqI) (auto simp: bit_simps)
  also have "\<dots> = take_bit 16 (of_nat e)" by (simp add: byte_masks take_bit_eq_mask)
  finally show ?thesis using assms
    by (simp add: handle_2_elem_def unsigned_take_bit_eq unsigned_of_nat take_bit_nat_eq_self)
qed

lemma handle_sign: "sint (mk_handle mg a e) < 0 \<longleftrightarrow> bit mg 7"
proof -
  have "sint (mk_handle mg a e) < 0 \<longleftrightarrow> bit (mk_handle mg a e) 31"
    using bit_last_iff [of "mk_handle mg a e"] by simp
  also have "\<dots> \<longleftrightarrow> bit mg 7"
    unfolding mk_handle_def byte_masks by (auto simp: bit_simps)
  finally show ?thesis .
qed

section \<open>The invariant\<close>

text \<open>The number of used places is right, and a place without an element has no references.\<close>

definition places_ok :: "pool_arena \<Rightarrow> bool" where
  "places_ok a \<longleftrightarrow> 0 < arena_size a \<and> arena_size a \<le> 65536 \<and> length (ptrs a) = arena_size a \<and>
     length (refc a) = arena_size a \<and> nused a = length (filter (\<lambda>q. q \<noteq> 0) (ptrs a)) \<and>
     (\<forall>j<arena_size a. 0 \<le> refc a ! j \<and> (ptrs a ! j = 0 \<longrightarrow> refc a ! j = 0))"

definition pool_ok :: "pool \<Rightarrow> bool" where
  "pool_ok p \<longleftrightarrow> length (arenas p) = narenas p \<and> narenas p < 256 \<and> (\<forall>a\<in>set (arenas p). places_ok a) \<and>
     handle_2_arena (last_handle p) < narenas p \<and>
     handle_2_elem (last_handle p) \<le> arena_size (arenas p ! handle_2_arena (last_handle p))"

lemma used_drop: "j < length xs \<Longrightarrow> xs ! j \<noteq> (0 :: nat) \<Longrightarrow>
    Suc (length (filter (\<lambda>q. q \<noteq> 0) (xs[j := 0]))) = length (filter (\<lambda>q. q \<noteq> 0) xs)"
  by (induction xs arbitrary: j) (auto split: nat.splits)

lemma used_add: "j < length xs \<Longrightarrow> xs ! j = (0 :: nat) \<Longrightarrow> e \<noteq> 0 \<Longrightarrow>
    length (filter (\<lambda>q. q \<noteq> 0) (xs[j := e])) = Suc (length (filter (\<lambda>q. q \<noteq> 0) xs))"
  by (induction xs arbitrary: j) (auto split: nat.splits)

lemma arena_ref: "places_ok a \<Longrightarrow> j < arena_size a \<Longrightarrow> ptrs a ! j \<noteq> 0 \<Longrightarrow> 0 \<le> c \<Longrightarrow> places_ok (a\<lparr>refc := (refc a)[j := c]\<rparr>)"
  by (auto simp: places_ok_def nth_list_update)

lemma arena_del:
  "places_ok a \<Longrightarrow> j < arena_size a \<Longrightarrow> ptrs a ! j \<noteq> 0 \<Longrightarrow> refc a ! j = 0 \<Longrightarrow>
     places_ok (a\<lparr>ptrs := (ptrs a)[j := 0], nused := nused a - 1\<rparr>)"
  using used_drop [of j "ptrs a"] by (auto simp: places_ok_def nth_list_update)

lemma arena_add:
  "places_ok a \<Longrightarrow> j < arena_size a \<Longrightarrow> ptrs a ! j = 0 \<Longrightarrow> e \<noteq> 0 \<Longrightarrow>
     places_ok (a\<lparr>refc := (refc a)[j := 1], ptrs := (ptrs a)[j := e], nused := nused a + 1\<rparr>)"
  using used_add [of j "ptrs a" e] by (auto simp: places_ok_def nth_list_update)

lemma pool_set:
  "pool_ok p \<Longrightarrow> places_ok a \<Longrightarrow> arena_size a = arena_size (arenas p ! i) \<Longrightarrow> pool_ok (p\<lparr>arenas := (arenas p)[i := a]\<rparr>)"
  using set_update_subset_insert [of "arenas p" i a] by (cases "handle_2_arena (last_handle p) = i") (auto simp: pool_ok_def)

lemma pool_places_ok: "pool_ok p \<Longrightarrow> i < length (arenas p) \<Longrightarrow> places_ok (arenas p ! i)"
  by (simp add: pool_ok_def)

text \<open>A computation keeps_pool the invariant and does not run out of iterations.\<close>

definition keeps_pool :: "'a pl \<Rightarrow> pool \<Rightarrow> bool" where
  "keeps_pool c p \<longleftrightarrow> (case c p of Inl e \<Rightarrow> e \<noteq> Diverges | Inr (_, p') \<Rightarrow> pool_ok p')"

lemmas pool_evals = arena_at_def set_arena_def ptr_at_def ref_at_def set_ref_def check_magic_def get_arena_def
  check_el_def check_zero_def check_ref_def bindE_apply thenE_apply assertE_apply

lemma keeps_get: "pool_ok p \<Longrightarrow> keeps_pool (pool_get_el h) p"
  by (auto simp: keeps_pool_def pool_get_el_def Let_def pool_evals places_ok_def dest: pool_places_ok intro!: pool_set arena_ref)

text \<open>An element without references is removed, unless its arena is full.\<close>

lemma do_destroy_eval:
  assumes "na < length (arenas p)" "a = arenas p ! na" "places_ok a" "ne < arena_size a" "ptrs a ! ne \<noteq> 0" "refc a ! ne = 0"
  shows "do_destroy_el na ne p = (if nused a < arena_size a
    then Inr (EOK, p\<lparr>destroyed := (if has_destroy p then destroyed p @ [ptrs a ! ne] else destroyed p),
      arenas := (arenas p)[na := a\<lparr>ptrs := (ptrs a)[ne := 0], nused := nused a - 1\<rparr>]\<rparr>)
    else Inl (Assert_failed ''a->nused < a->arena_size''))"
proof -
  have "nused a > 0" using assms(3-5) used_drop [of ne "ptrs a"] by (auto simp: places_ok_def)
  then show ?thesis using assms by (simp add: do_destroy_el_def pool_evals places_ok_def)
qed

lemma keeps_destroy:
  assumes p: "pool_ok p" "na < length (arenas p)" and a: "a = arenas p ! na" "ne < arena_size a" "ptrs a ! ne \<noteq> 0" "refc a ! ne = 0"
  shows "keeps_pool (do_destroy_el na ne) p"
proof -
  have ok: "places_ok a" using pool_places_ok [OF p] a(1) by simp
  have "pool_ok (p\<lparr>destroyed := d\<rparr>)" for d using p(1) by (simp add: pool_ok_def)
  from pool_set [OF this arena_del [OF ok a(2-4)], of _ na] show ?thesis
    by (simp add: keeps_pool_def do_destroy_eval [OF p(2) a(1) ok a(2-4)] a(1))
qed

text \<open>The state in which one reference is gone.\<close>

definition dec_ref :: "nat \<Rightarrow> nat \<Rightarrow> pool \<Rightarrow> pool" where
  "dec_ref na ne p = (let a = arenas p ! na in p\<lparr>arenas := (arenas p)[na := a\<lparr>refc := (refc a)[ne := refc a ! ne - 1]\<rparr>]\<rparr>)"

lemma do_dec_eval:
  assumes "pool_ok p" "na < length (arenas p)" "ne < arena_size (arenas p ! na)"
  shows "do_dec_refcnt na ne p =
    (if flag_autodestroy p \<and> refc (arenas p ! na) ! ne = 1 then do_destroy_el na ne (dec_ref na ne p) else Inr (EOK, dec_ref na ne p))"
  using assms pool_places_ok [OF assms(1,2)]
  by (simp add: do_dec_refcnt_def pool_evals dec_ref_def Let_def places_ok_def)

lemma keeps_dec:
  assumes p: "pool_ok p" "na < length (arenas p)" and a: "a = arenas p ! na" "ne < arena_size a" "ptrs a ! ne \<noteq> 0" "0 < refc a ! ne"
  shows "keeps_pool (do_dec_refcnt na ne) p"
proof -
  have ok: "places_ok a" using pool_places_ok [OF p] a(1) by simp
  then have d: "pool_ok (dec_ref na ne p)"
    using a by (simp add: dec_ref_def Let_def pool_set [OF p(1)] arena_ref)
  have "keeps_pool (do_destroy_el na ne) (dec_ref na ne p)" if "refc a ! ne = 1"
    using that a p(2) ok by (intro keeps_destroy [OF d _ refl]) (auto simp: dec_ref_def Let_def places_ok_def)
  then show ?thesis using d a do_dec_eval [OF p(1,2)] by (auto simp: keeps_pool_def)
qed

lemma keeps_release: "pool_ok p \<Longrightarrow> keeps_pool (pool_release_el h) p"
proof -
  let ?na = "handle_2_arena h" and ?ne = "handle_2_elem h"
  let ?a = "arenas p ! ?na"
  assume p: "pool_ok p"
  show ?thesis
  proof (cases "?na < length (arenas p) \<and> ?ne < arena_size ?a \<and> ptrs ?a ! ?ne \<noteq> 0 \<and> 0 < refc ?a ! ?ne")
    case True
    then show ?thesis using keeps_dec [OF p _ refl, of ?na ?ne] pool_places_ok [OF p]
      by (auto simp: keeps_pool_def pool_release_el_def Let_def pool_evals places_ok_def)
  next
    case False
    then show ?thesis using p pool_places_ok [OF p, of ?na]
      by (auto simp: keeps_pool_def pool_release_el_def Let_def pool_evals places_ok_def)
  qed
qed

lemma keeps_destroy_el: "pool_ok p \<Longrightarrow> keeps_pool (pool_destroy_el h) p"
proof -
  let ?na = "handle_2_arena h" and ?ne = "handle_2_elem h"
  let ?a = "arenas p ! ?na"
  assume p: "pool_ok p"
  show ?thesis
  proof (cases "?na < length (arenas p) \<and> ?ne < arena_size ?a \<and> ptrs ?a ! ?ne \<noteq> 0 \<and> refc ?a ! ?ne = 0")
    case True
    then show ?thesis using keeps_destroy [OF p _ refl, of ?na ?ne] pool_places_ok [OF p]
      by (auto simp: keeps_pool_def pool_destroy_el_def Let_def pool_evals places_ok_def)
  next
    case False
    then show ?thesis using p pool_places_ok [OF p, of ?na]
      by (auto simp: keeps_pool_def pool_destroy_el_def Let_def pool_evals places_ok_def)
  qed
qed

section \<open>The search for a free place\<close>

lemma free_place_some:
  "free_place qs cs i = Some j \<Longrightarrow> \<exists>n. j = i + n \<and> n < length qs \<and> qs ! n = 0 \<and> cs ! n = 0"
proof (induction qs cs i rule: free_place.induct)
  case (1 q qs c cs i)
  show ?case
  proof (cases "q = 0 \<and> c = 0")
    case True
    with 1 show ?thesis by (intro exI [of _ 0]) auto
  next
    case False
    with 1 obtain n where "j = i + 1 + n" "n < length qs" "qs ! n = 0" "cs ! n = 0" by auto
    then show ?thesis by (intro exI [of _ "Suc n"]) auto
  qed
qed simp_all

lemma free_place_none: "free_place qs cs i = None \<Longrightarrow> length qs = length cs \<Longrightarrow> j < length qs \<Longrightarrow> qs ! j = 0 \<Longrightarrow> cs ! j \<noteq> 0"
proof (induction qs cs i arbitrary: j rule: free_place.induct)
  case (1 q qs c cs i)
  then show ?case by (cases j) (auto split: if_splits)
qed simp_all

lemma arena_free:
  assumes "places_ok a" "nused a < arena_size a"
  obtains j where "free_place (ptrs a) (refc a) 0 = Some j" "j < arena_size a" "ptrs a ! j = 0" "refc a ! j = 0"
proof (cases "free_place (ptrs a) (refc a) 0")
  case None
  have "ptrs a ! j \<noteq> 0" if "j < arena_size a" for j
    using free_place_none [OF None, of j] that assms(1) by (auto simp: places_ok_def)
  then have "filter (\<lambda>q. q \<noteq> 0) (ptrs a) = ptrs a" using assms(1) by (auto simp: places_ok_def in_set_conv_nth intro!: filter_True)
  then show ?thesis using assms by (simp add: places_ok_def)
next
  case (Some j)
  then show ?thesis using that [of j] free_place_some [OF Some] assms(1) by (simp add: places_ok_def)
qed

definition free_after :: "pool \<Rightarrow> nat \<Rightarrow> bool" where
  "free_after p na \<longleftrightarrow> (\<exists>i. na \<le> i \<and> i < narenas p \<and> nused (arenas p ! i) < arena_size (arenas p ! i))"

lemma find_free_spec:
  assumes "pool_ok p" "handle_2_arena h \<le> narenas p" "narenas p - handle_2_arena h < k"
    and "handle_2_arena h < narenas p \<Longrightarrow> handle_2_elem h \<le> arena_size (arenas p ! handle_2_arena h)"
  shows "if free_after p (handle_2_arena h)
    then \<exists>i j. i < narenas p \<and> j < arena_size (arenas p ! i) \<and> ptrs (arenas p ! i) ! j = 0 \<and> refc (arenas p ! i) ! j = 0 \<and>
      find_free_loop k h w p = Inr (mk_handle (magic p) i j, p\<lparr>last_handle := mk_handle (magic p) i j\<rparr>)
    else find_free_loop k h w p = Inl Out_of_bounds"
  using assms(2-4)
proof (induction k arbitrary: h)
  case (Suc k)
  let ?na = "handle_2_arena h"
  let ?a = "arenas p ! ?na" and ?h = "mk_handle (magic p) (1 + ?na) 0"
  have n: "length (arenas p) = narenas p" "narenas p < 256" using assms(1) by (simp_all add: pool_ok_def)
  show ?case
  proof (cases "?na < narenas p")
    case False
    then show ?thesis using Suc.prems n by (simp add: free_after_def pool_evals Let_def)
  next
    case True
    have a: "places_ok ?a" using pool_places_ok [OF assms(1)] True n by simp
    show ?thesis
    proof (cases "nused ?a < arena_size ?a")
      case free: True
      from arena_free [OF a free] obtain j where j: "free_place (ptrs ?a) (refc ?a) 0 = Some j" "j < arena_size ?a"
        "ptrs ?a ! j = 0" "refc ?a ! j = 0" .
      have "find_free_loop (Suc k) h w p = Inr (mk_handle (magic p) ?na j, p\<lparr>last_handle := mk_handle (magic p) ?na j\<rparr>)"
        using Suc.prems(3) True free j(1) n by (simp add: pool_evals Let_def)
      moreover have "free_after p ?na" using True free by (auto simp: free_after_def)
      ultimately show ?thesis using True j by auto
    next
      case full: False
      have h: "handle_2_arena ?h = 1 + ?na" "handle_2_elem ?h = 0" using True n by (simp_all add: handle_arena handle_elem)
      have "free_after p ?na \<longleftrightarrow> free_after p (1 + ?na)"
        using full unfolding free_after_def by (metis Suc_leD Suc_leI le_neq_implies_less plus_1_eq_Suc)
      moreover have "find_free_loop (Suc k) h w p = find_free_loop k ?h w p"
        using True full n by (simp add: pool_evals Let_def)
      moreover have "handle_2_arena ?h \<le> narenas p" "narenas p - handle_2_arena ?h < k" "handle_2_elem ?h \<le> m" for m
        using Suc.prems(2) True h by simp_all
      note Suc.IH [OF this, unfolded h(1)]
      ultimately show ?thesis by (simp only:)
    qed
  qed
qed simp

section \<open>Creation\<close>

definition new_element :: "pool \<Rightarrow> nat \<Rightarrow> nat" where
  "new_element p arg = (case pool_init p of Some g \<Rightarrow> g arg | None \<Rightarrow> arg)"

definition with_element :: "nat \<Rightarrow> nat \<Rightarrow> nat \<Rightarrow> pool \<Rightarrow> pool" where
  "with_element i j e p = (let a = arenas p ! i in p\<lparr>last_handle := mk_handle (magic p) i j,
     arenas := (arenas p)[i := a\<lparr>refc := (refc a)[j := 1], ptrs := (ptrs a)[j := e], nused := nused a + 1\<rparr>]\<rparr>)"

lemma place_handle:
  assumes "pool_ok p" "i < narenas p" "j < arena_size (arenas p ! i)"
  shows "handle_2_arena (mk_handle mg i j) = i" "handle_2_elem (mk_handle mg i j) = j"
proof -
  have "i < length (arenas p)" "i < 256" using assms(1,2) by (simp_all add: pool_ok_def)
  then show "handle_2_arena (mk_handle mg i j) = i" "handle_2_elem (mk_handle mg i j) = j"
    using pool_places_ok [OF assms(1), of i] assms(3) by (auto intro!: handle_arena handle_elem simp: places_ok_def)
qed

lemma last_handle_ok:
  "pool_ok p \<Longrightarrow> i < narenas p \<Longrightarrow> j < arena_size (arenas p ! i) \<Longrightarrow> pool_ok (p\<lparr>last_handle := mk_handle mg i j\<rparr>)"
  using place_handle [of p i j mg] by (simp add: pool_ok_def)

lemma create_full:
  assumes p: "pool_ok p" "256 \<le> k" and full: "\<not> free_after p (handle_2_arena (last_handle p))"
  shows "pool_create_el k arg p = Inl Out_of_bounds"
proof -
  have "find_free_loop k (last_handle p) 0 p = Inl Out_of_bounds"
    using find_free_spec [OF p(1), of "last_handle p" k 0] full p by (auto simp: pool_ok_def)
  then show ?thesis by (simp add: pool_create_el_def find_free_el_def bindE_apply)
qed

lemma create_free:
  assumes p: "pool_ok p" "256 \<le> k" and free: "free_after p (handle_2_arena (last_handle p))"
  obtains i j where "i < narenas p" "j < arena_size (arenas p ! i)" "ptrs (arenas p ! i) ! j = 0" "refc (arenas p ! i) ! j = 0"
    "pool_create_el k arg p =
       (if bit (magic p) 7
        then if flag_nofail p then Inl (Panic ''out of mem in pool'')
          else Inr (mk_handle (magic p) i j, p\<lparr>last_handle := mk_handle (magic p) i j\<rparr>)
        else if new_element p arg = 0 then Inl (Assert_failed ''e'')
        else Inr (mk_handle (magic p) i j, with_element i j (new_element p arg) p))"
proof -
  have "handle_2_arena (last_handle p) \<le> narenas p" "narenas p - handle_2_arena (last_handle p) < k"
    "handle_2_elem (last_handle p) \<le> arena_size (arenas p ! handle_2_arena (last_handle p))"
    using p by (auto simp: pool_ok_def)
  note found = find_free_spec [OF p(1) this, of 0]
  obtain i j where ij: "i < narenas p" "j < arena_size (arenas p ! i)" "ptrs (arenas p ! i) ! j = 0" "refc (arenas p ! i) ! j = 0"
    and f: "find_free_loop k (last_handle p) 0 p = Inr (mk_handle (magic p) i j, p\<lparr>last_handle := mk_handle (magic p) i j\<rparr>)"
    using found free by (simp del: find_free_loop.simps) blast
  have n: "length (arenas p) = narenas p" "narenas p < 256" using p(1) by (simp_all add: pool_ok_def)
  have a: "places_ok (arenas p ! i)" using pool_places_ok [OF p(1)] ij(1) n by simp
  note h = place_handle [OF p(1) ij(1,2)]
  show ?thesis
  proof (rule that [OF ij], goal_cases)
    case 1
    show ?case using ij n a h
      by (simp add: pool_create_el_def find_free_el_def bindE_apply f handle_sign Let_def new_element_def
          pool_evals places_ok_def with_element_def)
  qed
qed

lemma with_element_ok:
  assumes "pool_ok p" "i < narenas p" "j < arena_size (arenas p ! i)" "ptrs (arenas p ! i) ! j = 0" "e \<noteq> 0"
  shows "pool_ok (with_element i j e p)"
proof -
  have n: "length (arenas p) = narenas p" "narenas p < 256" using assms(1) by (simp_all add: pool_ok_def)
  have a: "places_ok (arenas p ! i)" using pool_places_ok [OF assms(1)] assms(2) n by simp
  from pool_set [OF last_handle_ok [OF assms(1-3)] arena_add [OF a assms(3-5)], of "magic p" i] show ?thesis by (simp add: with_element_def Let_def)
qed

lemma keeps_create:
  assumes p: "pool_ok p" "256 \<le> k"
  shows "keeps_pool (pool_create_el k arg) p"
proof (cases "free_after p (handle_2_arena (last_handle p))")
  case True
  from create_free [OF p True, of arg] obtain i j where ij: "i < narenas p" "j < arena_size (arenas p ! i)"
    "ptrs (arenas p ! i) ! j = 0" and ev: "pool_create_el k arg p =
       (if bit (magic p) 7
        then if flag_nofail p then Inl (Panic ''out of mem in pool'')
          else Inr (mk_handle (magic p) i j, p\<lparr>last_handle := mk_handle (magic p) i j\<rparr>)
        else if new_element p arg = 0 then Inl (Assert_failed ''e'')
        else Inr (mk_handle (magic p) i j, with_element i j (new_element p arg) p))" by metis
  show ?thesis using with_element_ok [OF p(1) ij] last_handle_ok [OF p(1) ij(1,2)] by (simp add: keeps_pool_def ev)
qed (simp add: keeps_pool_def create_full [OF p])

section \<open>Sequences of calls\<close>

datatype pool_cmd = Create_el nat | Get_el pool_handle | Release_el pool_handle | Destroy_el pool_handle

primrec do_pool :: "nat \<Rightarrow> pool_cmd \<Rightarrow> unit pl" where
  "do_pool k (Create_el arg) = bindE (pool_create_el k arg) (\<lambda>_. ret ())"
| "do_pool k (Get_el h) = bindE (pool_get_el h) (\<lambda>_. ret ())"
| "do_pool k (Release_el h) = bindE (pool_release_el h) (\<lambda>_. ret ())"
| "do_pool k (Destroy_el h) = bindE (pool_destroy_el h) (\<lambda>_. ret ())"

lemma keeps_unit: "keeps_pool c p \<Longrightarrow> keeps_pool (bindE c (\<lambda>_. ret ())) p"
  by (auto simp: keeps_pool_def bindE_apply split: sum.splits)

lemma keeps_then: "keeps_pool c p \<Longrightarrow> (\<And>p'. pool_ok p' \<Longrightarrow> keeps_pool d p') \<Longrightarrow> keeps_pool (thenE c d) p"
  by (cases "c p") (auto simp: keeps_pool_def thenE_apply)

lemma keeps_cmds:
  assumes "256 \<le> k" "pool_ok p"
  shows "keeps_pool (iterE (do_pool k) cs) p"
  using assms(2)
proof (induction cs arbitrary: p)
  case (Cons c cs)
  have "keeps_pool (do_pool k c) p"
    using Cons.prems assms(1) by (cases c) (simp_all add: keeps_unit keeps_create keeps_get keeps_release keeps_destroy_el)
  then show ?case using Cons.IH by (simp add: keeps_then)
qed (simp add: keeps_pool_def)

lemma create_pool_ok:
  assumes "create_pool_ext elems asize mg = Inr (p, mg')" "asize \<le> 65536"
  shows "pool_ok p"
proof -
  let ?n = "1 + (max elems asize - 1) div asize"
  have a: "0 < asize" "?n < 256" and p: "arenas p = alloc_arenas (nat asize) (nat ?n) None" "narenas p = nat ?n" "last_handle p = 0"
    using assms(1) by (auto simp: create_pool_ext_def Let_def thenE_apply bindE_apply assertE_apply split: if_splits)
  have n: "0 < ?n" using a(1) by (simp add: pos_imp_zdiv_nonneg_iff add_pos_nonneg)
  have "places_ok (alloc_arena (nat asize) [])" using a assms(2) by (auto simp: places_ok_def alloc_arena_def)
  moreover have "arenas p = replicate (nat ?n) (alloc_arena (nat asize) [])"
    by (simp add: p alloc_arenas_def map_replicate_const)
  ultimately show ?thesis using a n p by (simp add: pool_ok_def handle_2_arena_def handle_2_elem_def)
qed


text \<open>A pool of two arenas with two places.\<close>

definition small_pool :: pool where
  "small_pool = \<lparr>pool_init = None, has_destroy = False, destroyed = [], arenas = replicate 2 (alloc_arena 2 []),
     narenas = 2, magic = 5, last_handle = 0, flag_autoclean = False, flag_autodestroy = True, flag_nofail = False\<rparr>"

lemma small_pool_created: "create_pool_ext 4 2 5 = Inr (small_pool, 6)"
  by (simp add: create_pool_ext_def Let_def thenE_apply bindE_apply assertE_apply small_pool_def alloc_arenas_def upt_rec numeral_2_eq_2)


section \<open>Elements and their handles\<close>

text \<open>The element and the references at a place.\<close>

definition place :: "pool \<Rightarrow> nat \<times> nat \<Rightarrow> nat \<times> int" where
  "place p = (\<lambda>(i, j). (ptrs (arenas p ! i) ! j, refc (arenas p ! i) ! j))"

lemma place_with_element:
  assumes "pool_ok p" "i < narenas p" "j < arena_size (arenas p ! i)"
  shows "place (with_element i j e p) = (place p)((i, j) := (e, 1))"
proof -
  have "i < length (arenas p)" "j < length (ptrs (arenas p ! i))" "j < length (refc (arenas p ! i))"
    using assms pool_places_ok [OF assms(1), of i] by (auto simp: pool_ok_def places_ok_def)
  then show ?thesis by (auto simp: place_def with_element_def Let_def nth_list_update fun_eq_iff)
qed

lemma small_magic:
  fixes mg :: "32 word"
  assumes "unat mg < 128"
  shows "\<not> bit mg 7" "mg AND 0xFF = mg"
proof -
  have "unat mg div 128 = 0" using assms by simp
  then show "\<not> bit mg 7" using bit_unsigned_iff [of mg 7, where ?'a = nat] by (simp add: bit_iff_odd)
  have "unat (take_bit 8 mg) = unat mg" using assms by (simp add: unsigned_take_bit_eq take_bit_nat_eq_self)
  then show "mg AND 0xFF = mg" by (simp add: byte_masks flip: take_bit_eq_mask word_unat_eq_iff)
qed

text \<open>
  C35. While an arena from the last used one on has a free place, the pool has a number below 128, and the new element is
  not null, creation returns a handle that is not negative, names a place that was free, and changes no other
  place. The handle then gives the element back, with one reference more.
\<close>

theorem pool_create_get:
  assumes p: "pool_ok p" "256 \<le> k" "free_after p (handle_2_arena (last_handle p))" "unat (magic p) < 128" "new_element p arg \<noteq> 0"
  shows "\<exists>h p'. pool_create_el k arg p = Inr (h, p') \<and> 0 \<le> sint h \<and>
    pool_el_exist h p = Inr (False, p) \<and> pool_get_used p' = pool_get_used p + 1 \<and>
    place p' = (place p)((handle_2_arena h, handle_2_elem h) := (new_element p arg, 1)) \<and>
    pool_el_refcount h p' = Inr (1, p') \<and>
    (\<exists>p''. pool_get_el h p' = Inr (new_element p arg, p'') \<and> pool_el_refcount h p'' = Inr (2, p''))"
proof -
  have mg: "\<not> bit (magic p) 7" "handle_2_magic (mk_handle (magic p) i j) = magic p" for i j
    using small_magic [OF p(4)] by (simp_all add: handle_magic)
  obtain i j where ij: "i < narenas p" "j < arena_size (arenas p ! i)" "ptrs (arenas p ! i) ! j = 0" "refc (arenas p ! i) ! j = 0"
    and ev: "pool_create_el k arg p = Inr (mk_handle (magic p) i j, with_element i j (new_element p arg) p)"
    using create_free [OF p(1-3), of arg] mg(1) p(5) by metis
  let ?h = "mk_handle (magic p) i j" and ?e = "new_element p arg"
  let ?p = "with_element i j ?e p"
  have n: "length (arenas p) = narenas p" and a: "places_ok (arenas p ! i)"
    using p(1) ij pool_places_ok [OF p(1), of i] by (auto simp: pool_ok_def)
  note h = place_handle [OF p(1) ij(1,2)]
  have s: "0 \<le> sint ?h" using handle_sign [of "magic p" i j] mg(1) by (simp add: not_less)
  have ex: "pool_el_exist ?h p = Inr (False, p)"
    using h ij a n by (simp add: pool_el_exist_def Let_def pool_evals places_ok_def)
  have rc: "pool_el_refcount ?h ?p = Inr (1, ?p)"
    using h ij a n p(5) by (simp add: pool_el_refcount_def Let_def pool_evals places_ok_def with_element_def)
  have get: "\<exists>p''. pool_get_el ?h ?p = Inr (?e, p'') \<and> pool_el_refcount ?h p'' = Inr (2, p'')"
    using h ij a n p(5) mg(2) by (simp add: pool_get_el_def pool_el_refcount_def Let_def pool_evals places_ok_def with_element_def)
  have used: "pool_get_used ?p = pool_get_used p + 1"
    using ij(1) n elem_le_sum_list [of i "map nused (arenas p)"]
    by (simp add: pool_get_used_def with_element_def Let_def map_update sum_list_update)
  show ?thesis using ev s ex rc get used place_with_element [OF p(1) ij(1,2)] h by auto
qed

lemma small_pool_ok: "pool_ok small_pool"
  by (rule create_pool_ok [OF small_pool_created]) simp

theorem pool_create_get_witness:
  "\<exists>h p'. pool_create_el 256 7 small_pool = Inr (h, p') \<and> 0 \<le> sint h \<and> (\<exists>p''. pool_get_el h p' = Inr (7, p''))"
proof -
  have "free_after small_pool (handle_2_arena (last_handle small_pool))"
    by (auto simp: free_after_def small_pool_def handle_2_arena_def alloc_arena_def intro!: exI [of _ 0])
  moreover have "unat (magic small_pool) < 128" "new_element small_pool 7 \<noteq> 0" "new_element small_pool 7 = 7"
    by (simp_all add: small_pool_def new_element_def)
  ultimately show ?thesis using pool_create_get [OF small_pool_ok, of 256 7] by auto
qed


text \<open>A pool whose second arena is full.\<close>

definition full_pool :: pool where
  "full_pool = small_pool\<lparr>arenas := [alloc_arena 2 [], \<lparr>ptrs = [7, 8], refc = [1, 1], arena_size = 2, nused = 2\<rparr>],
     last_handle := mk_handle 5 1 1\<rparr>"

lemma full_pool_ok: "pool_ok full_pool"
proof -
  have "places_ok (alloc_arena 2 [])" "places_ok \<lparr>ptrs = [7, 8], refc = [1, 1], arena_size = 2, nused = 2\<rparr>"
    by (auto simp: places_ok_def alloc_arena_def nth_Cons' )
  then show ?thesis by (simp add: pool_ok_def full_pool_def small_pool_def handle_arena handle_elem)
qed


text \<open>
  C37. In a pool that destroys elements without references, the release of the last reference to an element of a
  full arena fails an assertion: the assertion wants a free place in the arena.
\<close>

theorem release_in_full_arena_fails:
  assumes p: "pool_ok p" "flag_autodestroy p" "magic p = handle_2_magic h" "handle_2_arena h < narenas p"
    and a: "a = arenas p ! handle_2_arena h" "handle_2_elem h < arena_size a" "nused a = arena_size a" "refc a ! handle_2_elem h = 1"
  shows "pool_release_el h p = Inl (Assert_failed ''a->nused < a->arena_size'')"
proof -
  let ?na = "handle_2_arena h" and ?ne = "handle_2_elem h"
  have n: "length (arenas p) = narenas p" using p(1) by (simp add: pool_ok_def)
  have ok: "places_ok a" using pool_places_ok [OF p(1)] p(4) n a(1) by simp
  have "ptrs a ! ?ne \<noteq> 0" using ok a(2,4) by (auto simp: places_ok_def)
  then have "do_destroy_el ?na ?ne (dec_ref ?na ?ne p) = Inl (Assert_failed ''a->nused < a->arena_size'')"
    using ok a p(4) n arena_ref [OF ok a(2), of 0]
    by (subst do_destroy_eval [OF _ refl]) (auto simp: dec_ref_def Let_def places_ok_def)
  then have "do_dec_refcnt ?na ?ne p = Inl (Assert_failed ''a->nused < a->arena_size'')"
    using do_dec_eval [OF p(1), of ?na ?ne] p(2,4) a n by simp
  then show ?thesis using \<open>ptrs a ! ?ne \<noteq> 0\<close> ok a p n
    by (simp add: pool_release_el_def Let_def pool_evals places_ok_def)
qed

theorem release_in_full_arena_fails_witness:
  "pool_release_el (mk_handle 5 1 0) full_pool = Inl (Assert_failed ''a->nused < a->arena_size'')"
  by (rule release_in_full_arena_fails [OF full_pool_ok _ _ _ refl])
    (simp_all add: full_pool_def small_pool_def handle_arena handle_elem handle_magic)

end
