(* ===== verification/Utf8.thy ===== *)
theory Utf8
  imports Errno_Codes
begin

text \<open>
  The conversion to UTF-8 of \<^verbatim>\<open>libphantom/unicode2utf8.c\<close>: of a character, and of a string of big-endian
  16-bit units. The encoding of a character decodes to it; the string conversion is the encoding of its units, except
  that a surrogate pair yields the character it stands for and then the encoding of its second unit again.
\<close>

section \<open>Characters\<close>

definition unicode_to_utf8_char :: "32 word \<Rightarrow> u8 list" where
  "unicode_to_utf8_char c =
     (if c < 0x80 then [ucast c]
      else if c < 0x800 then [ucast (0xc0 OR drop_bit 6 c), ucast (0x80 OR (c AND 0x3f))]
      else if c < 0x10000 then [ucast (0xe0 OR drop_bit 12 c), ucast (0x80 OR (drop_bit 6 c AND 0x3f)), ucast (0x80 OR (c AND 0x3f))]
      else if c \<le> 0x10ffff then [ucast (0xf0 OR drop_bit 18 c), ucast (0x80 OR (drop_bit 12 c AND 0x3f)),
        ucast (0x80 OR (drop_bit 6 c AND 0x3f)), ucast (0x80 OR (c AND 0x3f))]
      else [])"

section \<open>Strings of 16-bit units\<close>

text \<open>The macro \<^verbatim>\<open>u_to_utf8\<close> on the unit it is at; the next one is read for a high surrogate only.\<close>

definition u_to_utf8 :: "32 word \<Rightarrow> 32 word option \<Rightarrow> vm_error + u8 list" where
  "u_to_utf8 u nxt =
     (if u AND 0xff80 = 0 then Inr [ucast u]
      else if u AND 0xf800 = 0 then Inr [ucast (0xc0 OR drop_bit 6 u), ucast (0x80 OR (u AND 0x3f))]
      else if u AND 0xfc00 \<noteq> 0xd800
      then Inr [ucast (0xe0 OR drop_bit 12 u), ucast (0x80 OR (drop_bit 6 u AND 0x3f)), ucast (0x80 OR (u AND 0x3f))]
      else case nxt of
          None \<Rightarrow> Inl Out_of_bounds
        | Some v \<Rightarrow> let val = push_bit 10 (u - 0xd7c0) OR (v AND 0x3ff) in
            Inr [ucast (0xf0 OR drop_bit 18 val), ucast (0x80 OR (drop_bit 12 val AND 0x3f)),
              ucast (0x80 OR (drop_bit 6 val AND 0x3f)), ucast (0x80 OR (val AND 0x3f))])"

text \<open>The unit at a byte of the source, when its two bytes exist.\<close>

definition unit_at :: "u8 list \<Rightarrow> nat \<Rightarrow> 32 word option" where
  "unit_at src i = (if i + 1 < length src then Some (push_bit 8 (ucast (src ! i)) OR ucast (src ! (i + 1))) else None)"

function utf8_loop :: "u8 list \<Rightarrow> nat \<Rightarrow> nat \<Rightarrow> nat \<Rightarrow> u8 list \<Rightarrow> vm_error + nat \<times> u8 list" where
  "utf8_loop src srcLimit dstLimit srcCount dst =
     (if srcCount < srcLimit
      then case unit_at src srcCount of
          None \<Rightarrow> Inl Out_of_bounds
        | Some u \<Rightarrow> (case u_to_utf8 u (unit_at src (srcCount + 2)) of
            Inl e \<Rightarrow> Inl e
          | Inr utf8 \<Rightarrow> if length dst + length utf8 > dstLimit then Inr (srcCount, dst)
              else utf8_loop src srcLimit dstLimit (srcCount + 2) (dst @ utf8))
      else Inr (srcCount, dst))"
  by pat_completeness auto
termination utf8_loop
  by (relation "measure (\<lambda>(src, srcLimit, dstLimit, srcCount, dst). srcLimit - srcCount)") auto

declare utf8_loop.simps [simp del]

definition unicode_to_utf8 :: "u8 list \<Rightarrow> nat \<Rightarrow> nat \<Rightarrow> vm_error + errno \<times> nat \<times> u8 list" where
  "unicode_to_utf8 src srcLen dstLen = (case utf8_loop src srcLen dstLen 0 [] of
       Inl e \<Rightarrow> Inl e
     | Inr (srcCount, dst) \<Rightarrow> Inr (if dst \<noteq> [] then EOK else ENOENT, srcCount, dst))"

section \<open>Decoding\<close>

text \<open>The characters of UTF-8 by the number of leading one bits of their first byte.\<close>

definition six :: "u8 \<Rightarrow> 32 word" where
  "six b = ucast (b AND 0x3f)"

fun utf8_decode :: "u8 list \<Rightarrow> (32 word \<times> u8 list) option" where
  "utf8_decode [] = None"
| "utf8_decode (a # bs) =
     (if a AND 0x80 = 0 then Some (ucast a, bs)
      else if a AND 0xe0 = 0xc0 then
        (case bs of b # r \<Rightarrow> Some (push_bit 6 (ucast (a AND 0x1f)) OR six b, r) | _ \<Rightarrow> None)
      else if a AND 0xf0 = 0xe0 then
        (case bs of b # c # r \<Rightarrow> Some (push_bit 12 (ucast (a AND 0x0f)) OR push_bit 6 (six b) OR six c, r) | _ \<Rightarrow> None)
      else if a AND 0xf8 = 0xf0 then
        (case bs of b # c # d # r \<Rightarrow>
           Some (push_bit 18 (ucast (a AND 0x07)) OR push_bit 12 (six b) OR push_bit 6 (six c) OR six d, r) | _ \<Rightarrow> None)
      else None)"

lemma word_small:
  assumes "unat (c :: 32 word) < 2 ^ n" "bit c m"
  shows "m < n"
proof -
  have "unat (take_bit n c) = unat c" using assms(1) by (simp add: unsigned_take_bit_eq take_bit_nat_eq_self)
  then have "take_bit n c = c" by (simp flip: word_unat_eq_iff)
  then show "m < n" using assms(2) by (metis bit_take_bit_iff)
qed

lemma byte_eqI:
  assumes "\<And>n. n \<in> {0, 1, 2, 3, 4, 5, 6, 7} \<Longrightarrow> bit a n \<longleftrightarrow> bit (b :: u8) n"
  shows "a = b"
proof (rule bit_word_eqI)
  fix n
  assume "n < LENGTH(8)"
  then have "n \<in> {0, 1, 2, 3, 4, 5, 6, 7}" by auto
  then show "bit a n \<longleftrightarrow> bit b n" by (rule assms)
qed

lemma top_bit: "a AND 0x80 = (0 :: u8) \<longleftrightarrow> \<not> bit a 7"
proof
  assume "a AND 0x80 = 0"
  then have "\<not> bit (a AND 0x80) 7" by simp
  then show "\<not> bit a 7" by (simp add: bit_simps)
next
  assume "\<not> bit a 7"
  then show "a AND 0x80 = 0" by (intro byte_eqI) (auto simp: bit_simps)
qed

lemma other_leads:
  "bit a 5 \<Longrightarrow> a AND 0xe0 \<noteq> (0xc0 :: u8)" "bit a 4 \<Longrightarrow> a AND 0xf0 \<noteq> (0xe0 :: u8)"
proof -
  have "bit (a AND 0xe0) 5 \<longleftrightarrow> bit a 5" "\<not> bit (0xc0 :: u8) 5" "bit (a AND 0xf0) 4 \<longleftrightarrow> bit a 4" "\<not> bit (0xe0 :: u8) 4"
    by (simp_all add: bit_simps)
  then show "bit a 5 \<Longrightarrow> a AND 0xe0 \<noteq> 0xc0" "bit a 4 \<Longrightarrow> a AND 0xf0 \<noteq> 0xe0" by metis+
qed

lemma lead_bytes:
  fixes c :: "32 word"
  shows "unat c < 0x80 \<Longrightarrow> ucast c AND 0x80 = (0 :: u8)"
    and "unat c < 0x800 \<Longrightarrow> ucast (0xc0 OR drop_bit 6 c) AND 0xe0 = (0xc0 :: u8)"
    and "unat c < 0x10000 \<Longrightarrow> ucast (0xe0 OR drop_bit 12 c) AND 0xf0 = (0xe0 :: u8)"
    and "unat c < 0x200000 \<Longrightarrow> ucast (0xf0 OR drop_bit 18 c) AND 0xf8 = (0xf0 :: u8)"
  using word_small [of c 7 7] word_small [of c 11 11] word_small [of c 16 16] word_small [of c 21 21]
  by (auto simp: bit_simps intro!: byte_eqI)

lemma lead_values:
  fixes x :: "32 word"
  shows "ucast (0xc0 OR x) AND 0x1f = (ucast x AND mask 5 :: u8)"
    and "ucast (0xe0 OR x) AND 0x0f = (ucast x AND mask 4 :: u8)"
    and "ucast (0xf0 OR x) AND 0x07 = (ucast x AND mask 3 :: u8)"
  by (auto simp: bit_simps intro!: byte_eqI)

lemma six_value: "six (ucast (0x80 OR (x AND 0x3f) :: 32 word)) = x AND mask 6"
proof -
  have "ucast (0x80 OR (x AND 0x3f) :: 32 word) AND 0x3f = (ucast (x AND mask 6) :: u8)"
    by (rule byte_eqI) (auto simp: bit_simps)
  then show ?thesis unfolding six_def by (auto simp: bit_simps intro!: bit_word_eqI)
qed

lemma recompose:
  fixes c :: "32 word"
  shows "unat c < 0x80 \<Longrightarrow> ucast (ucast c :: u8) = c"
    and "unat c < 0x800 \<Longrightarrow> push_bit 6 (ucast (ucast (drop_bit 6 c) AND mask 5 :: u8)) OR (c AND mask 6) = c"
    and "unat c < 0x10000 \<Longrightarrow> push_bit 12 (ucast (ucast (drop_bit 12 c) AND mask 4 :: u8)) OR
      push_bit 6 (drop_bit 6 c AND mask 6) OR (c AND mask 6) = c"
    and "unat c < 0x200000 \<Longrightarrow> push_bit 18 (ucast (ucast (drop_bit 18 c) AND mask 3 :: u8)) OR
      push_bit 12 (drop_bit 12 c AND mask 6) OR push_bit 6 (drop_bit 6 c AND mask 6) OR (c AND mask 6) = c"
  by (rule bit_word_eqI, auto simp: bit_simps dest: word_small [of c 7, simplified] word_small [of c 11, simplified]
    word_small [of c 16, simplified] word_small [of c 21, simplified])+



section \<open>The conversion of strings\<close>

text \<open>A unit of two bytes, the high surrogates, and the character of a pair.\<close>

definition be_bytes :: "16 word \<Rightarrow> u8 list" where
  "be_bytes u = [ucast (drop_bit 8 u), ucast u]"

definition high_surrogate :: "16 word \<Rightarrow> bool" where
  "high_surrogate u \<longleftrightarrow> u AND 0xfc00 = 0xd800"

definition pair_char :: "16 word \<Rightarrow> 16 word \<Rightarrow> 32 word" where
  "pair_char u v = 0x10000 + push_bit 10 (ucast (u AND 0x3ff)) + ucast (v AND 0x3ff)"

fun utf8_units :: "16 word list \<Rightarrow> u8 list" where
  "utf8_units [] = []"
| "utf8_units [u] = unicode_to_utf8_char (ucast u)"
| "utf8_units (u # v # us) =
     unicode_to_utf8_char (if high_surrogate u then pair_char u v else ucast u) @ utf8_units (v # us)"

lemma unit_small: "unat (ucast (u :: 16 word) :: 32 word) < 0x10000"
  using unsigned_less [of u, where ?'a = nat] by (simp add: unsigned_ucast_eq take_bit_nat_eq_self)

lemma mask_tests:
  fixes x :: "32 word"
  assumes "unat x < 0x10000"
  shows "x AND 0xff80 = 0 \<longleftrightarrow> x < 0x80" "x AND 0xf800 = 0 \<longleftrightarrow> x < 0x800"
proof -
  have m: "(0xff80 :: 32 word) = push_bit 7 (mask 9)" "(0xf800 :: 32 word) = push_bit 11 (mask 5)"
    by (simp_all add: mask_eq_exp_minus_1 push_bit_eq_mult)
  have x: "bit x n \<Longrightarrow> n < 16" for n using word_small [of x 16 n] assms by simp
  have "x AND 0xff80 = push_bit 7 (drop_bit 7 x)" "x AND 0xf800 = push_bit 11 (drop_bit 11 x)"
    "drop_bit 7 x = drop_bit 7 (x AND 0xff80)" "drop_bit 11 x = drop_bit 11 (x AND 0xf800)"
    unfolding m by (rule bit_word_eqI, use x in \<open>force simp: bit_simps\<close>)+
  then have "x AND 0xff80 = 0 \<longleftrightarrow> drop_bit 7 x = 0" "x AND 0xf800 = 0 \<longleftrightarrow> drop_bit 11 x = 0"
    by (metis drop_bit_of_0 push_bit_of_0)+
  then show "x AND 0xff80 = 0 \<longleftrightarrow> x < 0x80" "x AND 0xf800 = 0 \<longleftrightarrow> x < 0x800"
    by (simp_all add: word_less_nat_alt word_unat_eq_iff unsigned_drop_bit_eq drop_bit_eq_div unat_div div_eq_0_iff)
qed

lemma ucast_unit: "(ucast a :: 32 word) = ucast b \<longleftrightarrow> a = (b :: 16 word)"
proof -
  have "ucast (ucast x :: 32 word) = x" for x :: "16 word" by (rule bit_word_eqI) (auto simp: bit_simps)
  then show ?thesis by metis
qed

lemma high_surrogate_word: "ucast u AND 0xfc00 = (0xd800 :: 32 word) \<longleftrightarrow> high_surrogate u"
proof -
  have "ucast u AND 0xfc00 = (ucast (u AND 0xfc00) :: 32 word)" "(0xd800 :: 32 word) = ucast (0xd800 :: 16 word)"
    by (simp_all add: unsigned_and_eq)
  then show ?thesis unfolding high_surrogate_def by (simp only: ucast_unit)
qed

lemma low_ten: "unat (ucast (u AND 0x3ff :: 16 word) :: 32 word) < 1024" "ucast v AND 0x3ff = (ucast (v AND 0x3ff :: 16 word) :: 32 word)"
proof -
  have "u AND 0x3ff = take_bit 10 u" by (simp add: take_bit_eq_mask mask_eq_exp_minus_1)
  then have "unat (ucast (u AND 0x3ff) :: 32 word) = take_bit 10 (unat u)"
    by (simp add: unsigned_ucast_eq unsigned_take_bit_eq)
  then show "unat (ucast (u AND 0x3ff) :: 32 word) < 1024" by (simp add: take_bit_eq_mod)
  show "ucast v AND 0x3ff = (ucast (v AND 0x3ff :: 16 word) :: 32 word)" by (simp add: unsigned_and_eq)
qed

lemma pair_char_bounds: "0x10000 \<le> unat (pair_char u v)" "unat (pair_char u v) \<le> 0x10ffff"
proof -
  let ?w = "ucast (u AND 0x3ff) :: 32 word" and ?x = "ucast (v AND 0x3ff) :: 32 word"
  have "unat (pair_char u v) = 0x10000 + unat ?w * 1024 + unat ?x"
    using low_ten(1) [of u] low_ten(1) [of v] unfolding pair_char_def push_bit_eq_mult
    by (simp add: unat_word_ariths take_bit_eq_mod)
  then show "0x10000 \<le> unat (pair_char u v)" "unat (pair_char u v) \<le> 0x10ffff"
    using low_ten(1) [of u] low_ten(1) [of v] by linarith+
qed

lemma ten_disjoint: "push_bit 10 y AND (ucast (z AND 0x3ff :: 16 word) :: 32 word) = 0"
proof -
  have m: "(0x3ff :: 16 word) = mask 10" by (simp add: mask_eq_exp_minus_1)
  show ?thesis unfolding m by (rule bit_word_eqI) (auto simp: bit_simps)
qed

lemma high_surrogate_is:
  assumes "high_surrogate u"
  shows "(ucast u :: 32 word) = 0xd800 + ucast (u AND 0x3ff)"
proof -
  let ?w = "ucast (u AND 0x3ff) :: 32 word"
  have m: "(0x3ff :: 16 word) = mask 10" "(0xfc00 :: 16 word) = push_bit 10 (mask 6)"
    by (simp_all add: mask_eq_exp_minus_1 push_bit_eq_mult)
  have u: "(u AND 0xfc00) OR (u AND 0x3ff) = u" unfolding m by (rule bit_word_eqI) (auto simp: bit_simps)
  have "(ucast ((u AND 0xfc00) OR (u AND 0x3ff)) :: 32 word) = ucast (u AND 0xfc00) OR ?w" by (simp only: unsigned_or_eq)
  then have "ucast u = (0xd800 OR ?w)" using assms unfolding high_surrogate_def u by simp
  also have "\<dots> = 0xd800 + ?w"
    using ten_disjoint [of "0x36" u] by (intro disjunctive_add_eq_or [symmetric]) (simp add: push_bit_eq_mult)
  finally show ?thesis .
qed

lemma high_surrogate_value:
  assumes "high_surrogate u"
  shows "push_bit 10 (ucast u - 0xd7c0) OR (ucast v AND 0x3ff) = pair_char u v" "0x800 \<le> unat (ucast u :: 32 word)"
proof -
  have "push_bit 10 (ucast u - 0xd7c0) = (0x10000 + push_bit 10 (ucast (u AND 0x3ff)) :: 32 word)"
    by (simp add: high_surrogate_is [OF assms] push_bit_eq_mult algebra_simps)
  moreover have "push_bit 10 y OR ucast (v AND 0x3ff) = (push_bit 10 y + ucast (v AND 0x3ff) :: 32 word)" for y
    by (intro disjunctive_add_eq_or [symmetric] ten_disjoint)
  ultimately show "push_bit 10 (ucast u - 0xd7c0) OR (ucast v AND 0x3ff) = pair_char u v" by (metis low_ten(2) pair_char_def)
  show "0x800 \<le> unat (ucast u :: 32 word)"
    using low_ten(1) [of u] by (simp add: high_surrogate_is [OF assms] unat_word_ariths)
qed

lemma u_to_utf8_unit: "\<not> high_surrogate u \<Longrightarrow> u_to_utf8 (ucast u) nxt = Inr (unicode_to_utf8_char (ucast u))"
  using unit_small [of u] high_surrogate_word [of u]
  by (simp add: u_to_utf8_def unicode_to_utf8_char_def mask_tests word_less_nat_alt [of _ "0x10000"])

lemma u_to_utf8_pair:
  assumes "high_surrogate u"
  shows "u_to_utf8 (ucast u) (Some (ucast v)) = Inr (unicode_to_utf8_char (pair_char u v))"
proof -
  note b = pair_char_bounds [of u v] high_surrogate_value(1) [OF assms, of v] high_surrogate_value(2) [OF assms]
  have "ucast u AND 0xfc00 = (0xd800 :: 32 word)" using high_surrogate_word assms by simp
  then show ?thesis using b(1,2,4)
    by (simp add: u_to_utf8_def unicode_to_utf8_char_def mask_tests [OF unit_small] b(3) word_less_nat_alt word_le_nat_alt Let_def)
qed

lemma unit_at_bytes:
  "unit_at (concat (map be_bytes (pre @ us))) (2 * length pre) = (case us of [] \<Rightarrow> None | u # _ \<Rightarrow> Some (ucast u))"
proof -
  have l: "length (concat (map be_bytes xs)) = 2 * length xs" for xs by (induction xs) (simp_all add: be_bytes_def)
  have "ucast u = push_bit 8 (ucast (ucast (drop_bit 8 u) :: u8)) OR (ucast (ucast u :: u8) :: 32 word)" for u :: "16 word"
    by (rule bit_word_eqI) (auto simp: bit_simps dest: bit_imp_le_length)
  then show ?thesis using l [of pre] by (cases us) (simp_all add: unit_at_def l nth_append be_bytes_def)
qed

lemma utf8_char_length: "length (unicode_to_utf8_char c) \<le> 4"
  by (simp add: unicode_to_utf8_char_def)

lemma utf8_loop_units:
  assumes "us \<noteq> [] \<Longrightarrow> \<not> high_surrogate (last us)" "length dst + 4 * length us \<le> limit"
  shows "utf8_loop (concat (map be_bytes (pre @ us))) (2 * length (pre @ us)) limit (2 * length pre) dst =
    Inr (2 * length (pre @ us), dst @ utf8_units us)"
  using assms
proof (induction us arbitrary: pre dst rule: utf8_units.induct)
  case 1
  then show ?case by (simp add: utf8_loop.simps)
next
  case (2 u)
  then show ?case using unit_at_bytes [of pre "[u]"] utf8_char_length [of "ucast u"]
    by (simp add: utf8_loop.simps [of _ _ _ "2 * length pre"] utf8_loop.simps [of _ _ _ "Suc (Suc (2 * length pre))"] u_to_utf8_unit)
next
  case (3 u v us)
  let ?c = "if high_surrogate u then pair_char u v else ucast u" and ?src = "concat (map be_bytes (pre @ u # v # us))"
  have "unit_at ?src (2 * length pre) = Some (ucast u)" "unit_at ?src (2 * length pre + 2) = Some (ucast v)"
    using unit_at_bytes [of pre "u # v # us"] unit_at_bytes [of "pre @ [u]" "v # us"] by simp_all
  moreover have "u_to_utf8 (ucast u) (Some (ucast v)) = Inr (unicode_to_utf8_char ?c)"
    by (simp add: u_to_utf8_unit u_to_utf8_pair)
  ultimately show ?case
    using 3(1) [of "dst @ unicode_to_utf8_char ?c" "pre @ [u]"] 3(2,3) utf8_char_length [of ?c]
    by (subst utf8_loop.simps) simp
qed

lemma utf8_units_nonempty: "us \<noteq> [] \<Longrightarrow> utf8_units us \<noteq> []"
proof -
  have small: "unicode_to_utf8_char (ucast u) \<noteq> []" for u :: "16 word"
    using unit_small [of u] by (auto simp: unicode_to_utf8_char_def word_less_nat_alt)
  have "unicode_to_utf8_char (pair_char u v) \<noteq> []" for u v
    using pair_char_bounds [of u v] by (auto simp: unicode_to_utf8_char_def word_le_nat_alt)
  with small show "us \<noteq> [] \<Longrightarrow> utf8_units us \<noteq> []" by (cases us rule: utf8_units.cases) simp_all
qed

text \<open>
  C39. A source of whole big-endian units that does not end in a high surrogate is converted completely when the
  destination has four bytes for every unit. Every unit is encoded as the character it is; a high surrogate is encoded
  as the character of the pair it begins, after which the second unit of the pair is encoded on its own too.
\<close>

theorem utf8_string:
  assumes "us \<noteq> []" "\<not> high_surrogate (last us)" "4 * length us \<le> dstLen"
  shows "unicode_to_utf8 (concat (map be_bytes us)) (2 * length us) dstLen = Inr (EOK, 2 * length us, utf8_units us)"
  using utf8_loop_units [of us "[]" dstLen "[]"] assms utf8_units_nonempty [OF assms(1)]
  by (simp add: unicode_to_utf8_def)

theorem utf8_string_witness:
  "unicode_to_utf8 [0xd8, 0x3d, 0xde, 0x00] 4 8 = Inr (EOK, 4, unicode_to_utf8_char 0x1f600 @ [0xed, 0xb8, 0x80])"
proof -
  have "unicode_to_utf8 (concat (map be_bytes [0xd83d, 0xde00])) (2 * length [0xd83d, 0xde00 :: 16 word]) 8 =
    Inr (EOK, 2 * length [0xd83d, 0xde00 :: 16 word], utf8_units [0xd83d, 0xde00])"
    by (rule utf8_string) (simp_all add: high_surrogate_def)
  moreover have "(55357 :: u8) = 0x3d" "(56832 :: u8) = 0" by simp_all
  ultimately show ?thesis by (simp add: be_bytes_def high_surrogate_def pair_char_def unicode_to_utf8_char_def drop_bit_eq_div push_bit_eq_mult)
qed

end
