(* ===== verification/Spec2Isabelle.thy ===== *)
theory Spec2Isabelle
  imports Mark_Sweep Array_List Exec_Prefix Method_Correct Kernel_Queue Address_Map Kernel_Pool Utf8
begin

text \<open>
  Phantom OS: the object memory and the bytecode interpreter of its virtual machine, the code
  generation of its compiler, and the containers and the character conversion of its kernel.

  \<^bold>\<open>The program.\<close> Phantom runs persistent objects. The virtual machine (\<^verbatim>\<open>src/phantom/vm\<close>) keeps them in
  one object space: the allocator (\<^verbatim>\<open>alloc.c\<close>) cuts it into arenas and blocks, the reference
  counter and the mark and sweep collector (\<^verbatim>\<open>gc.c\<close>) give blocks back, creation (\<^verbatim>\<open>create.c\<close>,
  \<^verbatim>\<open>internal.c\<close>) fills them, field and array access (\<^verbatim>\<open>object.c\<close>) and the paged stacks (\<^verbatim>\<open>stacks.c\<close>)
  work on their contents, and the interpreter (\<^verbatim>\<open>exec.c\<close>, fetching with \<^verbatim>\<open>code.c\<close>) runs byte code on top of
  all of them. The compiler (\<^verbatim>\<open>src/tools/plc\<close>) turns syntax trees into that byte code through the
  writer in \<^verbatim>\<open>ru/dz/phantom/code\<close>. The kernel brings its own containers: linked queues
  (\<^verbatim>\<open>include/queue.h\<close>), maps of address ranges (\<^verbatim>\<open>libkern/amap.c\<close>) and pools of elements named by handles
  (\<^verbatim>\<open>libphantom/pool.c\<close>), and a conversion to UTF-8 (\<^verbatim>\<open>libphantom/unicode2utf8.c\<close>).

  \<^bold>\<open>How code is modelled.\<close> A function of the source is a definition of the same name. Stateful code is a
  computation \<open>('s, 'a) comp\<close>: a function from a state to an error or a result and the new state. The
  errors (\<open>vm_error\<close>) stand for panics, failed assertions, panics of the interpreter, accesses to
  memory that holds no object (\<open>Fault\<close>) or lies outside an array (\<open>Out_of_bounds\<close>), and for loops and
  recursions that used up their fuel (\<open>Diverges\<close>). Numbers of 32 and 64 bits are words where they wrap
  around, and natural numbers or integers with the wrap-around written out (\<open>u32\<close>, \<open>s32\<close>) elsewhere.

  \<^item> \<open>Phantom_Prelude\<close>: computations, errors, integer widths, shared lemmas and the collections
    \<open>comp_simps\<close> that the component proofs use.
  \<^item> \<open>Object_Model\<close>, \<open>Object_Memory\<close>: references (\<^verbatim>\<open>struct pvm_object\<close>), headers (\<^verbatim>\<open>struct
    pvm_object_storage\<close>), data areas (\<^verbatim>\<open>internal_da.h\<close>) and flags; the state \<open>vm_state\<close> with the heap as a map
    from addresses to headers; the class table of \<^verbatim>\<open>internal.c\<close> and the iterators \<^verbatim>\<open>pvm_gc_iter_*\<close>.
  \<^item> \<open>Ref_Count\<close>: \<^verbatim>\<open>ref_inc_p\<close>, \<^verbatim>\<open>ref_dec_p\<close>, \<^verbatim>\<open>ref_saturate_p\<close> and the dismantling of dead objects. \<open>counted E D s R\<close>
    says that every count covers the references of live objects and those in \<open>R\<close>; the locale
    \<open>ref_counter\<close> is the interface that clients use. Giving up a reference never fails, never
    frees what is still reachable, and with exact counts and no cycles leaks nothing.
  \<^item> \<open>Object_Alloc\<close>: arenas, \<^verbatim>\<open>pvm_find\<close> with splitting and collapsing, \<^verbatim>\<open>pvm_object_alloc\<close>, \<^verbatim>\<open>pvm_memcheck\<close>. \<open>heap_ok\<close>
    says that the arenas are tiled by blocks; start-up establishes it and allocation keeps it.
  \<^item> \<open>Mark_Sweep\<close>: \<^verbatim>\<open>run_gc\<close>. A collection frees exactly the objects that cannot be reached from the root.
  \<^item> \<open>Object_Create\<close>, \<open>Object_Init\<close>: the creators and initialisers. \<open>yields m s Q\<close> says that \<open>m\<close> reports that
    memory is exhausted or ends in a result with \<open>Q\<close>; \<open>created\<close> describes the new object.
  \<^item> \<open>Object_Fields\<close>, \<open>Array_List\<close>: slots, copies and arrays. Writing a field transfers references; arrays
    refine lists; the copy of an object takes one reference too many, and an append after a
    removal one reference away.
  \<^item> \<open>Exec_Stacks\<close>, \<open>Stack_Refine\<close>: the integer, long, object and exception stacks. The locale \<open>paged_stack\<close>
    proves once that a chain of pages implements a list; it is interpreted for three stacks.
  \<^item> \<open>Code_Fetch\<close>, \<open>Opcodes\<close>, \<open>Exec_Interp\<close>: operands, instruction codes, and every instruction of \<^verbatim>\<open>pvm_exec\<close>
    with calls, returns, exceptions and method search. \<open>Exec_Prefix\<close> shows that the prefixes for 64-bit
    operations have no effect.
  \<^item> \<open>Int_Machine\<close>: a stack machine for integer code that the interpreter simulates step by step.
  \<^item> \<open>Codegen\<close>, \<open>Relocation\<close>: the writer of byte code, its labels and their relocation. Every jump that the
    machine fetches leads to the mark of its label.
  \<^item> \<open>Compiler_Nodes\<close>, \<open>Compile_Items\<close>, \<open>Compile_Correct\<close>, \<open>Method_Correct\<close>: types, stack placement and code of
    the syntax tree (packages \<^verbatim>\<open>node\<close>, \<^verbatim>\<open>binode\<close>, \<^verbatim>\<open>trinode\<close>, and \<^verbatim>\<open>Method.java\<close>); a source semantics of the
    integer part of the language; compiled and relocated methods of that part make the
    interpreter compute what the source means. Some operators are compiled wrongly, as shown at
    the end.
  \<^item> \<open>Kernel_Queue\<close>: the macros of \<^verbatim>\<open>queue.h\<close> on a store of links refine lists; the locale \<open>fifo\<close> gives the
    order of elements.
  \<^item> \<open>Address_Map\<close>: the entries of a map tile its range; modification sets the flags of exactly the given range,
    and panics at the end of the map.
  \<^item> \<open>Kernel_Pool\<close>: every sequence of operations keeps a pool consistent, a handle gives its element back; full
    pools and full arenas go wrong.
  \<^item> \<open>Utf8\<close>, \<open>Errno_Codes\<close>: encoding and decoding are inverse; what becomes of surrogate pairs.
  \<^item> \<open>Sample_Heap\<close>: concrete well-formed heaps, on which the witnesses of the properties run.

  \<^bold>\<open>Bounds and fuel.\<close> Recursions over objects (\<open>do_ref_dec_p\<close>, \<open>mark_tree\<close>, field access through arrays) take the
  size of the object space as fuel; it exceeds the number of objects, and the properties show that
  \<open>Diverges\<close> does not come up. The search for a block takes two rounds of its arena. The
  loop of the interpreter takes a number of iterations; the properties hold for every number
  that is large enough and say how large. The loops of address maps need two iterations more than there are entries,
  the search of a pool 256 iterations, since a handle has eight bits for the arena.

  \<^bold>\<open>Parameters.\<close> System calls, the initialisation of windows, and the bytes behind an object
  that \<^verbatim>\<open>pvm_copy_object\<close> reads are fields of \<open>vm_ext\<close>; the uninitialised variable of \<^verbatim>\<open>amap_check_modify\<close>,
  the amount of memory for entries, and the initialiser of pool elements are parameters of
  their theories; what the compiler knows of classes and methods is the record \<open>gen_env\<close>.

  \<^bold>\<open>Not modelled.\<close> Threads and locks: every component runs as one thread, so mutexes, the deferred
  decrement of \<^verbatim>\<open>refdec.c\<close> and requests for snapshots are left out. Input and output: drivers,
  screens, network, disks, the class loader, the bodies of system calls, all printing. The just-in-time compiler,
  the grammar and the translators from Java and Python, the LLVM back end, line number tables, and
  third-party code (libc, fonts, decoders, cryptography).
\<close>

end
